(* ===== verification/Ners_Prelude.thy ===== *)
theory Ners_Prelude
  imports Main "HOL-Library.Word" "HOL-Library.AList" "HOL-Library.Multiset"
begin

text \<open>
  Shared vocabulary of the development: machine integers, byte strings, results with errors
  and panics, hash maps as association lists, and the generic lemmas about them.

  \<^item> \<open>u8\<close>, \<open>u16\<close>, \<open>u32\<close>, \<open>u64\<close> are words. \<open>usize\<close> is a natural number: lengths, indices and
    counters of objects in memory never reach \<open>2 ^ 64\<close>; where a value from the wire is added
    or shifted the wrap-around of a release build (no overflow checks) is written out with
    \<open>usize_add\<close> and \<open>usize_shl\<close>. \<open>i32\<close> is an integer with \<open>i32_wrap\<close>.
  \<^item> A \<open>String\<close>, \<open>&str\<close>, \<open>Bytes\<close> or \<open>BytesMut\<close> is the list of its bytes (strings in UTF-8).
  \<^item> A \<open>Result\<close> is a sum whose left side is an error of the code or a panic.
\<close>

unbundle bit_operations_syntax

named_theorems wire_simps \<open>equations of the byte-level encoders and decoders\<close>
named_theorems inv_intros \<open>preservation of the component invariants\<close>

section \<open>Machine integers and bytes\<close>

type_synonym u8 = "8 word"
type_synonym u16 = "16 word"
type_synonym u32 = "32 word"
type_synonym u64 = "64 word"
type_synonym usize = nat
type_synonym i32 = int
type_synonym bytes = "u8 list"
type_synonym str = "u8 list"

definition USIZE_MAX :: usize where
  "USIZE_MAX = 2 ^ 64 - 1"

definition usize_add :: "usize \<Rightarrow> usize \<Rightarrow> usize" where
  "usize_add a b = (a + b) mod 2 ^ 64"

definition usize_shl :: "usize \<Rightarrow> usize \<Rightarrow> usize" where
  "usize_shl a m = (a * 2 ^ (m mod 64)) mod 2 ^ 64"

definition usize_sub :: "usize \<Rightarrow> usize \<Rightarrow> usize" where
  "usize_sub a b = nat ((int a - int b) mod 2 ^ 64)"

lemma usize_add_exact: "a + b < 2 ^ 64 \<Longrightarrow> usize_add a b = a + b"
  by (simp add: usize_add_def)

lemma usize_shl_exact: "m < 64 \<Longrightarrow> a * 2 ^ m < 2 ^ 64 \<Longrightarrow> usize_shl a m = a * 2 ^ m"
  by (simp add: usize_shl_def)

lemma usize_sub_exact: "b \<le> a \<Longrightarrow> a < 2 ^ 64 \<Longrightarrow> usize_sub a b = a - b"
  by (simp add: usize_sub_def flip: of_nat_diff)

definition i32_wrap :: "int \<Rightarrow> i32" where
  "i32_wrap x = (x + 2 ^ 31) mod 2 ^ 32 - 2 ^ 31"

definition i32_saturating_add :: "i32 \<Rightarrow> i32 \<Rightarrow> i32" where
  "i32_saturating_add a b = max (- (2 ^ 31)) (min (2 ^ 31 - 1) (a + b))"

definition is_i32 :: "int \<Rightarrow> bool" where
  "is_i32 x \<longleftrightarrow> - (2 ^ 31) \<le> x \<and> x < 2 ^ 31"

lemma i32_wrap_exact: "is_i32 x \<Longrightarrow> i32_wrap x = x"
  by (simp add: i32_wrap_def is_i32_def)

lemma is_i32_wrap [simp]: "is_i32 (i32_wrap x)"
  by (simp add: i32_wrap_def is_i32_def)

lemma i32_saturating_add_exact: "is_i32 (a + b) \<Longrightarrow> i32_saturating_add a b = a + b"
  by (simp add: i32_saturating_add_def is_i32_def)

lemma is_i32_saturating_add [simp]: "is_i32 (i32_saturating_add a b)"
  by (auto simp: i32_saturating_add_def is_i32_def)

lemma i32_wrap_mod: "i32_wrap x mod 2 ^ 32 = x mod 2 ^ 32"
  by (simp add: i32_wrap_def mod_diff_left_eq)

lemma i32_wrap_cong: "x mod 2 ^ 32 = y mod 2 ^ 32 \<Longrightarrow> i32_wrap x = i32_wrap y"
  unfolding i32_wrap_def by (metis mod_add_left_eq)

lemma i32_wrap_wrap [simp]: "i32_wrap (i32_wrap x) = i32_wrap x"
  by (rule i32_wrap_cong) (rule i32_wrap_mod)

lemma i32_wrap_diff [simp]: "i32_wrap (i32_wrap x - i32_wrap y) = i32_wrap (x - y)"
  by (rule i32_wrap_cong) (metis mod_diff_eq i32_wrap_mod)

text \<open>\<open>x as i32\<close> of a \<open>u32\<close>.\<close>

definition u32_as_i32 :: "u32 \<Rightarrow> i32" where
  "u32_as_i32 w = i32_wrap (uint w)"

lemma u32_as_i32_small: "uint w < 2 ^ 31 \<Longrightarrow> u32_as_i32 w = uint w"
  unfolding u32_as_i32_def
proof (rule i32_wrap_exact)
  assume "uint w < 2 ^ 31"
  moreover have "- (2 ^ 31) \<le> uint w" by (rule order_trans [of _ 0]) simp_all
  ultimately show "is_i32 (uint w)" unfolding is_i32_def by blast
qed

text \<open>Big-endian integers: \<open>from_be_bytes\<close> and \<open>put_u16\<close>, \<open>put_u32\<close>.\<close>

definition u16_of_be :: "u8 \<Rightarrow> u8 \<Rightarrow> u16" where
  "u16_of_be a b = push_bit 8 (ucast a) OR ucast b"

definition u32_of_be :: "u8 \<Rightarrow> u8 \<Rightarrow> u8 \<Rightarrow> u8 \<Rightarrow> u32" where
  "u32_of_be a b c d =
     push_bit 24 (ucast a) OR push_bit 16 (ucast b) OR push_bit 8 (ucast c) OR ucast d"

definition put_u16 :: "u16 \<Rightarrow> bytes" where
  "put_u16 n = [ucast (drop_bit 8 n), ucast n]"

definition put_u32 :: "u32 \<Rightarrow> bytes" where
  "put_u32 n = [ucast (drop_bit 24 n), ucast (drop_bit 16 n), ucast (drop_bit 8 n), ucast n]"

lemma u16_of_be_put [wire_simps]:
  "u16_of_be (ucast (drop_bit 8 (n :: u16))) (ucast n) = n"
  unfolding u16_of_be_def
  by (rule bit_word_eqI) (auto simp: bit_simps)

lemma u32_of_be_put [wire_simps]:
  "u32_of_be (ucast (drop_bit 24 (n :: u32))) (ucast (drop_bit 16 n))
     (ucast (drop_bit 8 n)) (ucast n) = n"
proof (rule bit_word_eqI)
  fix i assume "i < LENGTH(32)"
  then consider "i < 8" | "8 \<le> i \<and> i < 16" | "16 \<le> i \<and> i < 24" | "24 \<le> i \<and> i < 32"
    by fastforce
  then show "bit (u32_of_be (ucast (drop_bit 24 n)) (ucast (drop_bit 16 n))
      (ucast (drop_bit 8 n)) (ucast n)) i = bit n i"
    by cases (auto simp: u32_of_be_def bit_simps)
qed

lemma put_u16_of_be [wire_simps]: "put_u16 (u16_of_be a b) = [a, b]"
proof -
  have "ucast (drop_bit 8 (u16_of_be a b)) = a"
    by (rule bit_word_eqI)
      (auto simp: u16_of_be_def bit_simps dest: bit_imp_le_length)
  moreover have "ucast (u16_of_be a b) = b"
    by (rule bit_word_eqI)
      (auto simp: u16_of_be_def bit_simps dest: bit_imp_le_length)
  ultimately show ?thesis by (simp add: put_u16_def)
qed

lemma length_put_u16 [simp]: "length (put_u16 n) = 2"
  by (simp add: put_u16_def)

lemma length_put_u32 [simp]: "length (put_u32 n) = 4"
  by (simp add: put_u32_def)

lemma unat_u8_less [simp]: "unat (b :: u8) < 256"
  using unsigned_less [of b, where ?'a = nat] by simp

text \<open>The low 31 bits: stream identifiers and window increments.\<close>

lemma u32_of_be_low31 [wire_simps]:
  "u32_of_be (a AND 0x7F) b c d = u32_of_be a b c d AND 0x7FFFFFFF"
proof (rule bit_word_eqI)
  have m8: "(0x7F :: u8) = mask 7" and m32: "(0x7FFFFFFF :: u32) = mask 31"
    by (simp_all add: mask_eq_exp_minus_1)
  fix i assume "i < LENGTH(32)"
  then show "bit (u32_of_be (a AND 0x7F) b c d) i = bit (u32_of_be a b c d AND 0x7FFFFFFF) i"
    unfolding m8 m32
    by (auto simp: u32_of_be_def bit_simps dest: bit_imp_le_length)
qed

lemma and_low31_id: "(n :: u32) < 0x80000000 \<Longrightarrow> n AND 0x7FFFFFFF = n"
proof -
  assume "n < 0x80000000"
  then have "take_bit 31 n = n"
    by (simp add: take_bit_eq_mod word_less_nat_alt word_arith_nat_mod unat_of_nat)
  then show ?thesis by (simp add: take_bit_eq_mask mask_eq_exp_minus_1)
qed

section \<open>Results, slices and text\<close>

text \<open>
  The left side of a \<open>Result\<close>: an error the code returns, or a panic that unwinds the thread.
\<close>

datatype 'e fault = Error 'e | Panic

type_synonym ('e, 'a) result = "'e fault + 'a"

text \<open>\<open>&xs[a..b]\<close>: it panics when the range is reversed or reaches beyond the end.\<close>

definition slice :: "'a list \<Rightarrow> usize \<Rightarrow> usize \<Rightarrow> ('e, 'a list) result" where
  "slice xs a b = (if a \<le> b \<and> b \<le> length xs then Inr (take (b - a) (drop a xs)) else Inl Panic)"

lemma slice_Inr: "slice xs a b = Inr ys \<longleftrightarrow> a \<le> b \<and> b \<le> length xs \<and> ys = take (b - a) (drop a xs)"
  by (auto simp: slice_def)

lemma slice_Inl: "slice xs a b = Inl e \<longleftrightarrow> \<not> (a \<le> b \<and> b \<le> length xs) \<and> e = Panic"
  by (auto simp: slice_def)

text \<open>String literals as bytes, and \<open>to_string\<close> of an unsigned integer.\<close>

definition lit :: "string \<Rightarrow> str" where
  "lit s = map of_char s"

fun show_nat :: "nat \<Rightarrow> str" where
  "show_nat n = (if n < 10 then [of_nat (48 + n)] else show_nat (n div 10) @ [of_nat (48 + n mod 10)])"

declare show_nat.simps [simp del]

section \<open>Hash maps as association lists\<close>

text \<open>
  A \<open>HashMap\<close> is an association list with distinct keys; its order stands for the (arbitrary)
  iteration order of the map.
\<close>

definition hm_get :: "'k \<Rightarrow> ('k \<times> 'v) list \<Rightarrow> 'v option" where
  "hm_get k m = map_of m k"

definition hm_insert :: "'k \<Rightarrow> 'v \<Rightarrow> ('k \<times> 'v) list \<Rightarrow> ('k \<times> 'v) list" where
  "hm_insert k v m = AList.update k v m"

text \<open>\<open>if let Some(x) = m.get_mut(&k) { f(x) }\<close>.\<close>

definition hm_modify :: "'k \<Rightarrow> ('v \<Rightarrow> 'v) \<Rightarrow> ('k \<times> 'v) list \<Rightarrow> ('k \<times> 'v) list" where
  "hm_modify k f m = (case hm_get k m of None \<Rightarrow> m | Some v \<Rightarrow> hm_insert k (f v) m)"

definition hm_map :: "('v \<Rightarrow> 'v) \<Rightarrow> ('k \<times> 'v) list \<Rightarrow> ('k \<times> 'v) list" where
  "hm_map f m = map (\<lambda>(k, v). (k, f v)) m"

abbreviation hm_distinct :: "('k \<times> 'v) list \<Rightarrow> bool" where
  "hm_distinct m \<equiv> distinct (map fst m)"

lemma hm_get_empty [simp]: "hm_get k [] = None"
  by (simp add: hm_get_def)

lemma hm_get_insert: "hm_get k' (hm_insert k v m) = (if k' = k then Some v else hm_get k' m)"
  by (simp add: hm_get_def hm_insert_def update_conv)

lemma hm_get_modify:
  "hm_get k' (hm_modify k f m) = (if k' = k then map_option f (hm_get k m) else hm_get k' m)"
  by (auto simp: hm_modify_def hm_get_insert split: option.splits)

lemma hm_get_map: "hm_get k (hm_map f m) = map_option f (hm_get k m)"
  by (induction m) (auto simp: hm_get_def hm_map_def)

lemma hm_distinct_insert [simp]: "hm_distinct m \<Longrightarrow> hm_distinct (hm_insert k v m)"
  by (simp add: hm_insert_def distinct_update)

lemma hm_distinct_modify [simp]: "hm_distinct m \<Longrightarrow> hm_distinct (hm_modify k f m)"
  by (simp add: hm_modify_def split: option.splits)

lemma hm_distinct_map [simp]: "hm_distinct (hm_map f m) = hm_distinct m"
  by (simp add: hm_map_def comp_def split_def)

lemma hm_get_iff: "hm_distinct m \<Longrightarrow> hm_get k m = Some v \<longleftrightarrow> (k, v) \<in> set m"
  by (simp add: hm_get_def)

lemma hm_set_insert: "p \<in> set (hm_insert k v m) \<Longrightarrow> p = (k, v) \<or> p \<in> set m"
  unfolding hm_insert_def by (induction m) (auto split: if_splits)

lemma hm_get_mem: "hm_get k m = Some v \<Longrightarrow> (k, v) \<in> set m"
  by (simp add: hm_get_def map_of_SomeD)

text \<open>A sum over the values of a map, after an insertion.\<close>

lemma hm_sum_insert:
  fixes f :: "'v \<Rightarrow> 'a :: ab_group_add"
  shows "sum_list (map (f \<circ> snd) (hm_insert k v m)) = sum_list (map (f \<circ> snd) m)
    - (case hm_get k m of None \<Rightarrow> 0 | Some old \<Rightarrow> f old) + f v"
  unfolding hm_insert_def hm_get_def by (induction m) (auto split: option.splits)

lemma hm_keys_insert: "fst ` set (hm_insert k v m) = insert k (fst ` set m)"
  by (simp add: hm_insert_def dom_update flip: )

section \<open>Bounded histories\<close>

text \<open>
  \<open>if deque.len() >= cap { deque.pop_front(); } deque.push_back(x)\<close>: the newest entries, at least
  one.
\<close>

definition push_bounded :: "usize \<Rightarrow> 'a \<Rightarrow> 'a list \<Rightarrow> 'a list" where
  "push_bounded cap x xs = (if cap \<le> length xs then tl xs else xs) @ [x]"

definition newest :: "usize \<Rightarrow> 'a list \<Rightarrow> 'a list" where
  "newest n xs = drop (length xs - n) xs"

lemma length_newest [simp]: "length (newest n xs) = min n (length xs)"
  by (simp add: newest_def min_def)

lemma push_bounded_newest:
  "push_bounded cap x (newest (max 1 cap) xs) = newest (max 1 cap) (xs @ [x])"
proof (cases "max 1 cap \<le> length xs")
  case True
  then have "length xs - (max 1 cap - 1) = Suc (length xs - max 1 cap)" by linarith
  with True show ?thesis
    by (auto simp: push_bounded_def newest_def drop_Suc tl_drop max_def split: if_splits)
next
  case False
  then show ?thesis by (cases xs) (auto simp: push_bounded_def newest_def max_def split: if_splits)
qed

lemma fold_push_bounded: "fold (push_bounded cap) xs [] = newest (max 1 cap) xs"
  by (induction xs rule: rev_induct) (simp add: newest_def, simp add: push_bounded_newest del: One_nat_def)

lemma length_push_bounded: "length xs \<le> cap \<Longrightarrow> length (push_bounded cap x xs) \<le> max 1 cap"
  by (auto simp: push_bounded_def)

end
