(* ===== verification/Codec.thy ===== *)
theory Codec
  imports Ners_Prelude
begin

text \<open>
  The interface of an incremental parser and its serializer. A parser takes the receive buffer
  and returns the buffer it leaves with an error, with nothing yet, or with a message. The laws
  are the round trip and silence on every strict prefix of a message; from them the locale
  derives unique decoding and that a stream of messages is recovered whatever the boundaries at
  which its bytes arrive.
\<close>

text \<open>The receive loop of a client: parse until the parser wants more bytes or fails.\<close>

fun drain :: "('b list \<Rightarrow> 'b list \<times> ('e + 'f option)) \<Rightarrow> nat \<Rightarrow> 'b list \<Rightarrow> 'f list \<times> 'b list \<times> 'e option" where
  "drain parse 0 buf = ([], buf, None)"
| "drain parse (Suc fuel) buf =
     (case parse buf of
        (buf', Inl e) \<Rightarrow> ([], buf', Some e)
      | (buf', Inr None) \<Rightarrow> ([], buf', None)
      | (buf', Inr (Some f)) \<Rightarrow>
          (case drain parse fuel buf' of (fs, r, e) \<Rightarrow> (f # fs, r, e)))"

text \<open>
  Chunks of bytes arrive one after the other; after each the buffer is drained. Every message
  takes at least one byte, so the length of the buffer is enough fuel.
\<close>

fun feed_all :: "('b list \<Rightarrow> 'b list \<times> ('e + 'f option)) \<Rightarrow> 'b list \<Rightarrow> 'b list list
    \<Rightarrow> 'f list \<times> 'b list \<times> 'e option" where
  "feed_all parse buf [] = ([], buf, None)"
| "feed_all parse buf (c # cs) =
     (case drain parse (Suc (length (buf @ c))) (buf @ c) of
        (fs, r, Some e) \<Rightarrow> (fs, r, Some e)
      | (fs, r, None) \<Rightarrow> (case feed_all parse r cs of (gs, r', e) \<Rightarrow> (fs @ gs, r', e)))"

locale incremental_codec =
  fixes parse :: "'b list \<Rightarrow> 'b list \<times> ('e + 'f option)"
    and ser :: "'f \<Rightarrow> 'b list"
    and wf :: "'f \<Rightarrow> bool"
  assumes parse_complete: "wf f \<Longrightarrow> parse (ser f @ rest) = (rest, Inr (Some f))"
    and parse_partial: "wf f \<Longrightarrow> n < length (ser f) \<Longrightarrow>
      parse (take n (ser f)) = (take n (ser f), Inr None)"
    and parse_nothing: "parse [] = ([], Inr None)"
begin

lemma ser_nonempty: "wf f \<Longrightarrow> ser f \<noteq> []"
  using parse_complete [of f "[]"] parse_nothing by auto

lemma ser_inj: "wf f \<Longrightarrow> wf g \<Longrightarrow> ser f = ser g \<Longrightarrow> f = g"
  using parse_complete [of f "[]"] parse_complete [of g "[]"] by auto

lemma unique_decoding:
  assumes "\<forall>f \<in> set fs. wf f" and "\<forall>g \<in> set gs. wf g"
    and "concat (map ser fs) = concat (map ser gs)"
  shows "fs = gs"
  using assms
proof (induction fs arbitrary: gs)
  case Nil
  then show ?case using ser_nonempty by (cases gs) auto
next
  case (Cons f fs)
  from Cons.prems(1) have "wf f" by simp
  with Cons.prems(3) ser_nonempty have "gs \<noteq> []" by fastforce
  then obtain g gs' where gs: "gs = g # gs'" by (cases gs) auto
  with Cons.prems have "wf g" and eq: "ser f @ concat (map ser fs) = ser g @ concat (map ser gs')"
    by auto
  from parse_complete [OF \<open>wf f\<close>, of "concat (map ser fs)"]
  have "(concat (map ser fs), Inr (Some f)) = parse (ser g @ concat (map ser gs'))"
    unfolding eq by (rule sym)
  also have "\<dots> = (concat (map ser gs'), Inr (Some g))"
    by (rule parse_complete [OF \<open>wf g\<close>])
  finally show ?case using Cons.IH [of gs'] Cons.prems gs by simp
qed

text \<open>Draining a prefix of a stream yields its first messages and keeps the rest.\<close>

lemma drain_take:
  assumes "\<forall>f \<in> set fs. wf f" and "n < fuel"
  shows "\<exists>k r. drain parse fuel (take n (concat (map ser fs))) = (take k fs, r, None)
    \<and> parse r = (r, Inr None)
    \<and> r @ drop n (concat (map ser fs)) = concat (map ser (drop k fs))"
  using assms
proof (induction fs arbitrary: n fuel)
  case Nil
  then show ?case by (cases fuel) (auto simp: parse_nothing)
next
  case (Cons f fs)
  from Cons.prems obtain m where fuel: "fuel = Suc m" by (cases fuel) auto
  from Cons.prems have wf: "wf f" by simp
  show ?case
  proof (cases "n < length (ser f)")
    case True
    with parse_partial [OF wf True] show ?thesis
      by (intro exI [of _ 0] exI [of _ "take n (ser f)"]) (simp add: fuel)
  next
    case False
    then have split: "take n (concat (map ser (f # fs))) =
        ser f @ take (n - length (ser f)) (concat (map ser fs))" by simp
    from ser_nonempty [OF wf] have "0 < length (ser f)" by simp
    with False Cons.prems fuel have "n - length (ser f) < m" by linarith
    with Cons.IH [of "n - length (ser f)" m] Cons.prems obtain k r where
      "drain parse m (take (n - length (ser f)) (concat (map ser fs))) = (take k fs, r, None)"
      "parse r = (r, Inr None)"
      "r @ drop (n - length (ser f)) (concat (map ser fs)) = concat (map ser (drop k fs))"
      by auto
    with False show ?thesis
      by (intro exI [of _ "Suc k"] exI [of _ r]) (simp add: fuel split parse_complete [OF wf])
  qed
qed

theorem chunked_stream:
  assumes "\<forall>f \<in> set fs. wf f" and "parse buf = (buf, Inr None)"
    and "buf @ concat chunks = concat (map ser fs)"
  shows "feed_all parse buf chunks = (fs, [], None)"
  using assms
proof (induction chunks arbitrary: buf fs)
  case Nil
  then show ?case
    by (cases fs) (auto simp: parse_complete)
next
  case (Cons c cs)
  let ?n = "length (buf @ c)"
  from Cons.prems(3) have s: "concat (map ser fs) = (buf @ c) @ concat cs" by simp
  obtain k r where d: "drain parse (Suc ?n) (buf @ c) = (take k fs, r, None)"
    and r: "parse r = (r, Inr None)" and rest: "r @ concat cs = concat (map ser (drop k fs))"
    using drain_take [OF Cons.prems(1) lessI, of ?n] unfolding s by auto
  have "feed_all parse r cs = (drop k fs, [], None)"
    using Cons.prems(1) r rest by (intro Cons.IH) (auto dest: in_set_dropD)
  with d show ?case by (simp del: drain.simps)
qed

end

text \<open>
  A codec with state on both sides, such as a header compressor: the law says that one message,
  encoded and decoded from equal states, arrives unchanged and leaves equal states.
\<close>

fun run_encoder :: "('s \<Rightarrow> 'm \<Rightarrow> 's \<times> 'b list) \<Rightarrow> 's \<Rightarrow> 'm list \<Rightarrow> 's \<times> 'b list list" where
  "run_encoder enc s [] = (s, [])"
| "run_encoder enc s (m # ms) =
     (let (s1, b) = enc s m; (s2, bs) = run_encoder enc s1 ms in (s2, b # bs))"

fun run_decoder :: "('s \<Rightarrow> 'b list \<Rightarrow> 's \<times> ('e + 'm)) \<Rightarrow> 's \<Rightarrow> 'b list list \<Rightarrow> 's \<times> ('e + 'm) list" where
  "run_decoder dec s [] = (s, [])"
| "run_decoder dec s (b # bs) =
     (let (s1, r) = dec s b; (s2, rs) = run_decoder dec s1 bs in (s2, r # rs))"

locale stateful_codec =
  fixes enc :: "'s \<Rightarrow> 'm \<Rightarrow> 's \<times> 'b list"
    and dec :: "'s \<Rightarrow> 'b list \<Rightarrow> 's \<times> ('e + 'm)"
    and ok :: "'m \<Rightarrow> bool"
  assumes in_step: "ok m \<Longrightarrow> enc s m = (s', b) \<Longrightarrow> dec s b = (s', Inr m)"
begin

lemma session_in_step:
  "\<forall>m \<in> set ms. ok m \<Longrightarrow> run_encoder enc s ms = (s', bs) \<Longrightarrow> run_decoder dec s bs = (s', map Inr ms)"
proof (induction ms arbitrary: s bs)
  case (Cons m ms)
  obtain s1 b where 1: "enc s m = (s1, b)" by (cases "enc s m")
  obtain s2 r where 2: "run_encoder enc s1 ms = (s2, r)" by (cases "run_encoder enc s1 ms")
  from Cons.prems(2) 1 2 have eqs: "s' = s2" "bs = b # r" by auto
  have "dec s b = (s1, Inr m)" using Cons.prems(1) 1 by (intro in_step) simp_all
  moreover have "run_decoder dec s1 r = (s2, map Inr ms)"
    using Cons.IH [of s1 r] Cons.prems(1) 2 eqs by simp
  ultimately show ?case by (simp add: eqs)
qed simp

lemma enc_injective:
  assumes "ok m" and "ok m'" and "enc s m = enc s m'"
  shows "m = m'"
proof -
  obtain s1 b where e: "enc s m = (s1, b)" by (cases "enc s m")
  with assms(3) have e': "enc s m' = (s1, b)" by simp
  from in_step [OF assms(1) e] in_step [OF assms(2) e'] show ?thesis by simp
qed

end

end
