(* ===== verification/H2_Frame.thy ===== *)
theory H2_Frame
  imports Codec
begin

text \<open>
  HTTP/2 frames: \<open>ners-proto-http/src/h2/frame.rs\<close>. The enums \<open>H2Error\<close>, \<open>FrameType\<close> and
  \<open>Frame\<close>, the incremental parser \<open>Frame::parse\<close> (it takes the receive buffer and returns
  it advanced) and \<open>Frame::serialize\<close>. The lemmas give the round trip for frames that fit the
  wire format, the behaviour on every strict prefix of a frame, the exact error branches, and
  the decoding of a stream of frames through the interface \<open>frame_codec\<close>.
\<close>

section \<open>Data\<close>

definition H2_PREFACE :: bytes where
  "H2_PREFACE = map of_char ''PRI * HTTP/2.0'' @ [13, 10, 13, 10] @ map of_char ''SM'' @ [13, 10, 13, 10]"

definition FRAME_HEADER_SIZE :: usize where
  "FRAME_HEADER_SIZE = 9"

datatype h2_error =
    FrameTooShort
  | InvalidFrameType u8
  | FrameTooLarge usize usize
  | ProtocolError str
  | FlowControlError
  | StreamClosed

datatype frame_type =
    FtData | FtHeaders | FtPriority | FtRstStream | FtSettings
  | FtPushPromise | FtPing | FtGoAway | FtWindowUpdate | FtContinuation

definition frame_type_try_from :: "u8 \<Rightarrow> h2_error + frame_type" where
  "frame_type_try_from value =
     (if value = 0x0 then Inr FtData
      else if value = 0x1 then Inr FtHeaders
      else if value = 0x2 then Inr FtPriority
      else if value = 0x3 then Inr FtRstStream
      else if value = 0x4 then Inr FtSettings
      else if value = 0x5 then Inr FtPushPromise
      else if value = 0x6 then Inr FtPing
      else if value = 0x7 then Inr FtGoAway
      else if value = 0x8 then Inr FtWindowUpdate
      else if value = 0x9 then Inr FtContinuation
      else Inl (InvalidFrameType value))"

text \<open>The discriminants of the \<open>repr(u8)\<close> enum: \<open>frame_type as u8\<close>.\<close>

fun frame_type_code :: "frame_type \<Rightarrow> u8" where
  "frame_type_code FtData = 0x0"
| "frame_type_code FtHeaders = 0x1"
| "frame_type_code FtPriority = 0x2"
| "frame_type_code FtRstStream = 0x3"
| "frame_type_code FtSettings = 0x4"
| "frame_type_code FtPushPromise = 0x5"
| "frame_type_code FtPing = 0x6"
| "frame_type_code FtGoAway = 0x7"
| "frame_type_code FtWindowUpdate = 0x8"
| "frame_type_code FtContinuation = 0x9"

definition END_STREAM :: u8 where "END_STREAM = 0x1"
definition END_HEADERS :: u8 where "END_HEADERS = 0x4"
definition ACK :: u8 where "ACK = 0x1"

datatype frame =
    Data u32 bool bytes \<comment> \<open>stream, end of stream, data\<close>
  | Headers u32 bool bool bytes \<comment> \<open>stream, end of stream, end of headers, header block\<close>
  | Priority u32 bool u32 u8 \<comment> \<open>stream, exclusive, dependency, weight\<close>
  | RstStream u32 u32 \<comment> \<open>stream, error code\<close>
  | Settings bool "(u16 \<times> u32) list" \<comment> \<open>ack, settings\<close>
  | PushPromise u32 u32 bytes \<comment> \<open>stream, promised stream, header block\<close>
  | Ping bool bytes \<comment> \<open>ack, the eight bytes of data\<close>
  | GoAway u32 u32 bytes \<comment> \<open>last stream, error code, debug data\<close>
  | WindowUpdate u32 u32 \<comment> \<open>stream, increment\<close>
  | Continuation u32 bool bytes \<comment> \<open>stream, end of headers, header block\<close>

section \<open>Parsing\<close>

fun parse_settings :: "bytes \<Rightarrow> (u16 \<times> u32) list" where
  "parse_settings (p0 # p1 # p2 # p3 # p4 # p5 # p) =
     (u16_of_be p0 p1, u32_of_be p2 p3 p4 p5) # parse_settings p"
| "parse_settings p = []"

definition frame_length :: "bytes \<Rightarrow> usize" where
  "frame_length buf =
     push_bit 16 (unat (buf ! 0)) OR push_bit 8 (unat (buf ! 1)) OR unat (buf ! 2)"

definition parse_payload :: "frame_type \<Rightarrow> u8 \<Rightarrow> u32 \<Rightarrow> bytes \<Rightarrow> h2_error + frame" where
  "parse_payload frame_type flags stream_id payload =
     (case frame_type of
        FtData \<Rightarrow> Inr (Data stream_id (flags AND END_STREAM \<noteq> 0) payload)
      | FtHeaders \<Rightarrow>
          Inr (Headers stream_id (flags AND END_STREAM \<noteq> 0) (flags AND END_HEADERS \<noteq> 0) payload)
      | FtSettings \<Rightarrow> Inr (Settings (flags AND ACK \<noteq> 0) (parse_settings payload))
      | FtWindowUpdate \<Rightarrow>
          if length payload < 4 then Inl FrameTooShort
          else Inr (WindowUpdate stream_id
            (u32_of_be (payload ! 0 AND 0x7F) (payload ! 1) (payload ! 2) (payload ! 3)))
      | FtPing \<Rightarrow>
          if length payload < 8 then Inl FrameTooShort
          else Inr (Ping (flags AND ACK \<noteq> 0) (take 8 payload))
      | FtGoAway \<Rightarrow>
          if length payload < 8 then Inl FrameTooShort
          else Inr (GoAway
            (u32_of_be (payload ! 0 AND 0x7F) (payload ! 1) (payload ! 2) (payload ! 3))
            (u32_of_be (payload ! 4) (payload ! 5) (payload ! 6) (payload ! 7))
            (drop 8 payload))
      | FtRstStream \<Rightarrow>
          if length payload < 4 then Inl FrameTooShort
          else Inr (RstStream stream_id
            (u32_of_be (payload ! 0) (payload ! 1) (payload ! 2) (payload ! 3)))
      | FtPriority \<Rightarrow>
          if length payload < 5 then Inl FrameTooShort
          else Inr (Priority stream_id (payload ! 0 AND 0x80 \<noteq> 0)
            (u32_of_be (payload ! 0 AND 0x7F) (payload ! 1) (payload ! 2) (payload ! 3))
            (payload ! 4))
      | FtPushPromise \<Rightarrow>
          if length payload < 4 then Inl FrameTooShort
          else Inr (PushPromise stream_id
            (u32_of_be (payload ! 0 AND 0x7F) (payload ! 1) (payload ! 2) (payload ! 3))
            (drop 4 payload))
      | FtContinuation \<Rightarrow> Inr (Continuation stream_id (flags AND END_HEADERS \<noteq> 0) payload))"

text \<open>
  \<open>Frame::parse\<close> on the receive buffer: the buffer after the call and the result.
  An unknown frame type is reported before the frame is complete and before anything is
  consumed; a payload that is too short is reported after the frame has been consumed.
\<close>

definition frame_parse :: "bytes \<Rightarrow> bytes \<times> (h2_error + frame option)" where
  "frame_parse buf =
     (if length buf < FRAME_HEADER_SIZE then (buf, Inr None)
      else
        let len = frame_length buf in
        case frame_type_try_from (buf ! 3) of
          Inl e \<Rightarrow> (buf, Inl e)
        | Inr frame_type \<Rightarrow>
            let flags = buf ! 4;
                stream_id = u32_of_be (buf ! 5 AND 0x7F) (buf ! 6) (buf ! 7) (buf ! 8);
                total_len = FRAME_HEADER_SIZE + len
            in if length buf < total_len then (buf, Inr None)
               else
                 let body = drop FRAME_HEADER_SIZE buf;
                     payload = take len body
                 in (drop len body, map_sum id Some (parse_payload frame_type flags stream_id payload)))"

section \<open>Serialization\<close>

fun frame_parts :: "frame \<Rightarrow> frame_type \<times> u8 \<times> u32 \<times> bytes" where
  "frame_parts (Data stream_id end_stream data) =
     (FtData, if end_stream then END_STREAM else 0, stream_id, data)"
| "frame_parts (Headers stream_id end_stream end_headers header_block) =
     (FtHeaders,
      (let flags = (0 :: u8);
           flags = (if end_stream then flags OR END_STREAM else flags);
           flags = (if end_headers then flags OR END_HEADERS else flags)
       in flags),
      stream_id, header_block)"
| "frame_parts (Settings ack settings) =
     (FtSettings, if ack then ACK else 0, 0,
      concat (map (\<lambda>(i, v). put_u16 i @ put_u32 v) settings))"
| "frame_parts (WindowUpdate stream_id increment) =
     (FtWindowUpdate, 0, stream_id, put_u32 (increment AND 0x7FFFFFFF))"
| "frame_parts (Ping ack data) = (FtPing, if ack then ACK else 0, 0, data)"
| "frame_parts (GoAway last_stream_id error_code debug_data) =
     (FtGoAway, 0, 0,
      put_u32 (last_stream_id AND 0x7FFFFFFF) @ put_u32 error_code @ debug_data)"
| "frame_parts (RstStream stream_id error_code) =
     (FtRstStream, 0, stream_id, put_u32 error_code)"
| "frame_parts (Priority stream_id exclusive dependency weight) =
     (FtPriority, 0, stream_id,
      put_u32 (if exclusive then dependency OR 0x80000000 else dependency) @ [weight])"
| "frame_parts (PushPromise stream_id promised_stream_id header_block) =
     (FtPushPromise, 0, stream_id, put_u32 (promised_stream_id AND 0x7FFFFFFF) @ header_block)"
| "frame_parts (Continuation stream_id end_headers header_block) =
     (FtContinuation, if end_headers then END_HEADERS else 0, stream_id, header_block)"

text \<open>\<open>Frame::serialize\<close> appends the frame to the buffer it is given.\<close>

definition frame_serialize :: "frame \<Rightarrow> bytes \<Rightarrow> bytes" where
  "frame_serialize f buf =
     (case frame_parts f of (frame_type, flags, stream_id, payload) \<Rightarrow>
        let len = length payload in
        buf @ [of_nat (drop_bit 16 len), of_nat (drop_bit 8 len), of_nat len,
               frame_type_code frame_type, flags] @ put_u32 stream_id @ payload)"

fun frame_stream_id :: "frame \<Rightarrow> u32" where
  "frame_stream_id (Data stream_id _ _) = stream_id"
| "frame_stream_id (Headers stream_id _ _ _) = stream_id"
| "frame_stream_id (Priority stream_id _ _ _) = stream_id"
| "frame_stream_id (RstStream stream_id _) = stream_id"
| "frame_stream_id (Settings _ _) = 0"
| "frame_stream_id (PushPromise stream_id _ _) = stream_id"
| "frame_stream_id (Ping _ _) = 0"
| "frame_stream_id (GoAway _ _ _) = 0"
| "frame_stream_id (WindowUpdate stream_id _) = stream_id"
| "frame_stream_id (Continuation stream_id _ _) = stream_id"

text \<open>The frames the wire format can carry: 31-bit identifiers, 24-bit payload lengths.\<close>

fun frame_wf :: "frame \<Rightarrow> bool" where
  "frame_wf (Data s _ d) = (s < 0x80000000 \<and> length d < 2 ^ 24)"
| "frame_wf (Headers s _ _ b) = (s < 0x80000000 \<and> length b < 2 ^ 24)"
| "frame_wf (Priority s _ d _) = (s < 0x80000000 \<and> d < 0x80000000)"
| "frame_wf (RstStream s _) = (s < 0x80000000)"
| "frame_wf (Settings _ ss) = (6 * length ss < 2 ^ 24)"
| "frame_wf (PushPromise s p b) = (s < 0x80000000 \<and> p < 0x80000000 \<and> length b + 4 < 2 ^ 24)"
| "frame_wf (Ping _ d) = (length d = 8)"
| "frame_wf (GoAway l _ d) = (l < 0x80000000 \<and> length d + 8 < 2 ^ 24)"
| "frame_wf (WindowUpdate s i) = (s < 0x80000000 \<and> i < 0x80000000)"
| "frame_wf (Continuation s _ b) = (s < 0x80000000 \<and> length b < 2 ^ 24)"

definition frame_bytes :: "frame \<Rightarrow> bytes" where
  "frame_bytes f = frame_serialize f []"

section \<open>Encoding and decoding of the parts\<close>

lemma bit_unat_of_nat_u8 [wire_simps]: "bit (unat (of_nat k :: u8)) i \<longleftrightarrow> i < 8 \<and> bit k i"
  by (simp add: bit_simps)

lemma length_bytes_of_nat:
  assumes "n < 2 ^ 24"
  shows "push_bit 16 (unat (of_nat (drop_bit 16 n) :: u8)) OR
     push_bit 8 (unat (of_nat (drop_bit 8 n) :: u8)) OR unat (of_nat n :: u8) = n"
proof (rule bit_eqI)
  fix i
  have hi: "bit n i \<Longrightarrow> i < 24"
  proof (rule ccontr)
    assume "bit n i" "\<not> i < 24"
    then have "n < 2 ^ i" using assms by (meson less_le_trans not_less one_le_numeral power_increasing)
    with \<open>bit n i\<close> show False by (simp add: bit_iff_odd)
  qed
  consider "i < 8" | "8 \<le> i \<and> i < 16" | "16 \<le> i \<and> i < 24" | "24 \<le> i" by fastforce
  then show "bit (push_bit 16 (unat (of_nat (drop_bit 16 n) :: u8)) OR
     push_bit 8 (unat (of_nat (drop_bit 8 n) :: u8)) OR unat (of_nat n :: u8)) i = bit n i"
    by cases (use hi in \<open>auto simp: bit_simps wire_simps\<close>)
qed

lemma frame_type_try_from_code [wire_simps]: "frame_type_try_from (frame_type_code t) = Inr t"
  by (cases t) (simp_all add: frame_type_try_from_def)

lemma frame_type_code_le [simp]: "\<not> 9 < frame_type_code t"
  by (cases t) simp_all

lemma frame_type_try_from_Inr: "frame_type_try_from b = Inr t \<longleftrightarrow> b = frame_type_code t"
  by (cases t) (auto simp: frame_type_try_from_def split: if_splits)


lemma frame_type_try_from_Inl: "frame_type_try_from b = Inl e \<longleftrightarrow> 9 < b \<and> e = InvalidFrameType b"
proof -
  have "b = 0 \<or> b = 1 \<or> b = 2 \<or> b = 3 \<or> b = 4 \<or> b = 5 \<or> b = 6 \<or> b = 7 \<or> b = 8 \<or> b = 9" if "\<not> 9 < b"
  proof -
    from that have "unat b \<le> 9" by (simp add: word_less_nat_alt)
    then have "unat b \<in> {0, 1, 2, 3, 4, 5, 6, 7, 8, 9}" by auto
    then have "b \<in> word_of_nat ` {0, 1, 2, 3, 4, 5, 6, 7, 8, 9}"
      by (rule image_eqI [rotated]) simp
    then show ?thesis by simp
  qed
  then show ?thesis by (auto simp: frame_type_try_from_def)
qed

lemma parse_settings_concat [wire_simps]:
  "parse_settings (concat (map (\<lambda>(i, v). put_u16 i @ put_u32 v) ss)) = ss"
  by (induction ss) (auto simp: put_u16_def put_u32_def wire_simps)

lemma length_settings [wire_simps]:
  "length (concat (map (\<lambda>(i, v). put_u16 i @ put_u32 v) ss)) = 6 * length ss"
  by (induction ss) auto

lemma top_bit_u8: "(x :: u8) AND 0x80 = 0 \<longleftrightarrow> \<not> bit x 7"
  using and_exp_eq_0_iff_not_bit [of x 7] by simp

lemma top_bit_small: "(n :: u32) < 0x80000000 \<Longrightarrow> \<not> bit n 31"
proof
  assume "n < 0x80000000" and b: "bit n 31"
  then have "bit (n AND mask 31) 31" using and_low31_id [of n] by (simp add: mask_eq_exp_minus_1)
  then show False by (simp add: bit_simps)
qed

lemma or_top_and_low31:
  assumes "(n :: u32) < 0x80000000"
  shows "(n OR 0x80000000) AND 0x7FFFFFFF = n"
proof -
  have "(n OR 0x80000000) AND 0x7FFFFFFF = (n AND 0x7FFFFFFF) OR (0x80000000 AND 0x7FFFFFFF)"
    by (simp only: bit.conj_disj_distrib2)
  then show ?thesis
    using and_low31_id [OF assms] by simp
qed

lemma parse_priority: "parse_payload FtPriority 0 s (put_u32 m @ [w]) =
    Inr (Priority s (bit m 31) (m AND 0x7FFFFFFF) w)"
  by (simp add: parse_payload_def put_u32_def wire_simps top_bit_u8 bit_simps)

lemma payload_roundtrip:
  assumes "frame_wf f"
  shows "case frame_parts f of (t, flags, s, payload) \<Rightarrow>
    parse_payload t flags s payload = Inr f \<and> s < 0x80000000 \<and> length payload < 2 ^ 24"
proof (cases f)
  case (Priority s e d w)
  have "bit (d OR 0x80000000) 31" by (simp add: bit_simps)
  with assms Priority show ?thesis
    by (simp add: parse_priority top_bit_small or_top_and_low31 and_low31_id)
next
  case (Settings a ss)
  with assms show ?thesis by (simp add: parse_payload_def ACK_def wire_simps)
qed (use assms in \<open>auto simp: parse_payload_def END_STREAM_def END_HEADERS_def ACK_def put_u32_def
    wire_simps and_low31_id Let_def\<close>)

lemma frame_serialize_append: "frame_serialize f buf = buf @ frame_bytes f"
  by (simp add: frame_bytes_def frame_serialize_def split_def Let_def)

section \<open>Whole frames\<close>

lemma frame_parse_short: "length buf < 9 \<Longrightarrow> frame_parse buf = (buf, Inr None)"
  by (simp add: frame_parse_def FRAME_HEADER_SIZE_def)

lemma frame_parse_complete:
  assumes "length payload < 2 ^ 24" and "s < 0x80000000"
  shows "frame_parse ([of_nat (drop_bit 16 (length payload)), of_nat (drop_bit 8 (length payload)),
      of_nat (length payload), frame_type_code t, flags] @ put_u32 s @ payload @ rest) =
    (rest, map_sum id Some (parse_payload t flags s payload))"
  using length_bytes_of_nat [OF assms(1)] and_low31_id [OF assms(2)]
  by (simp add: frame_parse_def FRAME_HEADER_SIZE_def frame_length_def put_u32_def wire_simps)

lemma frame_parse_bytes:
  assumes "frame_wf f"
  shows "frame_parse (frame_bytes f @ rest) = (rest, Inr (Some f))"
proof -
  obtain t fl s p where parts: "frame_parts f = (t, fl, s, p)" by (cases "frame_parts f")
  with payload_roundtrip [OF assms] have
    "parse_payload t fl s p = Inr f" "s < 0x80000000" "length p < 2 ^ 24" by auto
  then show ?thesis
    using frame_parse_complete [of p s t fl rest] parts
    by (simp add: frame_bytes_def frame_serialize_def Let_def)
qed

lemma length_frame_bytes:
  "frame_parts f = (t, fl, s, p) \<Longrightarrow> length (frame_bytes f) = 9 + length p"
  by (simp add: frame_bytes_def frame_serialize_def Let_def)

lemma frame_parse_prefix:
  assumes "frame_wf f" and "n < length (frame_bytes f)"
  shows "frame_parse (take n (frame_bytes f)) = (take n (frame_bytes f), Inr None)"
proof -
  obtain t fl s p where parts: "frame_parts f = (t, fl, s, p)" by (cases "frame_parts f")
  with payload_roundtrip [OF assms(1)] have p: "length p < 2 ^ 24" by auto
  let ?h = "[of_nat (drop_bit 16 (length p)), of_nat (drop_bit 8 (length p)),
      of_nat (length p), frame_type_code t, fl] @ put_u32 s"
  have fb: "frame_bytes f = ?h @ p"
    using parts by (simp add: frame_bytes_def frame_serialize_def Let_def)
  show ?thesis
  proof (cases "n < 9")
    case True
    then show ?thesis by (intro frame_parse_short) simp
  next
    case False
    then obtain k where n: "n = 9 + k" by (metis le_add_diff_inverse not_less)
    with assms(2) fb have k: "k < length p" by simp
    have tk: "take n (frame_bytes f) = ?h @ take k p"
      by (simp add: fb n put_u32_def take_add)
    show ?thesis
      using length_bytes_of_nat [OF p] k unfolding tk
      by (simp add: frame_parse_def FRAME_HEADER_SIZE_def frame_length_def put_u32_def wire_simps
        Let_def)
  qed
qed

interpretation h2: incremental_codec frame_parse frame_bytes frame_wf
  by unfold_locales (auto intro: frame_parse_bytes frame_parse_prefix frame_parse_short)

section \<open>What the parser accepts and rejects\<close>

text \<open>The least payload of each frame type.\<close>

fun min_payload :: "frame_type \<Rightarrow> nat" where
  "min_payload FtPriority = 5"
| "min_payload FtRstStream = 4"
| "min_payload FtPushPromise = 4"
| "min_payload FtPing = 8"
| "min_payload FtGoAway = 8"
| "min_payload FtWindowUpdate = 4"
| "min_payload _ = 0"

lemma parse_payload_Inl:
  "parse_payload t flags s p = Inl e \<longleftrightarrow> e = FrameTooShort \<and> length p < min_payload t"
  by (cases t) (auto simp: parse_payload_def)

lemma length_parse_settings: "6 * length (parse_settings p) \<le> length p"
  by (induction p rule: parse_settings.induct) auto

lemma low31_less: "(n :: u32) AND 0x7FFFFFFF < 0x80000000"
proof -
  have "n AND 0x7FFFFFFF \<le> 0x7FFFFFFF" by (rule word_and_le1)
  then show ?thesis by (rule order.strict_trans1) simp
qed

lemma parse_payload_wf:
  assumes "parse_payload t flags s p = Inr f" and "s < 0x80000000" and "length p < 2 ^ 24"
  shows "frame_wf f"
  using assms length_parse_settings [of p]
  by (cases t) (auto simp: parse_payload_def wire_simps low31_less split: if_splits)

lemma frame_length_less: "frame_length buf < 2 ^ 24"
proof -
  let ?a = "unat (buf ! 0)" and ?b = "unat (buf ! 1)" and ?c = "unat (buf ! 2)"
  have "take_bit 24 (frame_length buf) = frame_length buf"
    by (rule bit_eqI) (auto simp: frame_length_def bit_simps wire_simps dest: bit_imp_le_length)
  then show ?thesis by (metis take_bit_nat_less_exp)
qed

lemma frame_parse_cases:
  obtains (Short) "length buf < 9" "frame_parse buf = (buf, Inr None)"
  | (Unknown) "9 \<le> length buf" "9 < buf ! 3"
      "frame_parse buf = (buf, Inl (InvalidFrameType (buf ! 3)))"
  | (Partial) t where "9 \<le> length buf" "buf ! 3 = frame_type_code t"
      "length buf < 9 + frame_length buf" "frame_parse buf = (buf, Inr None)"
  | (Whole) t s where "9 + frame_length buf \<le> length buf" "buf ! 3 = frame_type_code t"
      "s < 0x80000000"
      "frame_parse buf = (drop (9 + frame_length buf) buf, map_sum id Some
        (parse_payload t (buf ! 4) s (take (frame_length buf) (drop 9 buf))))"
proof (cases "length buf < 9")
  case True
  then show ?thesis by (intro Short frame_parse_short)
next
  case False
  show ?thesis
  proof (cases "frame_type_try_from (buf ! 3)")
    case (Inl e)
    then have "9 < buf ! 3" and "e = InvalidFrameType (buf ! 3)"
      by (simp_all add: frame_type_try_from_Inl)
    with False Inl show ?thesis
      by (intro Unknown) (simp_all add: frame_parse_def FRAME_HEADER_SIZE_def Let_def)
  next
    case (Inr t)
    then have t: "buf ! 3 = frame_type_code t" by (simp add: frame_type_try_from_Inr)
    let ?s = "u32_of_be (buf ! 5 AND 0x7F) (buf ! 6) (buf ! 7) (buf ! 8)"
    have s: "?s < 0x80000000" by (simp add: wire_simps low31_less)
    show ?thesis
    proof (cases "length buf < 9 + frame_length buf")
      case True
      with False Inr t show ?thesis
        by (intro Partial) (simp_all add: frame_parse_def FRAME_HEADER_SIZE_def Let_def)
    next
      case long: False
      with False Inr t s show ?thesis
        by (intro Whole [of t ?s])
          (simp_all add: frame_parse_def FRAME_HEADER_SIZE_def Let_def add.commute)
    qed
  qed
qed

lemma frame_parse_Some:
  assumes "frame_parse buf = (buf', Inr (Some f))"
  shows "frame_wf f \<and> 9 + frame_length buf \<le> length buf \<and> buf' = drop (9 + frame_length buf) buf"
  using frame_parse_cases [of buf]
proof cases
  case (Whole t s)
  with assms have "parse_payload t (buf ! 4) s (take (frame_length buf) (drop 9 buf)) = Inr f"
    by (auto simp: map_sum_def split: sum.splits)
  with Whole assms show ?thesis
    using frame_length_less [of buf] by (auto intro!: parse_payload_wf)
qed (use assms in auto)

lemma frame_parse_error:
  "frame_parse buf = (buf', Inl e) \<longleftrightarrow>
     9 \<le> length buf \<and>
     (9 < buf ! 3 \<and> e = InvalidFrameType (buf ! 3) \<and> buf' = buf
      \<or> (\<exists>t. buf ! 3 = frame_type_code t \<and> frame_length buf < min_payload t
           \<and> 9 + frame_length buf \<le> length buf
           \<and> e = FrameTooShort \<and> buf' = drop (9 + frame_length buf) buf))"
  using frame_parse_cases [of buf]
proof cases
  case (Unknown)
  then have "buf ! 3 \<noteq> frame_type_code t" for t by auto
  with Unknown show ?thesis by auto
next
  case (Whole t s)
  then have le: "\<not> 9 < buf ! 3" by simp
  have inj: "frame_type_code t = frame_type_code t' \<longleftrightarrow> t = t'" for t'
    using frame_type_try_from_code by (metis sum.inject(2))
  let ?p = "parse_payload t (buf ! 4) s (take (frame_length buf) (drop 9 buf))"
  have pl: "length (take (frame_length buf) (drop 9 buf)) = frame_length buf"
    using Whole(1) by simp
  show ?thesis
  proof (cases "frame_length buf < min_payload t")
    case True
    with pl have "?p = Inl FrameTooShort" by (simp add: parse_payload_Inl)
    with Whole le inj True show ?thesis by auto
  next
    case False
    with pl have "\<nexists>e. ?p = Inl e" by (simp add: parse_payload_Inl)
    then obtain f where "?p = Inr f" by (cases ?p) auto
    with Whole le inj False show ?thesis by auto
  qed
qed auto

section \<open>Properties\<close>

text \<open>
  Every frame the wire format can carry (31-bit identifiers, 24-bit payload length) is read
  back by \<open>Frame::parse\<close> exactly as it was given to \<open>Frame::serialize\<close>, whatever was already in
  the output buffer and whatever follows the frame in the input, and exactly its bytes are
  consumed.
\<close>

lemma frame_roundtrip:
  assumes "frame_wf f"
  shows "\<exists>wire. frame_serialize f out = out @ wire \<and> wire \<noteq> []
    \<and> frame_parse (wire @ rest) = (rest, Inr (Some f))"
  using h2.parse_complete [OF assms] h2.ser_nonempty [OF assms]
  by (intro exI [of _ "frame_bytes f"]) (simp add: frame_serialize_append)

theorem frame_roundtrip_witness:
  "\<exists>wire. frame_serialize (Priority 5 True 3 200) [7] = [7] @ wire \<and> wire \<noteq> []
    \<and> frame_parse (wire @ [1, 2]) = ([1, 2], Inr (Some (Priority 5 True 3 200)))"
  by (rule frame_roundtrip) simp

text \<open>
  C16: Frames may arrive in any pieces. If the bytes of a list of well-formed frames are split
  into chunks in any way (inside a header, inside a payload, several frames in one chunk) and
  the receiver parses as far as it can after each chunk, it obtains exactly these frames in
  order, without an error, and an empty buffer.
\<close>

theorem frame_chunked_stream:
  assumes "\<forall>f \<in> set fs. frame_wf f"
    and "concat chunks = concat (map (\<lambda>f. frame_serialize f []) fs)"
  shows "feed_all frame_parse [] chunks = (fs, [], None)"
proof -
  have "(\<lambda>f. frame_serialize f []) = frame_bytes" by (rule ext) (simp add: frame_bytes_def)
  with assms h2.parse_nothing show ?thesis by (intro h2.chunked_stream) simp_all
qed

theorem frame_chunked_stream_witness:
  "feed_all frame_parse [] [[0, 0, 4, 8], [0, 0, 0, 0, 1, 0], [0, 1, 0, 0, 0, 1, 0], [1, 0, 0, 0, 3, 42]]
    = ([WindowUpdate 1 256, Data 3 True [42]], [], None)"
proof (rule frame_chunked_stream)
  show "\<forall>f \<in> set [WindowUpdate 1 256, Data 3 True [42]]. frame_wf f" by simp
qed (simp add: frame_serialize_def put_u32_def END_STREAM_def drop_bit_eq_div)

text \<open>
  C34: What \<open>Frame::parse\<close> accepts. When it returns a frame, the buffer held the nine header
  bytes and the announced payload, exactly these are removed from its front, the frame is one
  the wire format can carry (masked identifiers), and serializing it and parsing it again gives
  the same frame: parsing normalises the input.
\<close>

theorem frame_parse_sound:
  assumes "frame_parse buf = (buf', Inr (Some f))"
  shows "frame_wf f \<and> 9 + frame_length buf \<le> length buf
    \<and> buf' = drop (9 + frame_length buf) buf
    \<and> frame_parse (frame_serialize f [] @ rest) = (rest, Inr (Some f))"
  using frame_parse_Some [OF assms] h2.parse_complete [of f rest]
  by (simp add: frame_bytes_def)

theorem frame_parse_sound_witness:
  "frame_wf (WindowUpdate 1 5) \<and> 9 + frame_length [0, 0, 5, 8, 9, 128, 0, 0, 1, 128, 0, 0, 5, 77, 6] \<le> 15
    \<and> [6] = drop (9 + frame_length [0, 0, 5, 8, 9, 128, 0, 0, 1, 128, 0, 0, 5, 77, 6])
        [0, 0, 5, 8, 9, 128, 0, 0, 1, 128, 0, 0, 5, 77, 6 :: u8]
    \<and> frame_parse (frame_serialize (WindowUpdate 1 5) [] @ [9]) = ([9], Inr (Some (WindowUpdate 1 5)))"
  using frame_parse_sound [of "[0, 0, 5, 8, 9, 128, 0, 0, 1, 128, 0, 0, 5, 77, 6]" "[6]" "WindowUpdate 1 5" "[9]"]
  by (simp add: frame_parse_def frame_length_def FRAME_HEADER_SIZE_def frame_type_try_from_def
      u32_of_be_def parse_payload_def)

text \<open>
  C40: The error branches of \<open>Frame::parse\<close>, completely. It fails exactly when nine bytes are
  there and either the type byte is above 9 (then nothing is consumed, even if the frame is not
  complete), or the frame is complete and its payload is shorter than its type needs (then the
  whole frame is consumed). In every other case it returns a frame or asks for more bytes.
\<close>

theorem frame_parse_errors:
  "frame_parse buf = (buf', Inl e) \<longleftrightarrow>
     9 \<le> length buf \<and>
     (9 < buf ! 3 \<and> e = InvalidFrameType (buf ! 3) \<and> buf' = buf
      \<or> (\<exists>t. buf ! 3 = frame_type_code t \<and> frame_length buf < min_payload t
           \<and> 9 + frame_length buf \<le> length buf
           \<and> e = FrameTooShort \<and> buf' = drop (9 + frame_length buf) buf))"
  by (rule frame_parse_error)

text \<open>
  A frame of an unknown type blocks the connection. Once nine bytes with a type above 9 are
  at the front of the buffer, \<open>Frame::parse\<close> gives the same error and the same buffer on every
  later call, whatever bytes arrive behind it; no later frame is ever returned. (RFC 7540,
  section 4.1, asks for such frames to be ignored.)
\<close>

lemma unknown_type_blocks:
  assumes "9 \<le> length buf" and "9 < buf ! 3"
  shows "drain frame_parse (Suc fuel) (buf @ more) = ([], buf @ more, Some (InvalidFrameType (buf ! 3)))"
proof -
  have "(buf @ more) ! 3 = buf ! 3" using assms(1) by (simp add: nth_append)
  with assms have "frame_parse (buf @ more) = (buf @ more, Inl (InvalidFrameType (buf ! 3)))"
    by (simp add: frame_parse_error)
  then show ?thesis by simp
qed

theorem unknown_type_blocks_witness:
  "drain frame_parse (Suc 5) ([0, 0, 0, 16, 0, 0, 0, 0, 0] @ [0, 0, 0, 4, 0, 0, 0, 0, 0])
    = ([], [0, 0, 0, 16, 0, 0, 0, 0, 0] @ [0, 0, 0, 4, 0, 0, 0, 0, 0], Some (InvalidFrameType 16))"
  using unknown_type_blocks [of "[0, 0, 0, 16, 0, 0, 0, 0, 0]" 5 "[0, 0, 0, 4, 0, 0, 0, 0, 0]"]
  by simp

end
