(* ===== verification/Utf8.thy ===== *)
theory Utf8
  imports Ners_Prelude
begin

text \<open>
  The part of Rust's UTF-8 support that the code relies on: validation as in
  \<open>str::from_utf8\<close>, the replacement of ill-formed sequences as in \<open>String::from_utf8_lossy\<close>
  (one U+FFFD for each maximal ill-formed prefix), and the division of a string into its
  characters.
\<close>

definition utf8_width :: "u8 \<Rightarrow> nat" where
  "utf8_width b =
     (if b < 0x80 then 1
      else if 0xC2 \<le> b \<and> b \<le> 0xDF then 2
      else if 0xE0 \<le> b \<and> b \<le> 0xEF then 3
      else if 0xF0 \<le> b \<and> b \<le> 0xF4 then 4
      else 0)"

definition is_cont :: "u8 \<Rightarrow> bool" where
  "is_cont b \<longleftrightarrow> b AND 0xC0 = 0x80"

definition second_ok3 :: "u8 \<Rightarrow> u8 \<Rightarrow> bool" where
  "second_ok3 b c \<longleftrightarrow>
     b = 0xE0 \<and> 0xA0 \<le> c \<and> c \<le> 0xBF
     \<or> 0xE1 \<le> b \<and> b \<le> 0xEC \<and> 0x80 \<le> c \<and> c \<le> 0xBF
     \<or> b = 0xED \<and> 0x80 \<le> c \<and> c \<le> 0x9F
     \<or> 0xEE \<le> b \<and> b \<le> 0xEF \<and> 0x80 \<le> c \<and> c \<le> 0xBF"

definition second_ok4 :: "u8 \<Rightarrow> u8 \<Rightarrow> bool" where
  "second_ok4 b c \<longleftrightarrow>
     b = 0xF0 \<and> 0x90 \<le> c \<and> c \<le> 0xBF
     \<or> 0xF1 \<le> b \<and> b \<le> 0xF3 \<and> 0x80 \<le> c \<and> c \<le> 0xBF
     \<or> b = 0xF4 \<and> 0x80 \<le> c \<and> c \<le> 0x8F"

definition byte_at :: "bytes \<Rightarrow> nat \<Rightarrow> u8" where
  "byte_at bs i = (if i < length bs then bs ! i else 0)"

text \<open>
  What starts a non-empty list of bytes: a well-formed character and its width, or the length of
  the maximal ill-formed prefix.
\<close>

definition utf8_chunk :: "bytes \<Rightarrow> bool \<times> nat" where
  "utf8_chunk bs =
     (let b = byte_at bs 0; w = utf8_width b in
      if w = 1 then (True, 1)
      else if w = 2 then
        if is_cont (byte_at bs 1) then (True, 2) else (False, 1)
      else if w = 3 then
        if second_ok3 b (byte_at bs 1) then
          if is_cont (byte_at bs 2) then (True, 3) else (False, 2)
        else (False, 1)
      else if w = 4 then
        if second_ok4 b (byte_at bs 1) then
          if is_cont (byte_at bs 2) then
            if is_cont (byte_at bs 3) then (True, 4) else (False, 3)
          else (False, 2)
        else (False, 1)
      else (False, 1))"

lemma utf8_chunk_pos: "0 < snd (utf8_chunk bs)"
  by (simp add: utf8_chunk_def Let_def)

lemma utf8_drop_less: "bs \<noteq> [] \<Longrightarrow> length bs - snd (utf8_chunk bs) < length bs"
  by (simp add: utf8_chunk_pos)

function valid_utf8 :: "bytes \<Rightarrow> bool" where
  "valid_utf8 bs =
     (if bs = [] then True
      else if fst (utf8_chunk bs) then valid_utf8 (drop (snd (utf8_chunk bs)) bs)
      else False)"
  by pat_completeness auto
termination
  by (relation "measure length") (auto simp: utf8_drop_less)

function utf8_lossy :: "bytes \<Rightarrow> str" where
  "utf8_lossy bs =
     (if bs = [] then []
      else (if fst (utf8_chunk bs) then take (snd (utf8_chunk bs)) bs else [0xEF, 0xBF, 0xBD])
        @ utf8_lossy (drop (snd (utf8_chunk bs)) bs))"
  by pat_completeness auto
termination
  by (relation "measure length") (auto simp: utf8_drop_less)

function utf8_chars :: "str \<Rightarrow> bytes list" where
  "utf8_chars bs =
     (if bs = [] then []
      else take (snd (utf8_chunk bs)) bs # utf8_chars (drop (snd (utf8_chunk bs)) bs))"
  by pat_completeness auto
termination
  by (relation "measure length") (auto simp: utf8_drop_less)

declare valid_utf8.simps [simp del] utf8_lossy.simps [simp del] utf8_chars.simps [simp del]

lemma valid_utf8_Nil [simp]: "valid_utf8 []"
  by (subst valid_utf8.simps) simp

lemma utf8_lossy_Nil [simp]: "utf8_lossy [] = []"
  by (subst utf8_lossy.simps) simp

lemma utf8_chars_Nil [simp]: "utf8_chars [] = []"
  by (subst utf8_chars.simps) simp

lemma not_cont_0 [simp]: "\<not> is_cont 0"
  by (simp add: is_cont_def)

lemma second_ok_0 [simp]: "\<not> second_ok3 b 0" "\<not> second_ok4 b 0"
  by (simp_all add: second_ok3_def second_ok4_def)

text \<open>
  An accepted character lies within the string, and whether it is accepted depends on its own
  bytes only.
\<close>

lemma utf8_chunk_True:
  "utf8_chunk bs = (True, n) \<longleftrightarrow>
     (let b = byte_at bs 0; w = utf8_width b in n = w \<and>
        (w = 1 \<or> w = 2 \<and> is_cont (byte_at bs 1)
         \<or> w = 3 \<and> second_ok3 b (byte_at bs 1) \<and> is_cont (byte_at bs 2)
         \<or> w = 4 \<and> second_ok4 b (byte_at bs 1) \<and> is_cont (byte_at bs 2) \<and> is_cont (byte_at bs 3)))"
  by (auto simp: utf8_chunk_def Let_def)

lemma utf8_chunk_within:
  assumes "bs \<noteq> []" and "utf8_chunk bs = (True, n)"
  shows "n \<le> length bs"
proof -
  have cont: "Suc i \<le> length bs" if "is_cont (byte_at bs i)" for i
    using that by (cases "i < length bs") (simp_all add: byte_at_def)
  have "1 \<le> length bs" using assms(1) by (simp add: Suc_le_eq)
  with assms(2) cont [of 1] cont [of 2] cont [of 3] show ?thesis
    by (auto simp: utf8_chunk_True Let_def)
qed

lemma utf8_chunk_local:
  assumes "utf8_chunk bs = (True, n)" and "\<And>i. i < n \<Longrightarrow> byte_at cs i = byte_at bs i"
  shows "utf8_chunk cs = (True, n)"
  using assms(1) assms(2) [of 0] assms(2) [of 1] assms(2) [of 2] assms(2) [of 3]
  by (auto simp: utf8_chunk_True Let_def)

lemma utf8_chunk_take:
  assumes "bs \<noteq> []" and "utf8_chunk bs = (True, n)"
  shows "utf8_chunk (take n bs @ cs) = (True, n)"
  by (rule utf8_chunk_local [OF assms(2)])
    (use utf8_chunk_within [OF assms] in \<open>auto simp: byte_at_def nth_append\<close>)

lemma utf8_chunk_append:
  assumes "bs \<noteq> []" and "utf8_chunk bs = (True, n)"
  shows "utf8_chunk (bs @ cs) = (True, n)"
  by (rule utf8_chunk_local [OF assms(2)])
    (use utf8_chunk_within [OF assms] in \<open>auto simp: byte_at_def nth_append\<close>)

lemma valid_utf8_step:
  "bs \<noteq> [] \<Longrightarrow> valid_utf8 bs \<longleftrightarrow> fst (utf8_chunk bs) \<and> valid_utf8 (drop (snd (utf8_chunk bs)) bs)"
  by (subst valid_utf8.simps) simp

lemma valid_utf8_append: "valid_utf8 bs \<Longrightarrow> valid_utf8 cs \<Longrightarrow> valid_utf8 (bs @ cs)"
proof (induction bs rule: valid_utf8.induct)
  case (1 bs)
  show ?case
  proof (cases "bs = []")
    case False
    with "1.prems"(1) obtain n where n: "utf8_chunk bs = (True, n)" and v: "valid_utf8 (drop n bs)"
      by (cases "utf8_chunk bs") (auto simp: valid_utf8_step)
    with "1.IH" False "1.prems"(2) have "valid_utf8 (drop n bs @ cs)" by simp
    with False utf8_chunk_append [OF False n, of cs] utf8_chunk_within [OF False n] show ?thesis
      by (simp add: valid_utf8_step)
  qed (use "1.prems" in simp)
qed

lemma utf8_lossy_id: "valid_utf8 bs \<Longrightarrow> utf8_lossy bs = bs"
proof (induction bs rule: utf8_lossy.induct)
  case (1 bs)
  then show ?case
    by (cases "bs = []") (simp_all add: utf8_lossy.simps [of bs] valid_utf8_step)
qed

lemma valid_utf8_lossy: "valid_utf8 (utf8_lossy bs)"
proof (induction bs rule: utf8_lossy.induct)
  case (1 bs)
  show ?case
  proof (cases "bs = []")
    case False
    have "valid_utf8 (if fst (utf8_chunk bs) then take (snd (utf8_chunk bs)) bs else [0xEF, 0xBF, 0xBD])"
    proof (cases "fst (utf8_chunk bs)")
      case True
      then obtain n where n: "utf8_chunk bs = (True, n)" by (cases "utf8_chunk bs") auto
      then have "0 < n" using utf8_chunk_pos [of bs] by simp
      with False n utf8_chunk_take [OF False n, of "[]"] show ?thesis
        by (simp add: valid_utf8_step)
    next
      case False
      have "utf8_chunk [0xEF, 0xBF, 0xBD] = (True, 3)"
        by (simp add: utf8_chunk_def byte_at_def utf8_width_def second_ok3_def is_cont_def)
      then show ?thesis using False by (simp add: valid_utf8_step)
    qed
    with "1.IH" [OF False] False show ?thesis
      by (subst utf8_lossy.simps) (simp add: valid_utf8_append)
  qed simp
qed

definition is_ascii :: "bytes \<Rightarrow> bool" where
  "is_ascii bs \<longleftrightarrow> (\<forall>b \<in> set bs. b < 0x80)"

lemma is_ascii_simps [simp]:
  "is_ascii []"
  "is_ascii (b # bs) \<longleftrightarrow> b < 0x80 \<and> is_ascii bs"
  "is_ascii (bs @ cs) \<longleftrightarrow> is_ascii bs \<and> is_ascii cs"
  by (auto simp: is_ascii_def)

lemma utf8_chunk_ascii: "b < 0x80 \<Longrightarrow> utf8_chunk (b # bs) = (True, 1)"
  by (simp add: utf8_chunk_def byte_at_def utf8_width_def)

lemma valid_utf8_ascii_Cons: "b < 0x80 \<Longrightarrow> valid_utf8 (b # bs) = valid_utf8 bs"
  by (simp add: valid_utf8_step utf8_chunk_ascii)

lemma utf8_chars_ascii_Cons: "b < 0x80 \<Longrightarrow> utf8_chars (b # bs) = [b] # utf8_chars bs"
  by (simp add: utf8_chars.simps [of "b # bs"] utf8_chunk_ascii)

lemma ascii_valid_utf8: "is_ascii bs \<Longrightarrow> valid_utf8 bs"
  by (induction bs) (simp_all add: valid_utf8_ascii_Cons)

lemma utf8_chars_ascii: "is_ascii bs \<Longrightarrow> utf8_chars bs = map (\<lambda>b. [b]) bs"
  by (induction bs) (simp_all add: utf8_chars_ascii_Cons)

lemma concat_utf8_chars: "concat (utf8_chars bs) = bs"
proof (induction bs rule: utf8_chars.induct)
  case (1 bs)
  then show ?case by (cases "bs = []") (simp_all add: utf8_chars.simps [of bs])
qed

end
