(* ===== verification/Hpack.thy ===== *)
theory Hpack
  imports Utf8 Codec
begin

text \<open>
  HPACK header compression: \<open>ners-proto-http/src/h2/hpack.rs\<close>. The static table, the dynamic
  table with its eviction, \<open>HpackDecoder\<close> and \<open>HpackEncoder\<close>. The two structs have the same
  fields and the same \<open>add_entry\<close>, so both are the record \<open>hpack_table\<close>. \<open>String\<close> values are
  UTF-8 bytes; an error of type \<open>String\<close> is its text. Wire integers wrap as in a release build.
\<close>

section \<open>Tables\<close>

definition STATIC_TABLE :: "(str \<times> str) list" where
  "STATIC_TABLE = map (\<lambda>(n, v). (lit n, lit v))
    [('':authority'', ''''),
     ('':method'', ''GET''),
     ('':method'', ''POST''),
     ('':path'', ''/''),
     ('':path'', ''/index.html''),
     ('':scheme'', ''http''),
     ('':scheme'', ''https''),
     ('':status'', ''200''),
     ('':status'', ''204''),
     ('':status'', ''206''),
     ('':status'', ''304''),
     ('':status'', ''400''),
     ('':status'', ''404''),
     ('':status'', ''500''),
     (''accept-charset'', ''''),
     (''accept-encoding'', ''gzip, deflate''),
     (''accept-language'', ''''),
     (''accept-ranges'', ''''),
     (''accept'', ''''),
     (''access-control-allow-origin'', ''''),
     (''age'', ''''),
     (''allow'', ''''),
     (''authorization'', ''''),
     (''cache-control'', ''''),
     (''content-disposition'', ''''),
     (''content-encoding'', ''''),
     (''content-language'', ''''),
     (''content-length'', ''''),
     (''content-location'', ''''),
     (''content-range'', ''''),
     (''content-type'', ''''),
     (''cookie'', ''''),
     (''date'', ''''),
     (''etag'', ''''),
     (''expect'', ''''),
     (''expires'', ''''),
     (''from'', ''''),
     (''host'', ''''),
     (''if-match'', ''''),
     (''if-modified-since'', ''''),
     (''if-none-match'', ''''),
     (''if-range'', ''''),
     (''if-unmodified-since'', ''''),
     (''last-modified'', ''''),
     (''link'', ''''),
     (''location'', ''''),
     (''max-forwards'', ''''),
     (''proxy-authenticate'', ''''),
     (''proxy-authorization'', ''''),
     (''range'', ''''),
     (''referer'', ''''),
     (''refresh'', ''''),
     (''retry-after'', ''''),
     (''server'', ''''),
     (''set-cookie'', ''''),
     (''strict-transport-security'', ''''),
     (''transfer-encoding'', ''''),
     (''user-agent'', ''''),
     (''vary'', ''''),
     (''via'', ''''),
     (''www-authenticate'', '''')]"

record dynamic_entry =
  de_name :: str
  de_value :: str
  de_size :: usize

definition dynamic_entry_new :: "str \<Rightarrow> str \<Rightarrow> dynamic_entry" where
  "dynamic_entry_new name value =
     \<lparr>de_name = name, de_value = value, de_size = 32 + length name + length value\<rparr>"

text \<open>The front of the \<open>VecDeque\<close> is the head of the list; \<open>pop_back\<close> removes the last entry.\<close>

record hpack_table =
  dynamic_table :: "dynamic_entry list"
  max_size :: usize
  current_size :: usize

type_synonym hpack_decoder = hpack_table
type_synonym hpack_encoder = hpack_table

definition hpack_new :: "usize \<Rightarrow> hpack_table" where
  "hpack_new limit = \<lparr>dynamic_table = [], max_size = limit, current_size = 0\<rparr>"

text \<open>
  The eviction loop of \<open>add_entry\<close> (with the size of the new entry) and of \<open>resize\<close> (with 0).
\<close>

function evict :: "usize \<Rightarrow> hpack_table \<Rightarrow> hpack_table" where
  "evict need t =
     (if max_size t < current_size t + need \<and> dynamic_table t \<noteq> []
      then evict need
        (t\<lparr>dynamic_table := butlast (dynamic_table t),
           current_size := usize_sub (current_size t) (de_size (last (dynamic_table t)))\<rparr>)
      else t)"
  by pat_completeness auto
termination
  by (relation "measure (\<lambda>(need, t). length (dynamic_table t))") auto

declare evict.simps [simp del]

definition add_entry :: "str \<Rightarrow> str \<Rightarrow> hpack_table \<Rightarrow> hpack_table" where
  "add_entry name value t =
     (let entry = dynamic_entry_new name value;
          entry_size = de_size entry;
          t = evict entry_size t
      in if entry_size \<le> max_size t
         then t\<lparr>current_size := current_size t + entry_size,
                dynamic_table := entry # dynamic_table t\<rparr>
         else t)"

definition resize :: "usize \<Rightarrow> hpack_decoder \<Rightarrow> hpack_decoder" where
  "resize new_size t = evict 0 (t\<lparr>max_size := new_size\<rparr>)"

definition get_indexed :: "hpack_decoder \<Rightarrow> usize \<Rightarrow> (str, str \<times> str) result" where
  "get_indexed t index =
     (if index = 0 then Inl (Error (lit ''Invalid index 0''))
      else if index \<le> length STATIC_TABLE then Inr (STATIC_TABLE ! (index - 1))
      else
        let dyn_index = index - length STATIC_TABLE - 1 in
        if length (dynamic_table t) \<le> dyn_index
        then Inl (Error (lit ''Invalid dynamic index '' @ show_nat dyn_index))
        else let entry = dynamic_table t ! dyn_index in Inr (de_name entry, de_value entry))"

section \<open>Decoder\<close>

text \<open>The loop over the continuation bytes: \<open>value\<close>, the shift \<open>m\<close> and the position.\<close>

fun decode_integer_loop :: "bytes \<Rightarrow> usize \<Rightarrow> usize \<Rightarrow> usize \<Rightarrow> (str, usize \<times> usize) result" where
  "decode_integer_loop [] value m pos = Inl (Error (lit ''Truncated integer''))"
| "decode_integer_loop (b # data) value m pos =
     (let value = usize_add value (usize_shl (unat b AND 0x7F) m) in
      if b AND 0x80 = 0 then Inr (value, pos + 1)
      else decode_integer_loop data value (m + 7) (pos + 1))"

definition decode_integer :: "bytes \<Rightarrow> nat \<Rightarrow> (str, usize \<times> usize) result" where
  "decode_integer data prefix =
     (case data of
        [] \<Rightarrow> Inl (Error (lit ''Empty data for integer''))
      | b # rest \<Rightarrow>
          let mask = push_bit prefix 1 - 1 :: u8;
              value = unat (b AND mask)
          in if value < unat mask then Inr (value, 1)
             else decode_integer_loop rest value 0 1)"

text \<open>The Huffman flag is read but both branches take the raw bytes.\<close>

definition decode_string :: "bytes \<Rightarrow> (str, str \<times> usize) result" where
  "decode_string data =
     (if data = [] then Inl (Error (lit ''Empty string data''))
      else
        let huffman = (data ! 0 AND 0x80 \<noteq> 0) in
        case decode_integer data 7 of
          Inl e \<Rightarrow> Inl e
        | Inr (len, pos) \<Rightarrow>
            if length data < usize_add pos len then Inl (Error (lit ''String too long''))
            else
              case slice data pos (usize_add pos len) of
                Inl e \<Rightarrow> Inl e
              | Inr bytes \<Rightarrow>
                  let pos = usize_add pos len;
                      s = (if huffman then utf8_lossy bytes else utf8_lossy bytes)
                  in Inr (s, pos))"

definition decode_literal ::
    "hpack_decoder \<Rightarrow> bytes \<Rightarrow> nat \<Rightarrow> bool \<Rightarrow> (str, str \<times> str \<times> usize \<times> hpack_decoder) result" where
  "decode_literal t data prefix index =
     (case decode_integer data prefix of
        Inl e \<Rightarrow> Inl e
      | Inr (name_index, pos) \<Rightarrow>
          (case (if name_index = 0
                 then case decode_string (drop pos data) of
                        Inl e \<Rightarrow> Inl e
                      | Inr (n, consumed) \<Rightarrow> Inr (n, pos + consumed)
                 else case get_indexed t name_index of
                        Inl e \<Rightarrow> Inl e
                      | Inr (n, _) \<Rightarrow> Inr (n, pos)) of
             Inl e \<Rightarrow> Inl e
           | Inr (name, pos) \<Rightarrow>
               (case decode_string (drop pos data) of
                  Inl e \<Rightarrow> Inl e
                | Inr (value, consumed) \<Rightarrow>
                    Inr (name, value, pos + consumed,
                         if index then add_entry name value t else t))))"

text \<open>Every branch of the decode loop consumes at least one byte.\<close>

lemma decode_integer_loop_pos:
  "decode_integer_loop data v m pos = Inr (v', pos') \<Longrightarrow> pos < pos' \<and> pos' \<le> pos + length data"
  by (induction data v m pos rule: decode_integer_loop.induct)
    (auto simp: Let_def split: if_splits)

lemma decode_integer_pos:
  "decode_integer data prefix = Inr (v, pos) \<Longrightarrow> 0 < pos \<and> pos \<le> length data"
  by (auto simp: decode_integer_def Let_def Suc_le_eq split: list.splits if_splits
      dest: decode_integer_loop_pos)

lemma decode_string_pos:
  assumes "decode_string data = Inr (s, pos)"
  shows "0 < pos \<and> pos \<le> length data"
proof -
  from assms obtain len p where "decode_integer data 7 = Inr (len, p)"
    and "p \<le> pos" and "pos \<le> length data"
    by (auto simp: decode_string_def Let_def slice_Inr split: if_splits sum.splits)
  then show ?thesis using decode_integer_pos by fastforce
qed

lemma decode_literal_pos:
  assumes "decode_literal t data prefix index = Inr (n, v, pos, t')"
  shows "0 < pos \<and> pos \<le> length data"
  using assms
  by (auto simp: decode_literal_def split: sum.splits if_splits
      dest!: decode_integer_pos decode_string_pos; linarith)

text \<open>
  One turn of the loop of \<open>HpackDecoder::decode\<close> on the bytes from \<open>pos\<close>: the table, the
  headers it pushes (one, or none for a size update) and the bytes it consumes.
\<close>

definition hpack_decode_step ::
    "hpack_decoder \<Rightarrow> bytes \<Rightarrow> (str, hpack_decoder \<times> (str \<times> str) list \<times> usize) result" where
  "hpack_decode_step t data =
     (let first = data ! 0 in
      if first AND 0x80 \<noteq> 0 then
        case decode_integer data 7 of
          Inl e \<Rightarrow> Inl e
        | Inr (index, consumed) \<Rightarrow>
            (case get_indexed t index of
               Inl e \<Rightarrow> Inl e
             | Inr (name, value) \<Rightarrow> Inr (t, [(name, value)], consumed))
      else if first AND 0x40 \<noteq> 0 then
        case decode_literal t data 6 True of
          Inl e \<Rightarrow> Inl e
        | Inr (name, value, consumed, t') \<Rightarrow> Inr (t', [(name, value)], consumed)
      else if first AND 0x20 \<noteq> 0 then
        case decode_integer data 5 of
          Inl e \<Rightarrow> Inl e
        | Inr (new_size, consumed) \<Rightarrow> Inr (resize new_size t, [], consumed)
      else
        let prefix = (if first AND 0x10 \<noteq> 0 then 4 else 4) in
        case decode_literal t data prefix False of
          Inl e \<Rightarrow> Inl e
        | Inr (name, value, consumed, t') \<Rightarrow> Inr (t', [(name, value)], consumed))"

lemma hpack_decode_step_pos:
  "hpack_decode_step t data = Inr (t', hs, consumed) \<Longrightarrow> 0 < consumed \<and> consumed \<le> length data"
  by (auto simp: hpack_decode_step_def Let_def split: if_splits sum.splits
      dest: decode_integer_pos decode_literal_pos)

text \<open>
  The loop, with the headers found so far. The table is returned in every case: what the block
  did to it before an error stays.
\<close>

function hpack_decode_from ::
    "hpack_decoder \<Rightarrow> bytes \<Rightarrow> (str \<times> str) list
     \<Rightarrow> hpack_decoder \<times> (str, (str \<times> str) list) result" where
  "hpack_decode_from t data headers =
     (if data = [] then (t, Inr headers)
      else
        case hpack_decode_step t data of
          Inl e \<Rightarrow> (t, Inl e)
        | Inr (t', hs, consumed) \<Rightarrow> hpack_decode_from t' (drop consumed data) (headers @ hs))"
  by pat_completeness auto
termination
  by (relation "measure (\<lambda>(t, data, headers). length data)")
    (auto dest!: hpack_decode_step_pos)

declare hpack_decode_from.simps [simp del]

definition hpack_decode ::
    "hpack_decoder \<Rightarrow> bytes \<Rightarrow> hpack_decoder \<times> (str, (str \<times> str) list) result" where
  "hpack_decode t data = hpack_decode_from t data []"

section \<open>Encoder\<close>

text \<open>The search through the static table stops at the first entry with the name.\<close>

fun find_static_from :: "usize \<Rightarrow> (str \<times> str) list \<Rightarrow> str \<Rightarrow> str \<Rightarrow> (usize \<times> bool) option" where
  "find_static_from i [] name value = None"
| "find_static_from i ((n, v) # tab) name value =
     (if n = name then
        if v = value then Some (i + 1, True) else Some (i + 1, False)
      else find_static_from (i + 1) tab name value)"

definition find_static :: "str \<Rightarrow> str \<Rightarrow> (usize \<times> bool) option" where
  "find_static name value = find_static_from 0 STATIC_TABLE name value"

function encode_rest :: "usize \<Rightarrow> bytes" where
  "encode_rest remaining =
     (if 128 \<le> remaining
      then of_nat (remaining AND 0x7F OR 0x80) # encode_rest (drop_bit 7 remaining)
      else [of_nat remaining])"
  by pat_completeness auto
termination
  by (relation "measure id") (auto simp: drop_bit_eq_div)

declare encode_rest.simps [simp del]

definition encode_integer :: "usize \<Rightarrow> nat \<Rightarrow> u8 \<Rightarrow> bytes" where
  "encode_integer value prefix first_byte =
     (let max_prefix = push_bit prefix 1 - 1 in
      if value < max_prefix then [first_byte OR of_nat value]
      else (first_byte OR of_nat max_prefix) # encode_rest (value - max_prefix))"

definition encode_string :: "str \<Rightarrow> bytes" where
  "encode_string s = encode_integer (length s) 7 0 @ s"

text \<open>The encoder is written out apart from the decoder: its own \<open>new\<close> and its own \<open>add_entry\<close>.\<close>

definition encoder_new :: "usize \<Rightarrow> hpack_encoder" where
  "encoder_new limit = \<lparr>dynamic_table = [], max_size = limit, current_size = 0\<rparr>"

definition encoder_add_entry :: "str \<Rightarrow> str \<Rightarrow> hpack_encoder \<Rightarrow> hpack_encoder" where
  "encoder_add_entry name value t =
     (let entry = dynamic_entry_new name value;
          entry_size = de_size entry;
          t = evict entry_size t
      in if entry_size \<le> max_size t
         then t\<lparr>current_size := current_size t + entry_size,
                dynamic_table := entry # dynamic_table t\<rparr>
         else t)"

text \<open>The two sides keep their tables in the same way, which is what makes them agree.\<close>

lemma encoder_same [simp]: "encoder_add_entry = add_entry" "encoder_new = hpack_new"
  by (simp_all add: fun_eq_iff encoder_add_entry_def add_entry_def encoder_new_def hpack_new_def)

fun hpack_encode :: "hpack_encoder \<Rightarrow> (str \<times> str) list \<Rightarrow> hpack_encoder \<times> bytes" where
  "hpack_encode t [] = (t, [])"
| "hpack_encode t ((name, value) # headers) =
     (let (t, buf) =
        (case find_static name value of
           Some (index, has_value) \<Rightarrow>
             if has_value then (t, encode_integer index 7 0x80)
             else (encoder_add_entry name value t, encode_integer index 6 0x40 @ encode_string value)
         | None \<Rightarrow>
             (encoder_add_entry name value t, [0x40] @ encode_string name @ encode_string value));
          (t, rest) = hpack_encode t headers
      in (t, buf @ rest))"

section \<open>Integers and strings\<close>


lemma and_7F_nat: "(n :: nat) AND 0x7F = n mod 128"
  using take_bit_eq_mask [of 7 n] by (simp add: mask_eq_exp_minus_1 take_bit_eq_mod)

lemma and_80_u8: "(b :: u8) AND 0x80 = 0 \<longleftrightarrow> unat b < 128"
proof -
  have "b AND 0x80 = 0 \<longleftrightarrow> \<not> bit (unat b) 7" using and_exp_eq_0_iff_not_bit [of b 7] by (simp add: bit_unsigned_iff)
  also have "\<dots> \<longleftrightarrow> even (unat b div 128)"
    by (simp add: bit_iff_odd)
  also have "\<dots> \<longleftrightarrow> unat b < 128"
    using less_2_cases [of "unat b div 128"] unat_u8_less [of b]
    by (auto simp: less_mult_imp_div_less div_eq_0_iff)
  finally show ?thesis .
qed

lemma cont_byte: "unat (of_nat (n AND 0x7F OR 0x80) :: u8) = n mod 128 + 128"
proof -
  have "n AND 0x7F OR 0x80 = (n AND 0x7F) + 0x80"
  proof (rule disjunctive_add [symmetric])
    fix i show "\<not> bit (n AND 0x7F) i \<or> \<not> bit (0x80 :: nat) i"
    proof (cases "i = 7")
      case True
      have "(0x7F :: nat) = mask 7" by (simp add: mask_eq_exp_minus_1)
      then show ?thesis using True by (simp add: bit_simps)
    next
      case False
      have "(0x80 :: nat) = 2 ^ 7" by simp
      then show ?thesis using False by (simp only: bit_exp_iff) simp
    qed
  qed
  then have "(of_nat (n AND 0x7F OR 0x80) :: u8) = of_nat (n mod 128 + 128)"
    by (simp only: and_7F_nat)
  then show ?thesis by (simp only: unat_of_nat) simp
qed

lemmas cont_byte_mod = cont_byte [unfolded and_7F_nat]

lemma decode_integer_loop_encode_rest:
  assumes "v0 + remaining * 2 ^ m < 2 ^ 64" and "m < 64"
  shows "decode_integer_loop (encode_rest remaining @ rest) v0 m pos =
    Inr (v0 + remaining * 2 ^ m, pos + length (encode_rest remaining))"
  using assms
proof (induction remaining arbitrary: v0 m pos rule: encode_rest.induct)
  case (1 r)
  show ?case
  proof (cases "128 \<le> r")
    case True
    let ?v = "v0 + r mod 128 * 2 ^ m"
    have split: "?v + r div 128 * 2 ^ (m + 7) = v0 + r * 2 ^ m"
    proof -
      obtain q k where r: "r div 128 = q" "r mod 128 = k" "r = q * 128 + k"
        by (metis div_mult_mod_eq)
      show ?thesis
        unfolding r(1,2) by (subst r(3)) (simp add: power_add algebra_simps)
    qed
    have "2 ^ (m + 7) \<le> r * 2 ^ m" using True by (simp add: power_add)
    with "1.prems" have "(2 :: nat) ^ (m + 7) < 2 ^ 64" by linarith
    then have m: "m + 7 < 64" by (rule power_less_imp_less_exp [rotated]) simp
    have "usize_shl (r mod 128) m = r mod 128 * 2 ^ m"
      using "1.prems" split by (intro usize_shl_exact) simp_all
    moreover have "usize_add v0 (r mod 128 * 2 ^ m) = ?v"
      using "1.prems" split by (intro usize_add_exact) linarith
    ultimately show ?thesis
      using "1.IH" [OF True, of ?v "m + 7" "pos + 1"] "1.prems" True m split
      by (simp add: Let_def encode_rest.simps [of r] cont_byte_mod and_80_u8 and_7F_nat drop_bit_eq_div)
  next
    case False
    then have "unat (of_nat r :: u8) = r" by (simp add: unat_of_nat)
    moreover have "usize_shl r m = r * 2 ^ m" "usize_add v0 (r * 2 ^ m) = v0 + r * 2 ^ m"
      using "1.prems" by (auto intro: usize_shl_exact usize_add_exact)
    ultimately show ?thesis
      using False by (simp add: encode_rest.simps [of r] and_80_u8 and_7F_nat)
  qed
qed

lemma first_byte_masked:
  assumes "prefix \<le> 7" and "first_byte AND mask prefix = (0 :: u8)" and "v < 2 ^ prefix"
  shows "unat ((first_byte OR of_nat v) AND mask prefix) = v"
proof -
  have "(2 :: nat) ^ prefix \<le> 2 ^ 7" using assms(1) by (rule power_increasing) simp
  then have v: "v < 256" using assms(3) by simp
  have "(first_byte OR of_nat v) AND mask prefix = of_nat v AND mask prefix"
    by (simp add: bit.conj_disj_distrib2 assms(2))
  also have "\<dots> = of_nat (take_bit prefix v)"
    by (simp add: take_bit_of_nat flip: take_bit_eq_mask)
  finally show ?thesis
    using assms(3) v by (simp add: unat_of_nat take_bit_eq_mod)
qed

lemma decode_encode_integer:
  assumes "1 \<le> prefix" and "prefix \<le> 7" and "first_byte AND mask prefix = 0" and "v < 2 ^ 64"
  shows "decode_integer (encode_integer v prefix first_byte @ rest) prefix =
    Inr (v, length (encode_integer v prefix first_byte))"
proof -
  have p7: "(2 :: nat) ^ prefix \<le> 2 ^ 7" using assms(2) by (rule power_increasing) simp
  have m8: "push_bit prefix 1 - 1 = (mask prefix :: u8)"
    and mn: "push_bit prefix 1 - 1 = (2 ^ prefix - 1 :: nat)"
    by (simp_all add: mask_eq_exp_minus_1 push_bit_eq_mult)
  have um: "unat (mask prefix :: u8) = 2 ^ prefix - 1"
    using first_byte_masked [of prefix 0 "2 ^ prefix - 1"] assms(2) p7
    by (simp add: mask_eq_exp_minus_1 of_nat_diff) 
  show ?thesis
  proof (cases "v < 2 ^ prefix - 1")
    case True
    with first_byte_masked [OF assms(2,3), of v] um m8 mn show ?thesis
      by (simp add: encode_integer_def decode_integer_def)
  next
    case False
    have "unat ((first_byte OR of_nat (2 ^ prefix - 1)) AND mask prefix) = 2 ^ prefix - 1"
      by (rule first_byte_masked [OF assms(2,3)]) simp
    with False um m8 mn assms(4) decode_integer_loop_encode_rest
      [of "2 ^ prefix - 1" "v - (2 ^ prefix - 1)" 0 rest 1] show ?thesis
      by (simp add: encode_integer_def decode_integer_def)
  qed
qed

lemma encode_rest_nonempty [simp]: "encode_rest r \<noteq> []"
  by (subst encode_rest.simps) simp

lemma length_encode_rest: "length (encode_rest r) \<le> r div 128 + 1"
proof (induction r rule: encode_rest.induct)
  case (1 r)
  then show ?case
    by (subst encode_rest.simps) (auto simp: drop_bit_eq_div)
qed

lemma length_encode_integer:
  "prefix \<le> 7 \<Longrightarrow> length (encode_integer v prefix fb) \<le> v div 128 + 2"
  using length_encode_rest [of "v - (push_bit prefix 1 - 1)"]
    div_le_mono [OF diff_le_self [of v "push_bit prefix 1 - 1"], of 128]
  by (auto simp: encode_integer_def Let_def simp del: push_bit_of_1)

lemma encode_integer_nonempty [simp]: "encode_integer v prefix fb \<noteq> []"
  by (simp add: encode_integer_def Let_def)

lemma decode_encode_string:
  assumes "valid_utf8 s" and "length s < 2 ^ 63"
  shows "decode_string (encode_string s @ rest) = Inr (s, length (encode_string s))"
proof -
  let ?i = "encode_integer (length s) 7 0"
  have "length ?i \<le> length s div 128 + 2" by (rule length_encode_integer) simp
  with assms(2) have "length ?i + length s < 2 ^ 64" by simp
  then have add: "usize_add (length ?i) (length s) = length ?i + length s"
    by (rule usize_add_exact)
  have "decode_integer (?i @ s @ rest) 7 = Inr (length s, length ?i)"
    using assms(2) by (intro decode_encode_integer) simp_all
  then show ?thesis
    using utf8_lossy_id [OF assms(1)]
    by (simp add: decode_string_def encode_string_def add slice_def)
qed

lemma find_static_from_Some:
  "find_static_from k tab name v = Some (i, has) \<Longrightarrow>
     k < i \<and> i \<le> k + length tab \<and> fst (tab ! (i - k - 1)) = name
     \<and> (has \<longleftrightarrow> snd (tab ! (i - k - 1)) = v)"
proof (induction k tab name v rule: find_static_from.induct)
  case (2 i0 n w tab name v)
  show ?case
  proof (cases "n = name")
    case True
    with "2.prems" show ?thesis by (auto split: if_splits)
  next
    case False
    with "2.IH" "2.prems" have "i0 + 1 < i \<and> i \<le> i0 + 1 + length tab
      \<and> fst (tab ! (i - (i0 + 1) - 1)) = name \<and> (has \<longleftrightarrow> snd (tab ! (i - (i0 + 1) - 1)) = v)"
      by simp
    moreover from this have "i - i0 - 1 = Suc (i - (i0 + 1) - 1)" by linarith
    ultimately show ?thesis by simp
  qed
qed simp

lemma length_STATIC_TABLE [simp]: "length STATIC_TABLE = 61"
  by (simp add: STATIC_TABLE_def)

lemma find_static_Some:
  assumes "find_static name v = Some (i, has)"
  shows "1 \<le> i" "i \<le> 61" "fst (STATIC_TABLE ! (i - 1)) = name"
    "has \<longleftrightarrow> snd (STATIC_TABLE ! (i - 1)) = v"
  using find_static_from_Some [OF assms [unfolded find_static_def]] by auto

lemma bit_of_nat_u8_high: "i < 64 \<Longrightarrow> \<not> bit (of_nat i :: u8) 7 \<and> \<not> bit (of_nat i :: u8) 6"
  by (simp add: bit_simps) (simp add: bit_iff_odd)

lemma first_byte_indexed: "((0x80 :: u8) OR x) AND 0x80 \<noteq> 0"
proof -
  have "bit ((0x80 :: u8) OR x) 7" by (simp add: bit_simps)
  then show ?thesis using and_exp_eq_0_iff_not_bit [of "0x80 OR x" 7] by simp
qed

lemma first_byte_literal:
  assumes "i < 64"
  shows "((0x40 :: u8) OR of_nat i) AND 0x80 = 0" and "((0x40 :: u8) OR of_nat i) AND 0x40 \<noteq> 0"
proof -
  have "\<not> bit ((0x40 :: u8) OR of_nat i) 7" and "bit ((0x40 :: u8) OR of_nat i) 6"
    using bit_of_nat_u8_high [OF assms] by (simp_all add: bit_simps)
  then show "((0x40 :: u8) OR of_nat i) AND 0x80 = 0" and "((0x40 :: u8) OR of_nat i) AND 0x40 \<noteq> 0"
    using and_exp_eq_0_iff_not_bit [of "0x40 OR of_nat i :: u8" 7]
      and_exp_eq_0_iff_not_bit [of "0x40 OR of_nat i :: u8" 6] by simp_all
qed

fun header_ok :: "str \<times> str \<Rightarrow> bool" where
  "header_ok (n, v) \<longleftrightarrow> valid_utf8 n \<and> valid_utf8 v \<and> length n < 2 ^ 63 \<and> length v < 2 ^ 63"

lemma get_indexed_static:
  "1 \<le> i \<Longrightarrow> i \<le> 61 \<Longrightarrow> get_indexed t i = Inr (STATIC_TABLE ! (i - 1))"
  by (simp add: get_indexed_def)

lemma decode_index:
  assumes "i < 64" and "prefix = 7 \<and> fb = 0x80 \<or> prefix = 6 \<and> fb = 0x40"
  shows "decode_integer (encode_integer i prefix fb @ rest) prefix =
    Inr (i, length (encode_integer i prefix fb))"
  using assms by (intro decode_encode_integer) (auto simp: mask_eq_exp_minus_1)

lemma encode_index:
  assumes "i \<le> 61" and "prefix = 7 \<or> prefix = 6"
  shows "encode_integer i prefix fb = [fb OR of_nat i]"
  using assms by (auto simp: encode_integer_def)

lemma decode_literal_static_name:
  assumes "1 \<le> i" and "i \<le> 61" and "fst (STATIC_TABLE ! (i - 1)) = n"
    and "valid_utf8 v" and "length v < 2 ^ 63"
  shows "decode_literal t (encode_integer i 6 0x40 @ encode_string v @ rest) 6 True =
    Inr (n, v, length (encode_integer i 6 0x40 @ encode_string v), add_entry n v t)"
  using assms decode_index [of i 6 "0x40" "encode_string v @ rest"]
    decode_encode_string [OF assms(4,5), of rest] get_indexed_static [OF assms(1,2), of t]
  by (cases "STATIC_TABLE ! (i - 1)") (simp add: decode_literal_def)

lemma decode_literal_new_name:
  assumes "header_ok (n, v)"
  shows "decode_literal t (0x40 # encode_string n @ encode_string v @ rest) 6 True =
    Inr (n, v, length (0x40 # encode_string n @ encode_string v), add_entry n v t)"
proof -
  have "decode_integer (0x40 # encode_string n @ encode_string v @ rest) 6 = Inr (0, 1)"
    using decode_index [of 0 6 "0x40" "encode_string n @ encode_string v @ rest"]
    by (simp add: encode_index)
  with assms decode_encode_string [of n "encode_string v @ rest"] decode_encode_string [of v rest]
  show ?thesis by (simp add: decode_literal_def)
qed

lemma hpack_encode_Cons:
  "hpack_encode t (h # hs) =
    (let (t', b) = hpack_encode t [h]; (t'', r) = hpack_encode t' hs in (t'', b @ r))"
  by (cases h) (simp add: Let_def split: prod.splits option.splits)

lemma decode_field:
  assumes "header_ok h" and "hpack_encode t [h] = (t', block)"
  shows "hpack_decode_from t (block @ rest) acc = hpack_decode_from t' rest (acc @ [h])"
proof -
  obtain n v where h: "h = (n, v)" by (cases h)
  show ?thesis
  proof (cases "find_static n v")
    case None
    with assms h have "t' = add_entry n v t" "block = 0x40 # encode_string n @ encode_string v"
      by (simp_all add: Let_def)
    with assms(1) h decode_literal_new_name [of n v t rest] show ?thesis
      by (subst hpack_decode_from.simps) (simp add: hpack_decode_step_def Let_def)
  next
    case (Some p)
    obtain i has where p: "p = (i, has)" by (cases p)
    note fs = find_static_Some [OF Some [unfolded p]]
    show ?thesis
    proof (cases has)
      case True
      with assms(2) h Some p fs have t: "t' = t" "block = encode_integer i 7 0x80"
        by (simp_all add: Let_def)
      have b: "block = [0x80 OR of_nat i]" using t(2) fs(2) by (simp add: encode_index)
      have "STATIC_TABLE ! (i - 1) = h" using fs True h by (simp add: prod_eq_iff)
      with get_indexed_static [OF fs(1,2), of t] have g: "get_indexed t i = Inr (n, v)" using h by simp
      have d: "decode_integer ((0x80 OR of_nat i) # rest) 7 = Inr (i, 1)"
        using decode_index [of i 7 "0x80" rest] fs(2) by (simp add: encode_index)
      from b t(1) g d h first_byte_indexed show ?thesis
        by (subst hpack_decode_from.simps) (simp add: hpack_decode_step_def Let_def)
    next
      case False
      with assms(2) h Some p have t: "t' = add_entry n v t"
          "block = encode_integer i 6 0x40 @ encode_string v"
        by (simp_all add: Let_def)
      have b: "block = (0x40 OR of_nat i) # encode_string v" using t(2) fs(2) by (simp add: encode_index)
      from assms(1) h decode_literal_static_name [OF fs(1-3), of v t rest]
      have "decode_literal t (block @ rest) 6 True = Inr (n, v, length block, t')"
        using t by simp
      with b h first_byte_literal [of i] fs(2) show ?thesis
        by (subst hpack_decode_from.simps) (simp add: hpack_decode_step_def Let_def)
    qed
  qed
qed

lemma decode_block:
  assumes "\<forall>h \<in> set hs. header_ok h" and "hpack_encode t hs = (t', block)"
  shows "hpack_decode_from t (block @ rest) acc = hpack_decode_from t' rest (acc @ hs)"
  using assms
proof (induction hs arbitrary: t block acc)
  case Nil
  then show ?case by simp
next
  case (Cons h hs)
  obtain t1 b1 where 1: "hpack_encode t [h] = (t1, b1)" by (cases "hpack_encode t [h]")
  obtain t2 b2 where 2: "hpack_encode t1 hs = (t2, b2)" by (cases "hpack_encode t1 hs")
  from Cons.prems(2) have "t' = t2" "block = b1 @ b2"
    using hpack_encode_Cons [of t h hs] by (simp_all add: 1 2)
  with Cons 1 2 decode_field [of h t t1 b1 "b2 @ rest" acc] show ?case by simp
qed

lemma size_update_bits:
  assumes "i < 32"
  shows "((0x20 :: u8) OR of_nat i) AND 0x80 = 0" "((0x20 :: u8) OR of_nat i) AND 0x40 = 0"
    "((0x20 :: u8) OR of_nat i) AND 0x20 \<noteq> 0"
proof -
  have "\<not> bit (of_nat i :: u8) 7 \<and> \<not> bit (of_nat i :: u8) 6 \<and> \<not> bit (of_nat i :: u8) 5"
    using assms by (simp add: bit_simps) (simp add: bit_iff_odd)
  then have "\<not> bit ((0x20 :: u8) OR of_nat i) 7" "\<not> bit ((0x20 :: u8) OR of_nat i) 6"
    "bit ((0x20 :: u8) OR of_nat i) 5" by (simp_all add: bit_simps)
  then show "((0x20 :: u8) OR of_nat i) AND 0x80 = 0" "((0x20 :: u8) OR of_nat i) AND 0x40 = 0"
    "((0x20 :: u8) OR of_nat i) AND 0x20 \<noteq> 0"
    using and_exp_eq_0_iff_not_bit [of "0x20 OR of_nat i :: u8" 7]
      and_exp_eq_0_iff_not_bit [of "0x20 OR of_nat i :: u8" 6]
      and_exp_eq_0_iff_not_bit [of "0x20 OR of_nat i :: u8" 5] by simp_all
qed

section \<open>The dynamic table\<close>


fun fit :: "usize \<Rightarrow> dynamic_entry list \<Rightarrow> dynamic_entry list" where
  "fit m [] = []"
| "fit m (e # es) = (if de_size e \<le> m then e # fit (m - de_size e) es else [])"

abbreviation table_size :: "dynamic_entry list \<Rightarrow> usize" where
  "table_size es \<equiv> sum_list (map de_size es)"

definition entry_wf :: "dynamic_entry \<Rightarrow> bool" where
  "entry_wf e \<longleftrightarrow> de_size e = 32 + length (de_name e) + length (de_value e)
     \<and> valid_utf8 (de_name e) \<and> valid_utf8 (de_value e)"

definition hpack_wf :: "hpack_table \<Rightarrow> bool" where
  "hpack_wf t \<longleftrightarrow> (\<forall>e \<in> set (dynamic_table t). entry_wf e)
     \<and> current_size t = table_size (dynamic_table t)
     \<and> current_size t \<le> max_size t \<and> max_size t < 2 ^ 64"

lemma fit_all: "table_size es \<le> m \<Longrightarrow> fit m es = es"
  by (induction es arbitrary: m) auto

lemma fit_snoc: "m < table_size (es @ [e]) \<Longrightarrow> fit m (es @ [e]) = fit m es"
proof (induction es arbitrary: m)
  case (Cons d es)
  show ?case
  proof (cases "de_size d \<le> m")
    case True
    with Cons.prems have "m - de_size d < table_size (es @ [e])" by simp
    with Cons.IH True show ?thesis by simp
  qed simp
qed simp

lemma table_size_fit: "table_size (fit m es) \<le> m"
proof (induction es arbitrary: m)
  case (Cons e es)
  from Cons.IH [of "m - de_size e"] show ?case by auto
qed simp

lemma set_fit: "set (fit m es) \<subseteq> set es"
  by (induction es arbitrary: m) auto

lemma fit_maximal:
  "\<exists>r. es = fit m es @ r \<and> (r \<noteq> [] \<longrightarrow> m < table_size (fit m es @ [hd r]))"
proof (induction es arbitrary: m)
  case (Cons e es)
  from Cons.IH [of "m - de_size e"] obtain r where "es = fit (m - de_size e) es @ r"
    "r \<noteq> [] \<longrightarrow> m - de_size e < table_size (fit (m - de_size e) es @ [hd r])" by blast
  then show ?case by (cases "de_size e \<le> m") (auto intro!: exI [of _ r])
qed simp

lemma evict_fit:
  assumes "current_size t = table_size (dynamic_table t)" and "current_size t < 2 ^ 64"
  shows "evict need t = t\<lparr>dynamic_table := if need \<le> max_size t then fit (max_size t - need) (dynamic_table t) else [],
     current_size := table_size (if need \<le> max_size t then fit (max_size t - need) (dynamic_table t) else [])\<rparr>"
  using assms
proof (induction need t rule: evict.induct)
  case (1 need t)
  show ?case
  proof (cases "max_size t < current_size t + need \<and> dynamic_table t \<noteq> []")
    case True
    then obtain es e where es: "dynamic_table t = es @ [e]" by (metis rev_exhaust)
    let ?t = "t\<lparr>dynamic_table := es, current_size := table_size es\<rparr>"
    from "1.prems" es have sub: "usize_sub (current_size t) (de_size e) = table_size es"
      by (simp add: usize_sub_exact)
    from True es sub have ev: "evict need t = evict need ?t"
      by (subst evict.simps) simp
    have "need \<le> max_size t \<Longrightarrow> fit (max_size t - need) (es @ [e]) = fit (max_size t - need) es"
      using True "1.prems"(1) es by (intro fit_snoc) simp
    moreover have "table_size es < 2 ^ 64" using "1.prems" es by simp
    ultimately show ?thesis
      using "1.IH" [OF True] es sub unfolding ev by simp
  next
    case False
    then have "evict need t = t" by (subst evict.simps) (rule if_not_P)
    moreover have "dynamic_table t = [] \<or> need \<le> max_size t \<and> fit (max_size t - need) (dynamic_table t) = dynamic_table t"
      using False "1.prems"(1) by (auto intro!: fit_all)
    ultimately show ?thesis using "1.prems"(1) by auto
  qed
qed

lemma add_entry_fit:
  assumes "hpack_wf t"
  shows "add_entry n v t = (let es = fit (max_size t) (dynamic_entry_new n v # dynamic_table t)
     in t\<lparr>dynamic_table := es, current_size := table_size es\<rparr>)"
proof -
  from assms have "current_size t = table_size (dynamic_table t)" "current_size t < 2 ^ 64"
    by (simp_all add: hpack_wf_def)
  from evict_fit [OF this, of "de_size (dynamic_entry_new n v)"] show ?thesis
    by (simp add: add_entry_def Let_def)
qed

lemma resize_fit:
  assumes "hpack_wf t"
  shows "resize k t = t\<lparr>max_size := k, dynamic_table := fit k (dynamic_table t),
    current_size := table_size (fit k (dynamic_table t))\<rparr>"
proof -
  from assms have "current_size t = table_size (dynamic_table t)" "current_size t < 2 ^ 64"
    by (simp_all add: hpack_wf_def)
  then show ?thesis by (simp add: resize_def evict_fit)
qed

lemma hpack_wf_new [inv_intros]: "m < 2 ^ 64 \<Longrightarrow> hpack_wf (hpack_new m)"
  by (simp add: hpack_wf_def hpack_new_def)

lemma hpack_wf_fit:
  assumes "\<forall>e \<in> set es. entry_wf e" and "m < 2 ^ 64"
  shows "hpack_wf (t\<lparr>max_size := m, dynamic_table := fit m es, current_size := table_size (fit m es)\<rparr>)"
  using assms set_fit [of m es] table_size_fit [of m es] by (auto simp: hpack_wf_def)

lemma hpack_wf_add_entry [inv_intros]:
  assumes "hpack_wf t" and "valid_utf8 n" and "valid_utf8 v"
  shows "hpack_wf (add_entry n v t)"
proof -
  have "entry_wf (dynamic_entry_new n v)" using assms by (simp add: entry_wf_def dynamic_entry_new_def)
  with assms(1) hpack_wf_fit [of "dynamic_entry_new n v # dynamic_table t" "max_size t" t]
  show ?thesis by (auto simp: add_entry_fit hpack_wf_def Let_def)
qed

lemma hpack_wf_resize [inv_intros]: "hpack_wf t \<Longrightarrow> k < 2 ^ 64 \<Longrightarrow> hpack_wf (resize k t)"
  using hpack_wf_fit [of "dynamic_table t" k t] by (simp add: resize_fit) (simp add: hpack_wf_def)

lemma decode_integer_loop_less:
  "decode_integer_loop data v m pos = Inr (v', pos') \<Longrightarrow> v' < 2 ^ 64"
  by (induction data v m pos rule: decode_integer_loop.induct)
    (auto simp: Let_def usize_add_def split: if_splits)

lemma decode_integer_less:
  "decode_integer data prefix = Inr (v, pos) \<Longrightarrow> v < 2 ^ 64"
  by (auto simp: decode_integer_def Let_def split: list.splits if_splits
      dest: decode_integer_loop_less intro: less_trans [OF unat_u8_less])

lemma decode_string_valid: "decode_string data = Inr (s, pos) \<Longrightarrow> valid_utf8 s"
  by (auto simp: decode_string_def Let_def valid_utf8_lossy split: if_splits sum.splits)

lemma STATIC_TABLE_ascii: "\<forall>(n, v) \<in> set STATIC_TABLE. is_ascii n \<and> is_ascii v"
  unfolding STATIC_TABLE_def by (simp add: lit_def)


lemma get_indexed_valid:
  assumes "hpack_wf t" and "get_indexed t i = Inr (n, v)"
  shows "valid_utf8 n \<and> valid_utf8 v"
proof (cases "i \<le> 61")
  case True
  with assms(2) have "(n, v) = STATIC_TABLE ! (i - 1)" and "i - 1 < length STATIC_TABLE"
    by (auto simp: get_indexed_def split: if_splits)
  then have "(n, v) \<in> set STATIC_TABLE" by (metis nth_mem)
  with STATIC_TABLE_ascii show ?thesis by (auto intro: ascii_valid_utf8)
next
  case False
  let ?e = "dynamic_table t ! (i - 62)"
  from False assms(2) have "i - 62 < length (dynamic_table t)" "n = de_name ?e" "v = de_value ?e"
    by (auto simp: get_indexed_def Let_def split: if_splits)
  then have "?e \<in> set (dynamic_table t)" "n = de_name ?e" "v = de_value ?e" by auto
  with assms(1) show ?thesis by (auto simp: hpack_wf_def entry_wf_def)
qed

lemma decode_literal_wf:
  assumes "hpack_wf t" and "decode_literal t data prefix index = Inr (n, v, pos, t')"
  shows "hpack_wf t' \<and> valid_utf8 n \<and> valid_utf8 v"
proof -
  from assms(2) have "valid_utf8 v"
    by (auto simp: decode_literal_def dest!: decode_string_valid split: sum.splits if_splits)
  moreover from assms(2) have "valid_utf8 n"
    by (auto simp: decode_literal_def dest!: decode_string_valid get_indexed_valid [OF assms(1)]
        split: sum.splits if_splits)
  moreover from assms(2) have "t' = (if index then add_entry n v t else t)"
    by (auto simp: decode_literal_def split: sum.splits if_splits)
  ultimately show ?thesis using assms(1) hpack_wf_add_entry by simp
qed

abbreviation headers_valid :: "(str \<times> str) list \<Rightarrow> bool" where
  "headers_valid hs \<equiv> \<forall>(n, v) \<in> set hs. valid_utf8 n \<and> valid_utf8 v"

lemma hpack_decode_step_cases:
  assumes "hpack_decode_step t data = Inr (t', hs, consumed)"
  obtains (Index) i n v where "get_indexed t i = Inr (n, v)" "t' = t" "hs = [(n, v)]"
  | (Literal) prefix index n v where
      "decode_literal t data prefix index = Inr (n, v, consumed, t')" "hs = [(n, v)]"
  | (Update) k where "decode_integer data 5 = Inr (k, consumed)" "t' = resize k t" "hs = []"
proof (cases "data ! 0 AND 0x80 = 0")
  case False
  with assms show ?thesis
    by (auto simp: hpack_decode_step_def split: sum.splits prod.splits intro: Index)
next
  case True
  with assms show ?thesis
    by (auto simp: hpack_decode_step_def Let_def split: if_split_asm sum.splits prod.splits
      intro: Literal Update)
qed

lemma hpack_decode_step_wf:
  assumes "hpack_wf t" and "hpack_decode_step t data = Inr (t', hs, consumed)"
  shows "hpack_wf t' \<and> headers_valid hs"
  using assms(2)
proof (cases rule: hpack_decode_step_cases)
  case (Index i n v)
  with assms(1) get_indexed_valid [of t i n v] show ?thesis by simp
next
  case (Literal prefix index n v)
  with assms(1) decode_literal_wf [of t data prefix index n v consumed t'] show ?thesis by simp
next
  case (Update k)
  with assms(1) decode_integer_less [of data 5 k consumed] show ?thesis
    by (simp add: hpack_wf_resize)
qed

lemma hpack_decode_from_wf:
  assumes "hpack_wf t" and "headers_valid acc" and "hpack_decode_from t data acc = (t', r)"
  shows "hpack_wf t' \<and> (case r of Inl e \<Rightarrow> True | Inr hs \<Rightarrow> headers_valid hs)"
  using assms
proof (induction t data acc arbitrary: t' r rule: hpack_decode_from.induct)
  case (1 t data acc)
  note unfold = hpack_decode_from.simps [of t data acc]
  show ?case
  proof (cases "data = []")
    case False
    show ?thesis
    proof (cases "hpack_decode_step t data")
      case (Inl e)
      with "1.prems" False unfold show ?thesis by auto
    next
      case (Inr x)
      obtain u hs c where x: "x = (u, hs, c)" by (cases x)
      with Inr "1.prems"(1) have "hpack_wf u" "headers_valid hs"
        using hpack_decode_step_wf by blast+
      moreover from "1.prems"(3) x Inr False unfold
      have "hpack_decode_from u (drop c data) (acc @ hs) = (t', r)" by simp
      moreover have "headers_valid (acc @ hs)" using \<open>headers_valid hs\<close> "1.prems"(2) by auto
      ultimately show ?thesis
        using "1.IH" [OF False Inr [unfolded x] refl refl] by blast
    qed
  qed (use "1.prems" unfold in auto)
qed

lemma hpack_decode_wf:
  assumes "hpack_wf t" and "hpack_decode t data = (t', r)"
  shows "hpack_wf t' \<and> (case r of Inl e \<Rightarrow> True | Inr hs \<Rightarrow> headers_valid hs)"
  using hpack_decode_from_wf [OF assms(1), of "[]" data t' r] assms(2)
  by (simp add: hpack_decode_def)

text \<open>The encoder keeps its table well-formed too, and never changes its maximum size.\<close>

lemma hpack_encode_one_wf:
  assumes "hpack_wf t" and "valid_utf8 n" and "valid_utf8 v"
  shows "hpack_wf (fst (hpack_encode t [(n, v)]))
    \<and> max_size (fst (hpack_encode t [(n, v)])) = max_size t"
proof -
  have "max_size (add_entry n v t) = max_size t"
    using assms(1) by (simp add: add_entry_fit Let_def)
  with assms hpack_wf_add_entry show ?thesis by (auto simp: Let_def split: option.splits)
qed

lemma hpack_encode_wf:
  assumes "hpack_wf t" and "headers_valid hs"
  shows "hpack_wf (fst (hpack_encode t hs)) \<and> max_size (fst (hpack_encode t hs)) = max_size t"
  using assms
proof (induction hs arbitrary: t)
  case (Cons h hs)
  obtain n v where h: "h = (n, v)" by (cases h)
  obtain t1 b where 1: "hpack_encode t [h] = (t1, b)" by (cases "hpack_encode t [h]")
  with hpack_encode_one_wf [of t n v] Cons.prems h have "hpack_wf t1" "max_size t1 = max_size t"
    by auto
  with Cons.IH [of t1] Cons.prems show ?case
    using hpack_encode_Cons [of t h hs] by (simp add: 1 split_def Let_def)
qed simp

interpretation hpack: stateful_codec hpack_encode hpack_decode "\<lambda>hs. \<forall>h \<in> set hs. header_ok h"
proof
  fix hs t t' block
  assume "\<forall>h \<in> set hs. header_ok h" and "hpack_encode t hs = (t', block)"
  from decode_block [OF this, of "[]" "[]"] show "hpack_decode t block = (t', Inr hs)"
    by (simp add: hpack_decode_def hpack_decode_from.simps [of _ "[]"])
qed

section \<open>Properties\<close>

text \<open>
  C13: Encoder and decoder stay in step. Starting from equal tables, any sequence of header
  lists (UTF-8 strings, each shorter than the largest allocation) that \<open>HpackEncoder::encode\<close>
  turns into header blocks is recovered exactly by \<open>HpackDecoder::decode\<close>, block by block, and
  afterwards the two dynamic tables are again equal, evictions included.
\<close>

theorem hpack_session_roundtrip:
  assumes "\<forall>hs \<in> set msgs. \<forall>h \<in> set hs. header_ok h"
    and "run_encoder hpack_encode t msgs = (t', blocks)"
  shows "run_decoder hpack_decode t blocks = (t', map Inr msgs)"
  using assms by (rule hpack.session_in_step)

theorem hpack_session_roundtrip_witness:
  "run_decoder hpack_decode (hpack_new 4096)
     (snd (run_encoder hpack_encode (hpack_new 4096) [[(lit ''a'', lit ''b'')], [(lit ''a'', lit ''c'')]]))
   = (fst (run_encoder hpack_encode (hpack_new 4096) [[(lit ''a'', lit ''b'')], [(lit ''a'', lit ''c'')]]),
      map Inr [[(lit ''a'', lit ''b'')], [(lit ''a'', lit ''c'')]])"
  by (rule hpack_session_roundtrip)
    (auto simp: lit_def valid_utf8_ascii_Cons)

text \<open>
  The integer coding of RFC 7541, section 5.1. For every prefix width and every value of a
  \<open>usize\<close>, whatever flags the first byte carries above the prefix, \<open>decode_integer\<close> reads what
  \<open>encode_integer\<close> wrote, consumes exactly its bytes and ignores what follows; the wrapping
  shift and addition never lose a bit.
\<close>

lemma hpack_integer_roundtrip:
  assumes "1 \<le> prefix" and "prefix \<le> 7" and "first_byte AND mask prefix = 0" and "v < 2 ^ 64"
  shows "decode_integer (encode_integer v prefix first_byte @ rest) prefix =
    Inr (v, length (encode_integer v prefix first_byte))"
  using assms by (rule decode_encode_integer)

theorem hpack_integer_roundtrip_witness:
  "decode_integer (encode_integer 18446744073709551615 5 0x20 @ [9]) 5 =
    Inr (18446744073709551615, length (encode_integer 18446744073709551615 5 0x20))"
  by (rule hpack_integer_roundtrip) (simp_all add: mask_eq_exp_minus_1)

text \<open>
  Eviction keeps the newest entries that fit. Adding a field to a well-formed table yields
  the longest prefix of "new entry, then the old entries" whose sizes sum to at most the maximum
  size (nothing, when the new entry alone is larger), and \<open>current_size\<close> is that sum.
\<close>

lemma add_entry_keeps_newest:
  assumes "hpack_wf t" and "t' = add_entry name value t"
  shows "\<exists>evicted. dynamic_entry_new name value # dynamic_table t = dynamic_table t' @ evicted
    \<and> table_size (dynamic_table t') \<le> max_size t
    \<and> (evicted \<noteq> [] \<longrightarrow> max_size t < table_size (dynamic_table t' @ [hd evicted]))
    \<and> current_size t' = table_size (dynamic_table t') \<and> max_size t' = max_size t"
proof -
  let ?es = "dynamic_entry_new name value # dynamic_table t"
  from add_entry_fit [OF assms(1)] assms(2) have t': "dynamic_table t' = fit (max_size t) ?es"
      "current_size t' = table_size (dynamic_table t')" "max_size t' = max_size t"
    by (simp_all add: Let_def del: fit.simps)
  with fit_maximal [of ?es "max_size t"] table_size_fit [of "max_size t" ?es] show ?thesis
    by (simp del: fit.simps)
qed

theorem add_entry_keeps_newest_witness:
  "\<exists>evicted. dynamic_entry_new [97] [98] # dynamic_table (hpack_new 40)
     = dynamic_table (add_entry [97] [98] (hpack_new 40)) @ evicted
    \<and> table_size (dynamic_table (add_entry [97] [98] (hpack_new 40))) \<le> max_size (hpack_new 40)
    \<and> (evicted \<noteq> [] \<longrightarrow> max_size (hpack_new 40)
         < table_size (dynamic_table (add_entry [97] [98] (hpack_new 40)) @ [hd evicted]))
    \<and> current_size (add_entry [97] [98] (hpack_new 40))
       = table_size (dynamic_table (add_entry [97] [98] (hpack_new 40)))
    \<and> max_size (add_entry [97] [98] (hpack_new 40)) = max_size (hpack_new 40)"
  by (rule add_entry_keeps_newest [OF hpack_wf_new refl]) simp

text \<open>
  C35: The decoder keeps its invariant on every input. Whatever bytes arrive, and whether
  \<open>decode\<close> succeeds, fails or panics, the dynamic table it leaves has well-formed entries,
  \<open>current_size\<close> equals the sum of their sizes and is at most \<open>max_size\<close> (so the subtraction
  in the eviction loops never wraps), and every header it returns consists of valid UTF-8.
\<close>

theorem hpack_decode_invariant:
  assumes "hpack_wf t" and "hpack_decode t data = (t', r)"
  shows "hpack_wf t' \<and> (case r of Inl e \<Rightarrow> True | Inr hs \<Rightarrow> headers_valid hs)"
  using assms by (rule hpack_decode_wf)

theorem hpack_decode_invariant_witness:
  "hpack_wf (fst (hpack_decode (hpack_new 4096) [0x40, 1, 97, 1, 255]))
    \<and> (case snd (hpack_decode (hpack_new 4096) [0x40, 1, 97, 1, 255]) of
         Inl e \<Rightarrow> True | Inr hs \<Rightarrow> headers_valid hs)"
  by (rule hpack_decode_invariant [of "hpack_new 4096"]) (simp_all add: hpack_wf_new)

lemma encode_rest_step:
  assumes "128 \<le> r"
  shows "encode_rest r = of_nat (r mod 128 + 128) # encode_rest (r div 128)"
proof -
  have "r mod 128 < 128" by simp
  then have "unat (of_nat (r mod 128 + 128) :: u8) = r mod 128 + 128"
    by (simp add: unat_of_nat del: of_nat_add)
  then have "(of_nat (r AND 0x7F OR 0x80) :: u8) = of_nat (r mod 128 + 128)"
    using cont_byte [of r] by (simp only: word_unat_eq_iff)
  then show ?thesis
    using assms by (subst encode_rest.simps) (simp add: drop_bit_eq_div del: of_nat_add)
qed

lemma encode_rest_last: "r < 128 \<Longrightarrow> encode_rest r = [of_nat r]"
  by (subst encode_rest.simps) simp

lemma encode_rest_max:
  "encode_rest (2 ^ 64 - 1 - (push_bit 7 1 - 1))
     = [0x80, 0xFF, 0xFF, 0xFF, 0xFF, 0xFF, 0xFF, 0xFF, 0xFF, 0x01]"
  by (simp add: push_bit_eq_mult encode_rest_step encode_rest_last)

text \<open>
  A header block can stop the decoder with a panic. A literal whose announced string length
  is \<open>usize::MAX\<close> passes the check \<open>pos + len > data.len()\<close>, because the sum wraps around, and
  the slice \<open>data[pos..pos + len]\<close> is then out of order. Twelve bytes are enough, with any
  table and before any further bytes.
\<close>

lemma hpack_string_length_panics:
  "hpack_decode t ([0x00, 0x7F, 0x80, 0xFF, 0xFF, 0xFF, 0xFF, 0xFF, 0xFF, 0xFF, 0xFF, 0x01] @ rest)
     = (t, Inl Panic)"
proof -
  let ?s = "[0x7F, 0x80, 0xFF, 0xFF, 0xFF, 0xFF, 0xFF, 0xFF, 0xFF, 0xFF, 0x01] @ rest"
  have enc: "encode_integer (2 ^ 64 - 1) 7 0
      = [0x7F, 0x80, 0xFF, 0xFF, 0xFF, 0xFF, 0xFF, 0xFF, 0xFF, 0xFF, 0x01]"
    unfolding encode_integer_def Let_def encode_rest_max by (simp add: push_bit_eq_mult)
  have "decode_integer (encode_integer (2 ^ 64 - 1) 7 0 @ rest) 7 =
      Inr (2 ^ 64 - 1, length (encode_integer (2 ^ 64 - 1) 7 0))"
    by (rule decode_encode_integer) simp_all
  then have "decode_integer ?s 7 = Inr (2 ^ 64 - 1, 11)"
    unfolding enc by simp
  then have "decode_string ?s = Inl Panic"
    by (simp add: decode_string_def usize_add_def slice_def)
  then have "decode_literal t (0x00 # ?s) 4 False = Inl Panic"
    by (simp add: decode_literal_def decode_integer_def)
  then have "hpack_decode_step t (0x00 # ?s) = Inl Panic"
    by (simp add: hpack_decode_step_def)
  then show ?thesis
    unfolding hpack_decode_def by (subst hpack_decode_from.simps) simp
qed

text \<open>
  The peer chooses the size of the decoder's table. A dynamic table size update with any
  value of a \<open>usize\<close> is accepted, after any headers of the block, and becomes \<open>max_size\<close>; the
  limit the decoder was created with is forgotten. (RFC 7541, section 6.3, makes a value above
  the announced limit a decoding error.)
\<close>

lemma size_update_unbounded:
  assumes "n < 2 ^ 64"
  shows "hpack_decode t (encode_integer n 5 0x20) = (resize n t, Inr [])
    \<and> max_size (resize n (hpack_new limit)) = n"
proof -
  have i: "decode_integer (encode_integer n 5 0x20 @ []) 5 = Inr (n, length (encode_integer n 5 0x20))"
    using assms by (intro decode_encode_integer) (simp_all add: mask_eq_exp_minus_1)
  have "encode_integer n 5 0x20 ! 0 = 0x20 OR of_nat (min n 31)"
    by (simp add: encode_integer_def min_def)
  moreover have "((0x20 :: u8) OR of_nat (min n 31)) AND 0x80 = 0"
      "((0x20 :: u8) OR of_nat (min n 31)) AND 0x40 = 0" "((0x20 :: u8) OR of_nat (min n 31)) AND 0x20 \<noteq> 0"
    by (rule size_update_bits; simp)+
  ultimately have "hpack_decode_step t (encode_integer n 5 0x20) =
      Inr (resize n t, [], length (encode_integer n 5 0x20))"
    using i by (simp add: hpack_decode_step_def Let_def)
  moreover have "max_size (resize n (hpack_new limit)) = n"
    by (simp add: resize_def hpack_new_def evict.simps)
  ultimately show ?thesis
    unfolding hpack_decode_def
    by (subst hpack_decode_from.simps) (simp add: hpack_decode_from.simps [of _ "[]"])
qed

theorem size_update_unbounded_witness:
  "hpack_decode (hpack_new 4096) (encode_integer 18446744073709551615 5 0x20)
     = (resize 18446744073709551615 (hpack_new 4096), Inr [])
    \<and> max_size (resize 18446744073709551615 (hpack_new 4096)) = 18446744073709551615"
  by (rule size_update_unbounded) simp

text \<open>
  The Huffman flag has no effect. A string literal decodes to the same text with the flag
  set as without it: the raw octets, with ill-formed UTF-8 replaced. A Huffman-coded header of a
  real client is therefore delivered undecoded and without an error.
\<close>

lemma huffman_flag_ignored:
  assumes "b < 0x80"
  shows "decode_string ((b OR 0x80) # rest) = decode_string (b # rest)"
proof -
  have m: "(0x7F :: u8) = mask 7" by (simp add: mask_eq_exp_minus_1)
  have "(b OR 0x80) AND 0x7F = b AND 0x7F"
    by (simp add: bit.conj_disj_distrib2)
  then have "decode_integer ((b OR 0x80) # rest) 7 = decode_integer (b # rest) 7"
    by (simp add: decode_integer_def)
  then show ?thesis
    by (auto simp: decode_string_def slice_def Let_def drop_Cons' dest!: decode_integer_pos
        split: sum.splits)
qed

theorem huffman_flag_ignored_witness:
  "decode_string ((0x02 OR 0x80) # [0xF1, 0xE3]) = decode_string (0x02 # [0xF1, 0xE3])"
  by (rule huffman_flag_ignored) simp

end
