(* ===== verification/H2_Stream.thy ===== *)
theory H2_Stream
  imports Ners_Prelude
begin

text \<open>
  HTTP/2 streams: \<open>ners-proto-http/src/h2/stream.rs\<close>. The enum \<open>StreamState\<close>, the record of a
  \<open>Stream\<close>, and one definition per method. The transitions of the state machine are an
  inductive relation; states are ordered by their progress, every transition goes up in this
  order, and the state after any sequence of calls is characterised by which calls occurred.
\<close>

section \<open>State\<close>

datatype stream_state =
  Idle | ReservedLocal | ReservedRemote | Open | HalfClosedLocal | HalfClosedRemote | Closed

record h2_stream =
  s_id :: u32
  s_state :: stream_state
  request_headers :: "(str \<times> str) list"
  response_headers :: "(str \<times> str) list"
  request_body :: bytes
  response_body :: bytes
  s_send_window :: i32
  s_recv_window :: i32
  weight :: u8
  dependency :: u32
  exclusive :: bool

definition stream_new :: "u32 \<Rightarrow> i32 \<Rightarrow> h2_stream" where
  "stream_new sid initial_window_size =
     \<lparr> s_id = sid, s_state = Idle, request_headers = [], response_headers = [],
       request_body = [], response_body = [],
       s_send_window = initial_window_size, s_recv_window = initial_window_size,
       weight = 16, dependency = 0, exclusive = False \<rparr>"

section \<open>Operations\<close>

definition stream_open :: "h2_stream \<Rightarrow> h2_stream" where
  "stream_open s = (if s_state s = Idle then s\<lparr>s_state := Open\<rparr> else s)"

definition half_close_remote :: "h2_stream \<Rightarrow> h2_stream" where
  "half_close_remote s =
     (case s_state s of
        Open \<Rightarrow> s\<lparr>s_state := HalfClosedRemote\<rparr>
      | HalfClosedLocal \<Rightarrow> s\<lparr>s_state := Closed\<rparr>
      | _ \<Rightarrow> s)"

definition half_close_local :: "h2_stream \<Rightarrow> h2_stream" where
  "half_close_local s =
     (case s_state s of
        Open \<Rightarrow> s\<lparr>s_state := HalfClosedLocal\<rparr>
      | HalfClosedRemote \<Rightarrow> s\<lparr>s_state := Closed\<rparr>
      | _ \<Rightarrow> s)"

definition stream_close :: "h2_stream \<Rightarrow> h2_stream" where
  "stream_close s = s\<lparr>s_state := Closed\<rparr>"

definition can_send :: "h2_stream \<Rightarrow> bool" where
  "can_send s \<longleftrightarrow> (case s_state s of Open \<Rightarrow> True | HalfClosedRemote \<Rightarrow> True | _ \<Rightarrow> False)"

definition can_receive :: "h2_stream \<Rightarrow> bool" where
  "can_receive s \<longleftrightarrow> (case s_state s of Open \<Rightarrow> True | HalfClosedLocal \<Rightarrow> True | _ \<Rightarrow> False)"

definition update_send_window :: "i32 \<Rightarrow> h2_stream \<Rightarrow> h2_stream" where
  "update_send_window delta s = s\<lparr>s_send_window := i32_saturating_add (s_send_window s) delta\<rparr>"

definition consume_send_window :: "i32 \<Rightarrow> h2_stream \<Rightarrow> h2_stream" where
  "consume_send_window n s = s\<lparr>s_send_window := i32_wrap (s_send_window s - n)\<rparr>"

definition update_recv_window :: "i32 \<Rightarrow> h2_stream \<Rightarrow> h2_stream" where
  "update_recv_window delta s = s\<lparr>s_recv_window := i32_saturating_add (s_recv_window s) delta\<rparr>"

section \<open>The state machine\<close>

text \<open>The transitions the four state-changing methods make.\<close>

inductive stream_step :: "stream_state \<Rightarrow> stream_state \<Rightarrow> bool" where
  step_open: "stream_step Idle Open"
| step_remote: "stream_step Open HalfClosedRemote"
| step_remote_last: "stream_step HalfClosedLocal Closed"
| step_local: "stream_step Open HalfClosedLocal"
| step_local_last: "stream_step HalfClosedRemote Closed"
| step_close: "stream_step s Closed"

code_pred stream_step .

inductive_cases step_from_closed: "stream_step Closed s'"
inductive_cases step_to_idle: "stream_step s Idle"
inductive_simps stream_step_from_open: "stream_step Open s'"

text \<open>States ordered by progress, as a linear order of the library.\<close>

fun stage_rank :: "stream_state \<Rightarrow> nat" where
  "stage_rank Idle = 0"
| "stage_rank ReservedLocal = 1"
| "stage_rank ReservedRemote = 2"
| "stage_rank Open = 3"
| "stage_rank HalfClosedLocal = 4"
| "stage_rank HalfClosedRemote = 5"
| "stage_rank Closed = 6"

lemma stage_rank_inj: "stage_rank s = stage_rank t \<Longrightarrow> s = t"
  by (cases s; cases t) simp_all

lemma stage_rank_le: "stage_rank s \<le> 6"
  by (cases s) simp_all

instantiation stream_state :: linorder
begin

definition less_eq_stream_state :: "stream_state \<Rightarrow> stream_state \<Rightarrow> bool" where
  "s \<le> t \<longleftrightarrow> stage_rank s \<le> stage_rank t"

definition less_stream_state :: "stream_state \<Rightarrow> stream_state \<Rightarrow> bool" where
  "s < t \<longleftrightarrow> stage_rank s < stage_rank t"

instance
  by standard (auto simp: less_eq_stream_state_def less_stream_state_def dest: stage_rank_inj)

end

lemma stream_step_mono: "stream_step s t \<Longrightarrow> s \<le> t"
  by (induction rule: stream_step.induct) (simp_all add: less_eq_stream_state_def stage_rank_le)

lemma stream_steps_mono: "stream_step\<^sup>*\<^sup>* s t \<Longrightarrow> s \<le> t"
  by (induction rule: rtranclp_induct) (auto dest: stream_step_mono)

lemma stream_steps_closed: "stream_step\<^sup>*\<^sup>* Closed t \<Longrightarrow> t = Closed"
  by (induction rule: rtranclp_induct) (auto elim: step_from_closed)

text \<open>Each method makes at most one transition.\<close>

lemma stream_open_step: "stream_step\<^sup>*\<^sup>* (s_state s) (s_state (stream_open s))"
  by (auto simp: stream_open_def intro: stream_step.intros)

lemma half_close_remote_step: "stream_step\<^sup>*\<^sup>* (s_state s) (s_state (half_close_remote s))"
  by (auto simp: half_close_remote_def intro: stream_step.intros split: stream_state.splits)

lemma half_close_local_step: "stream_step\<^sup>*\<^sup>* (s_state s) (s_state (half_close_local s))"
  by (auto simp: half_close_local_def intro: stream_step.intros split: stream_state.splits)

lemma stream_close_step: "stream_step\<^sup>*\<^sup>* (s_state s) (s_state (stream_close s))"
  by (auto simp: stream_close_def intro: stream_step.intros)

lemmas method_steps = stream_open_step half_close_remote_step half_close_local_step stream_close_step

text \<open>What the methods leave alone, and what is never undone.\<close>

lemma stream_ops_keep [simp]:
  "s_id (stream_open s) = s_id s" "s_id (half_close_remote s) = s_id s"
  "s_id (half_close_local s) = s_id s" "s_id (stream_close s) = s_id s"
  "s_id (update_send_window d s) = s_id s"
  "request_body (stream_open s) = request_body s" "request_body (half_close_remote s) = request_body s"
  "request_body (half_close_local s) = request_body s" "request_body (stream_close s) = request_body s"
  "request_body (update_send_window d s) = request_body s"
  "request_headers (stream_open s) = request_headers s"
  "request_headers (half_close_remote s) = request_headers s"
  "request_headers (half_close_local s) = request_headers s"
  "request_headers (stream_close s) = request_headers s"
  "request_headers (update_send_window d s) = request_headers s"
  "s_recv_window (stream_open s) = s_recv_window s"
  "s_recv_window (half_close_remote s) = s_recv_window s"
  "s_recv_window (half_close_local s) = s_recv_window s"
  "s_recv_window (stream_close s) = s_recv_window s"
  "s_recv_window (update_send_window d s) = s_recv_window s"
  "s_send_window (stream_open s) = s_send_window s"
  "s_send_window (half_close_remote s) = s_send_window s"
  "s_send_window (half_close_local s) = s_send_window s"
  "s_send_window (stream_close s) = s_send_window s"
  "s_state (update_send_window d s) = s_state s"
  by (simp_all add: stream_open_def half_close_remote_def half_close_local_def stream_close_def
      update_send_window_def split: stream_state.split)

section \<open>Sequences of calls\<close>

datatype stream_op =
    OpOpen | OpHalfCloseRemote | OpHalfCloseLocal | OpClose
  | OpUpdateSend i32 | OpConsumeSend i32 | OpUpdateRecv i32

fun stream_apply :: "stream_op \<Rightarrow> h2_stream \<Rightarrow> h2_stream" where
  "stream_apply OpOpen s = stream_open s"
| "stream_apply OpHalfCloseRemote s = half_close_remote s"
| "stream_apply OpHalfCloseLocal s = half_close_local s"
| "stream_apply OpClose s = stream_close s"
| "stream_apply (OpUpdateSend d) s = update_send_window d s"
| "stream_apply (OpConsumeSend n) s = consume_send_window n s"
| "stream_apply (OpUpdateRecv d) s = update_recv_window d s"

definition stream_run :: "stream_op list \<Rightarrow> h2_stream \<Rightarrow> h2_stream" where
  "stream_run ops s = fold stream_apply ops s"

text \<open>
  The specification: two independent directions, open from the first \<open>open\<close> on until they are
  closed. Calls before that have no effect, except \<open>close\<close>, after which nothing opens.
\<close>

fun spec_send_open :: "stream_op list \<Rightarrow> bool" where
  "spec_send_open ops =
     (case dropWhile (\<lambda>p. p \<noteq> OpOpen \<and> p \<noteq> OpClose) ops of
        OpOpen # later \<Rightarrow> OpHalfCloseLocal \<notin> set later \<and> OpClose \<notin> set later
      | _ \<Rightarrow> False)"

fun spec_receive_open :: "stream_op list \<Rightarrow> bool" where
  "spec_receive_open ops =
     (case dropWhile (\<lambda>p. p \<noteq> OpOpen \<and> p \<noteq> OpClose) ops of
        OpOpen # later \<Rightarrow> OpHalfCloseRemote \<notin> set later \<and> OpClose \<notin> set later
      | _ \<Rightarrow> False)"

definition spec_touched :: "stream_op list \<Rightarrow> bool" where
  "spec_touched ops \<longleftrightarrow> OpOpen \<in> set ops \<or> OpClose \<in> set ops"

text \<open>The state the specification prescribes from its three observations.\<close>

definition spec_state :: "bool \<Rightarrow> bool \<Rightarrow> bool \<Rightarrow> stream_state" where
  "spec_state touched send recv =
     (if \<not> touched then Idle
      else if send \<and> recv then Open
      else if send then HalfClosedRemote
      else if recv then HalfClosedLocal
      else Closed)"

lemma stream_apply_spec_state:
  "s_state (stream_apply p s) = spec_state
     (s_state s = Idle \<longrightarrow> p = OpOpen \<or> p = OpClose)
     (if p = OpOpen \<and> s_state s = Idle then True
      else can_send s \<and> p \<noteq> OpHalfCloseLocal \<and> p \<noteq> OpClose)
     (if p = OpOpen \<and> s_state s = Idle then True
      else can_receive s \<and> p \<noteq> OpHalfCloseRemote \<and> p \<noteq> OpClose)
   \<or> s_state s \<in> {ReservedLocal, ReservedRemote}"
  by (cases p; cases "s_state s")
    (auto simp: spec_state_def can_send_def can_receive_def stream_open_def half_close_remote_def
      half_close_local_def stream_close_def update_send_window_def consume_send_window_def
      update_recv_window_def)

lemma stream_run_open:
  "s_state s = spec_state True sd rcv \<Longrightarrow>
   s_state (stream_run ops s) = spec_state True
     (sd \<and> OpHalfCloseLocal \<notin> set ops \<and> OpClose \<notin> set ops)
     (rcv \<and> OpHalfCloseRemote \<notin> set ops \<and> OpClose \<notin> set ops)"
proof (induction ops arbitrary: s sd rcv)
  case (Cons p ops)
  have "s_state (stream_apply p s) = spec_state True
      (sd \<and> p \<noteq> OpHalfCloseLocal \<and> p \<noteq> OpClose) (rcv \<and> p \<noteq> OpHalfCloseRemote \<and> p \<noteq> OpClose)"
    using Cons.prems stream_apply_spec_state [of p s]
    by (auto simp: spec_state_def can_send_def can_receive_def split: if_splits)
  from Cons.IH [OF this] show ?case
    by (simp add: stream_run_def) (auto intro!: arg_cong2 [of _ _ _ _ "spec_state True"])
qed (simp add: stream_run_def)

lemma stream_run_idle:
  "s_state s = Idle \<Longrightarrow> s_state (stream_run ops s) =
     spec_state (spec_touched ops) (spec_send_open ops) (spec_receive_open ops)"
proof (induction ops arbitrary: s)
  case (Cons p ops)
  consider (Opens) "p = OpOpen" | (Closes) "p = OpClose" | (Other) "p \<noteq> OpOpen" "p \<noteq> OpClose" by blast
  then show ?case
  proof cases
    case Opens
    with Cons.prems have "s_state (stream_apply p s) = spec_state True True True"
      by (simp add: stream_open_def spec_state_def)
    from stream_run_open [OF this, of ops] Opens show ?thesis
      by (simp add: stream_run_def spec_touched_def)
  next
    case Closes
    have "s_state (stream_apply p s) = spec_state True False False"
      using Closes by (simp add: stream_close_def spec_state_def)
    from stream_run_open [OF this, of ops] Closes show ?thesis
      by (simp add: stream_run_def spec_touched_def)
  next
    case Other
    with Cons.prems have "s_state (stream_apply p s) = Idle"
      using stream_apply_spec_state [of p s] by (simp add: spec_state_def)
    from Cons.IH [OF this] Other show ?thesis
      by (simp add: stream_run_def spec_touched_def)
  qed
qed (simp add: stream_run_def spec_touched_def spec_state_def)

lemma stream_run_steps: "stream_step\<^sup>*\<^sup>* (s_state s) (s_state (stream_run ops s))"
proof (induction ops arbitrary: s)
  case (Cons p ops)
  have "stream_step\<^sup>*\<^sup>* (s_state s) (s_state (stream_apply p s))"
    by (cases p) (simp_all add: method_steps update_send_window_def consume_send_window_def
        update_recv_window_def)
  with Cons.IH [of "stream_apply p s"] show ?case
    by (simp add: stream_run_def)
qed (simp add: stream_run_def)

section \<open>Properties\<close>

text \<open>
  C37: The state of a stream is what its two directions say. After any sequence of calls on a
  new stream (in any order, window updates included) it can send exactly when it was opened,
  and neither \<open>half_close_local\<close> nor \<open>close\<close> was called since (or \<open>close\<close> before); it can
  receive exactly when the same holds for \<open>half_close_remote\<close>; and the state is determined by
  these two facts and by whether it was ever opened or closed.
\<close>

theorem stream_state_refines_directions:
  "let s = stream_run ops (stream_new sid w) in
     can_send s = spec_send_open ops \<and> can_receive s = spec_receive_open ops
     \<and> s_state s = spec_state (spec_touched ops) (can_send s) (can_receive s)"
proof -
  have "s_state (stream_new sid w) = Idle" by (simp add: stream_new_def)
  note st = stream_run_idle [OF this, of ops]
  have untouched: "\<not> spec_send_open ops \<and> \<not> spec_receive_open ops" if "\<not> spec_touched ops"
  proof -
    from that have "dropWhile (\<lambda>p. p \<noteq> OpOpen \<and> p \<noteq> OpClose) ops = []"
      by (auto simp: spec_touched_def dropWhile_eq_Nil_conv)
    then show ?thesis by (simp del: dropWhile_eq_Nil_conv)
  qed
  then have "can_send (stream_run ops (stream_new sid w)) = spec_send_open ops"
    unfolding can_send_def st by (auto simp: spec_state_def simp del: spec_send_open.simps spec_receive_open.simps)
  moreover from untouched have "can_receive (stream_run ops (stream_new sid w)) = spec_receive_open ops"
    unfolding can_receive_def st by (auto simp: spec_state_def simp del: spec_send_open.simps spec_receive_open.simps)
  ultimately show ?thesis using st by (simp only: Let_def)
qed

text \<open>
  Progress is never undone. Any sequence of calls moves the state of any stream along the
  transition relation, hence upwards in the order of the states, and a closed stream stays
  closed and neither sends nor receives again.
\<close>

lemma stream_progress:
  "stream_step\<^sup>*\<^sup>* (s_state s) (s_state (stream_run ops s))
   \<and> s_state s \<le> s_state (stream_run ops s)
   \<and> (s_state s = Closed \<longrightarrow> s_state (stream_run ops s) = Closed
        \<and> \<not> can_send (stream_run ops s) \<and> \<not> can_receive (stream_run ops s))"
  using stream_run_steps [of s ops] stream_steps_mono [OF stream_run_steps [of s ops]]
    stream_steps_closed [of "s_state (stream_run ops s)"]
  by (cases "s_state s = Closed") (simp_all add: can_send_def can_receive_def)

theorem stream_progress_witness:
  "stream_step\<^sup>*\<^sup>* Open Closed \<and> Open \<le> Closed"
  using stream_progress [of "stream_open (stream_new 1 10)" "[OpHalfCloseLocal, OpHalfCloseRemote]"]
  by (simp add: stream_run_def stream_open_def stream_new_def half_close_local_def half_close_remote_def)

end
