(* ===== verification/H2_Connection.thy ===== *)
theory H2_Connection
  imports H2_Frame Hpack H2_Stream
begin

text \<open>
  The HTTP/2 connection: \<open>ners-proto-http/src/h2/connection.rs\<close>. \<open>H2Settings\<close>, the record of an
  \<open>H2Connection\<close> and one definition per method; a run of a connection is a sequence of calls
  with the frames the caller took out. The lemmas give the invariant every call preserves, what
  each frame is answered with, the life of the streams, and the flow-control accounting.
\<close>

section \<open>State\<close>

record h2_settings =
  header_table_size :: u32
  enable_push :: bool
  max_concurrent_streams :: u32
  initial_window_size :: u32
  max_frame_size :: u32
  max_header_list_size :: u32

definition h2_settings_default :: h2_settings where
  "h2_settings_default =
     \<lparr> header_table_size = 4096, enable_push = True, max_concurrent_streams = 100,
       initial_window_size = 65535, max_frame_size = 16384, max_header_list_size = 8192 \<rparr>"

record h2_connection =
  local_settings :: h2_settings
  remote_settings :: h2_settings
  streams :: "(u32 \<times> h2_stream) list"
  hpack_enc :: hpack_encoder
  hpack_dec :: hpack_decoder
  next_server_stream_id :: u32
  c_send_window :: i32
  c_recv_window :: i32
  preface_received :: bool
  settings_acked :: bool
  outgoing :: "frame list"
  going_away :: bool
  last_stream_id :: u32

definition connection_new :: "h2_settings \<Rightarrow> h2_connection" where
  "connection_new settings =
     (let initial_window = u32_as_i32 (initial_window_size settings) in
      \<lparr> local_settings = settings, remote_settings = h2_settings_default, streams = [],
        hpack_enc = hpack_new (unat (header_table_size settings)),
        hpack_dec = hpack_new 4096, next_server_stream_id = 2,
        c_send_window = initial_window, c_recv_window = initial_window,
        preface_received = False, settings_acked = False, outgoing = [],
        going_away = False, last_stream_id = 0 \<rparr>)"

section \<open>Operations\<close>

definition send_settings :: "h2_connection \<Rightarrow> h2_connection" where
  "send_settings c =
     (let settings =
        [(0x1, header_table_size (local_settings c)),
         (0x3, max_concurrent_streams (local_settings c)),
         (0x4, initial_window_size (local_settings c)),
         (0x5, max_frame_size (local_settings c))]
      in c\<lparr>outgoing := outgoing c @ [Settings False settings]\<rparr>)"

definition process_preface :: "bytes \<Rightarrow> h2_connection \<Rightarrow> h2_connection \<times> bool" where
  "process_preface data c =
     (if length H2_PREFACE \<le> length data \<and> take (length H2_PREFACE) data = H2_PREFACE
      then (send_settings (c\<lparr>preface_received := True\<rparr>), True)
      else (c, False))"

text \<open>One setting of a SETTINGS frame; a new initial window shifts every stream's send window.\<close>

definition apply_setting :: "u16 \<times> u32 \<Rightarrow> h2_connection \<Rightarrow> h2_connection" where
  "apply_setting setting c =
     (case setting of (key, value) \<Rightarrow>
        let r = remote_settings c in
        if key = 0x1 then c\<lparr>remote_settings := r\<lparr>header_table_size := value\<rparr>\<rparr>
        else if key = 0x2 then c\<lparr>remote_settings := r\<lparr>enable_push := value \<noteq> 0\<rparr>\<rparr>
        else if key = 0x3 then c\<lparr>remote_settings := r\<lparr>max_concurrent_streams := value\<rparr>\<rparr>
        else if key = 0x4 then
          let delta = i32_wrap (u32_as_i32 value - u32_as_i32 (initial_window_size r)) in
          c\<lparr>remote_settings := r\<lparr>initial_window_size := value\<rparr>,
            streams := hm_map (update_send_window delta) (streams c)\<rparr>
        else if key = 0x5 then c\<lparr>remote_settings := r\<lparr>max_frame_size := value\<rparr>\<rparr>
        else if key = 0x6 then c\<lparr>remote_settings := r\<lparr>max_header_list_size := value\<rparr>\<rparr>
        else c)"

definition process_settings :: "bool \<Rightarrow> (u16 \<times> u32) list \<Rightarrow> h2_connection \<Rightarrow> h2_connection" where
  "process_settings ack settings c =
     (if ack then c\<lparr>settings_acked := True\<rparr>
      else
        let c = fold apply_setting settings c in
        c\<lparr>outgoing := outgoing c @ [Settings True []]\<rparr>)"

text \<open>
  The decoder keeps the state it reached even when it fails; the rest of the connection is then
  untouched.
\<close>

definition process_headers ::
    "u32 \<Rightarrow> bool \<Rightarrow> bytes \<Rightarrow> h2_connection \<Rightarrow> h2_connection \<times> (h2_error, unit) result" where
  "process_headers stream_id end_stream header_block c =
     (case hpack_decode (hpack_dec c) header_block of
        (dec, Inl (Error e)) \<Rightarrow> (c\<lparr>hpack_dec := dec\<rparr>, Inl (Error (ProtocolError e)))
      | (dec, Inl Panic) \<Rightarrow> (c\<lparr>hpack_dec := dec\<rparr>, Inl Panic)
      | (dec, Inr headers) \<Rightarrow>
          let stream =
                (case hm_get stream_id (streams c) of
                   Some s \<Rightarrow> s
                 | None \<Rightarrow>
                     stream_new stream_id (u32_as_i32 (initial_window_size (local_settings c))));
              stream = (stream_open stream)\<lparr>request_headers := headers\<rparr>;
              stream = (if end_stream then half_close_remote stream else stream)
          in (c\<lparr>hpack_dec := dec,
                streams := hm_insert stream_id stream (streams c),
                last_stream_id := max (last_stream_id c) stream_id\<rparr>, Inr ()))"

definition process_data :: "u32 \<Rightarrow> bool \<Rightarrow> bytes \<Rightarrow> h2_connection \<Rightarrow> h2_connection" where
  "process_data stream_id end_stream data c =
     (case hm_get stream_id (streams c) of
        None \<Rightarrow> c
      | Some s \<Rightarrow>
          if can_receive s then
            let len = i32_wrap (int (length data));
                s = s\<lparr>request_body := request_body s @ data,
                      s_recv_window := i32_wrap (s_recv_window s - len)\<rparr>;
                c = c\<lparr>c_recv_window := i32_wrap (c_recv_window c - len)\<rparr>;
                s = (if end_stream then half_close_remote s else s)
            in c\<lparr>streams := hm_insert stream_id s (streams c)\<rparr>
          else c)"

definition process_window_update :: "u32 \<Rightarrow> u32 \<Rightarrow> h2_connection \<Rightarrow> h2_connection" where
  "process_window_update stream_id increment c =
     (if stream_id = 0 then c\<lparr>c_send_window := i32_wrap (c_send_window c + u32_as_i32 increment)\<rparr>
      else c\<lparr>streams :=
        hm_modify stream_id (update_send_window (u32_as_i32 increment)) (streams c)\<rparr>)"

definition process_frame :: "frame \<Rightarrow> h2_connection \<Rightarrow> h2_connection \<times> (h2_error, unit) result" where
  "process_frame f c =
     (case f of
        Settings ack settings \<Rightarrow> (process_settings ack settings c, Inr ())
      | Headers stream_id end_stream _ header_block \<Rightarrow>
          process_headers stream_id end_stream header_block c
      | Data stream_id end_stream data \<Rightarrow> (process_data stream_id end_stream data c, Inr ())
      | WindowUpdate stream_id increment \<Rightarrow> (process_window_update stream_id increment c, Inr ())
      | Ping ack data \<Rightarrow>
          (if ack then c else c\<lparr>outgoing := outgoing c @ [Ping True data]\<rparr>, Inr ())
      | GoAway _ _ _ \<Rightarrow> (c\<lparr>going_away := True\<rparr>, Inr ())
      | RstStream stream_id _ \<Rightarrow>
          (c\<lparr>streams := hm_modify stream_id stream_close (streams c)\<rparr>, Inr ())
      | _ \<Rightarrow> (c, Inr ()))"

definition send_headers ::
    "u32 \<Rightarrow> (str \<times> str) list \<Rightarrow> bool \<Rightarrow> h2_connection \<Rightarrow> h2_connection" where
  "send_headers stream_id headers end_stream c =
     (case hpack_encode (hpack_enc c) headers of
        (enc, header_block) \<Rightarrow>
          c\<lparr>hpack_enc := enc,
            outgoing := outgoing c @ [Headers stream_id end_stream True header_block],
            streams := hm_modify stream_id (\<lambda>s.
              let s = s\<lparr>response_headers := headers\<rparr>
              in if end_stream then half_close_local s else s) (streams c)\<rparr>)"

definition send_data :: "u32 \<Rightarrow> bytes \<Rightarrow> bool \<Rightarrow> h2_connection \<Rightarrow> h2_connection" where
  "send_data stream_id data end_stream c =
     (let c = c\<lparr>outgoing := outgoing c @ [Data stream_id end_stream data]\<rparr> in
      if end_stream then c\<lparr>streams := hm_modify stream_id half_close_local (streams c)\<rparr> else c)"

definition take_outgoing :: "h2_connection \<Rightarrow> h2_connection \<times> frame list" where
  "take_outgoing c = (c\<lparr>outgoing := []\<rparr>, outgoing c)"

definition get_stream :: "u32 \<Rightarrow> h2_connection \<Rightarrow> h2_stream option" where
  "get_stream stream_id c = hm_get stream_id (streams c)"

definition ready_streams :: "h2_connection \<Rightarrow> u32 list" where
  "ready_streams c =
     map fst (filter (\<lambda>(_, s). s_state s = HalfClosedRemote
       \<or> s_state s = Open \<and> request_headers s \<noteq> []) (streams c))"

definition active_stream_count :: "h2_connection \<Rightarrow> usize" where
  "active_stream_count c = length (filter (\<lambda>(_, s). s_state s \<noteq> Closed) (streams c))"

section \<open>Runs\<close>

text \<open>
  What a caller does with a connection. \<open>h2_run\<close> lists the frames the caller has taken out so
  far with \<open>take_outgoing\<close>.
\<close>

datatype h2_event =
    EvPreface bytes
  | EvFrame frame
  | EvSendHeaders u32 "(str \<times> str) list" bool
  | EvSendData u32 bytes bool
  | EvTake

fun h2_apply :: "h2_event \<Rightarrow> h2_connection \<times> frame list \<Rightarrow> h2_connection \<times> frame list" where
  "h2_apply (EvPreface data) (c, sent) = (fst (process_preface data c), sent)"
| "h2_apply (EvFrame f) (c, sent) = (fst (process_frame f c), sent)"
| "h2_apply (EvSendHeaders sid hs e) (c, sent) = (send_headers sid hs e c, sent)"
| "h2_apply (EvSendData sid d e) (c, sent) = (send_data sid d e c, sent)"
| "h2_apply EvTake (c, sent) = (case take_outgoing c of (c', fs) \<Rightarrow> (c', sent @ fs))"

text \<open>Header strings given to the connection are Rust strings, hence valid UTF-8.\<close>

fun event_ok :: "h2_event \<Rightarrow> bool" where
  "event_ok (EvSendHeaders _ hs _) \<longleftrightarrow> headers_valid hs"
| "event_ok _ \<longleftrightarrow> True"

inductive h2_run :: "h2_settings \<Rightarrow> h2_connection \<Rightarrow> frame list \<Rightarrow> bool" for settings where
  run_new: "h2_run settings (connection_new settings) []"
| run_event: "h2_run settings c sent \<Longrightarrow> event_ok ev \<Longrightarrow> h2_apply ev (c, sent) = (c', sent')
    \<Longrightarrow> h2_run settings c' sent'"

section \<open>The invariant\<close>

definition initial_window :: "h2_settings \<Rightarrow> i32" where
  "initial_window settings = u32_as_i32 (initial_window_size settings)"

abbreviation body_size :: "h2_stream \<Rightarrow> int" where
  "body_size s \<equiv> int (length (request_body s))"

text \<open>All request bytes the connection holds, over all its streams.\<close>

definition received :: "h2_connection \<Rightarrow> int" where
  "received c = sum_list (map (body_size \<circ> snd) (streams c))"

definition stream_wf :: "i32 \<Rightarrow> u32 \<Rightarrow> h2_stream \<Rightarrow> bool" where
  "stream_wf w sid s \<longleftrightarrow> s_id s = sid
     \<and> s_state s \<in> {Open, HalfClosedLocal, HalfClosedRemote, Closed}
     \<and> is_i32 (s_send_window s) \<and> s_recv_window s = i32_wrap (w - body_size s)
     \<and> headers_valid (request_headers s)"

definition connection_wf :: "h2_settings \<Rightarrow> h2_connection \<Rightarrow> bool" where
  "connection_wf settings c \<longleftrightarrow>
     local_settings c = settings \<and> hm_distinct (streams c)
     \<and> (\<forall>(sid, s) \<in> set (streams c). stream_wf (initial_window settings) sid s)
     \<and> hpack_wf (hpack_dec c) \<and> hpack_wf (hpack_enc c)
     \<and> max_size (hpack_enc c) = unat (header_table_size settings)
     \<and> is_i32 (c_send_window c)
     \<and> c_recv_window c = i32_wrap (initial_window settings - received c)"

text \<open>The frames a connection ever emits.\<close>

fun server_frame :: "frame \<Rightarrow> bool" where
  "server_frame (Settings _ _) = True"
| "server_frame (Headers _ _ eh _) = eh"
| "server_frame (Data _ _ _) = True"
| "server_frame (Ping ack _) = ack"
| "server_frame _ = False"

lemma received_insert:
  "received (c\<lparr>streams := hm_insert k s (streams c)\<rparr>) = received c
     - (case hm_get k (streams c) of None \<Rightarrow> 0 | Some old \<Rightarrow> body_size old) + body_size s"
  by (simp add: received_def hm_sum_insert)

lemma received_cong: "streams c = streams d \<Longrightarrow> received c = received d"
  by (simp add: received_def)

lemma hm_sum_modify:
  fixes f :: "'v \<Rightarrow> int"
  assumes "\<And>v. f (g v) = f v"
  shows "sum_list (map (f \<circ> snd) (hm_modify k g m)) = sum_list (map (f \<circ> snd) m)"
  using assms by (auto simp: hm_modify_def hm_sum_insert split: option.splits)

lemma hm_sum_map:
  fixes f :: "'v \<Rightarrow> int"
  assumes "\<And>v. f (g v) = f v"
  shows "sum_list (map (f \<circ> snd) (hm_map g m)) = sum_list (map (f \<circ> snd) m)"
  using assms by (induction m) (auto simp: hm_map_def)

lemma stream_wf_mem:
  "connection_wf settings c \<Longrightarrow> hm_get k (streams c) = Some s
     \<Longrightarrow> stream_wf (initial_window settings) k s"
  by (auto simp: connection_wf_def dest: hm_get_mem)

text \<open>The methods of a stream keep its part of the invariant.\<close>

lemma stream_wf_ops [inv_intros]:
  assumes "stream_wf w k s"
  shows "stream_wf w k (stream_open s)" "stream_wf w k (half_close_remote s)"
    "stream_wf w k (half_close_local s)" "stream_wf w k (stream_close s)"
    "stream_wf w k (update_send_window d s)" "stream_wf w k (s\<lparr>response_headers := hs\<rparr>)"
  using assms
  by (auto simp: stream_wf_def update_send_window_def stream_open_def stream_close_def
      half_close_remote_def half_close_local_def split: stream_state.splits)

lemma connection_wf_modify:
  assumes "connection_wf settings c"
    and "\<And>s. stream_wf (initial_window settings) k s \<Longrightarrow> stream_wf (initial_window settings) k (g s)"
    and "\<And>s. body_size (g s) = body_size s"
  shows "connection_wf settings (c\<lparr>streams := hm_modify k g (streams c)\<rparr>)"
proof -
  have "received (c\<lparr>streams := hm_modify k g (streams c)\<rparr>) = received c"
    using assms(3) hm_sum_modify [of body_size g k "streams c"] by (simp add: received_def)
  moreover have "stream_wf (initial_window settings) sid s"
    if "(sid, s) \<in> set (hm_modify k g (streams c))" for sid s
    using that assms(1,2) stream_wf_mem [OF assms(1), of k]
    by (auto simp: hm_modify_def connection_wf_def split: option.splits dest!: hm_set_insert)
  ultimately show ?thesis using assms(1) by (auto simp: connection_wf_def)
qed

lemma connection_wf_insert:
  assumes "connection_wf settings c" and "stream_wf (initial_window settings) k s"
    and "rw = i32_wrap (c_recv_window c - (body_size s
      - (case hm_get k (streams c) of None \<Rightarrow> 0 | Some old \<Rightarrow> body_size old)))"
  shows "connection_wf settings (c\<lparr>streams := hm_insert k s (streams c), c_recv_window := rw\<rparr>)"
proof -
  let ?old = "case hm_get k (streams c) of None \<Rightarrow> 0 | Some old \<Rightarrow> body_size old"
  have "rw = i32_wrap (i32_wrap (initial_window settings - received c)
      - i32_wrap (body_size s - ?old))"
    using assms(1,3) i32_wrap_diff [of "i32_wrap (initial_window settings - received c)"]
    by (simp add: connection_wf_def)
  then have "rw = i32_wrap (initial_window settings - (received c - ?old + body_size s))"
    by (simp add: algebra_simps)
  moreover have "received (c\<lparr>streams := hm_insert k s (streams c), c_recv_window := rw\<rparr>)
      = received c - ?old + body_size s"
    using received_insert [of k s c] by (simp add: received_def)
  ultimately show ?thesis
    using assms(1,2) by (auto simp: connection_wf_def dest!: hm_set_insert)
qed

text \<open>Changes of fields the invariant does not read.\<close>

lemma connection_wf_fields [simp]:
  "connection_wf settings (c\<lparr>outgoing := fs\<rparr>) = connection_wf settings c"
  "connection_wf settings (c\<lparr>settings_acked := b\<rparr>) = connection_wf settings c"
  "connection_wf settings (c\<lparr>preface_received := b\<rparr>) = connection_wf settings c"
  "connection_wf settings (c\<lparr>going_away := b\<rparr>) = connection_wf settings c"
  "connection_wf settings (c\<lparr>last_stream_id := n\<rparr>) = connection_wf settings c"
  "connection_wf settings (c\<lparr>remote_settings := r\<rparr>) = connection_wf settings c"
  by (simp_all add: connection_wf_def received_def)

lemma connection_wf_dec [inv_intros]:
  "connection_wf settings c \<Longrightarrow> hpack_wf d \<Longrightarrow> connection_wf settings (c\<lparr>hpack_dec := d\<rparr>)"
  by (simp add: connection_wf_def received_def)

lemma connection_wf_new: "connection_wf settings (connection_new settings)"
proof -
  have "unat (header_table_size settings) < 2 ^ 64"
    by (rule order.strict_trans [OF unsigned_less]) simp
  then show ?thesis
    by (simp add: connection_wf_def connection_new_def hpack_wf_new received_def initial_window_def
        Let_def u32_as_i32_def) (simp add: hpack_new_def)
qed

lemma connection_wf_setting:
  assumes "connection_wf settings c"
  shows "connection_wf settings (apply_setting p c)"
proof -
  have "connection_wf settings
      (c\<lparr>remote_settings := rs, streams := hm_map (update_send_window d) (streams c)\<rparr>)" for rs d
  proof -
    have "received (c\<lparr>remote_settings := rs,
        streams := hm_map (update_send_window d) (streams c)\<rparr>) = received c"
      using hm_sum_map [of body_size "update_send_window d" "streams c"] by (simp add: received_def)
    with assms show ?thesis
      by (auto simp: connection_wf_def intro!: stream_wf_ops) (auto simp: hm_map_def intro!: stream_wf_ops)
  qed
  with assms show ?thesis
    by (cases p) (simp add: apply_setting_def Let_def)
qed

lemma connection_wf_settings:
  assumes "connection_wf settings c"
  shows "connection_wf settings (process_settings ack ss c)"
proof -
  have "connection_wf settings (fold apply_setting ss c)"
    using assms by (induction ss arbitrary: c) (auto intro: connection_wf_setting)
  with assms show ?thesis by (simp add: process_settings_def Let_def)
qed

lemma connection_wf_headers:
  assumes "connection_wf settings c" and "process_headers sid e block c = (c', r)"
  shows "connection_wf settings c'"
proof -
  obtain d x where d: "hpack_decode (hpack_dec c) block = (d, x)"
    by (cases "hpack_decode (hpack_dec c) block")
  have wf: "hpack_wf d" and valid: "case x of Inl _ \<Rightarrow> True | Inr hs \<Rightarrow> headers_valid hs"
    using assms(1) hpack_decode_wf [OF _ d] by (simp_all add: connection_wf_def)
  show ?thesis
  proof (cases x)
    case (Inl f)
    with assms d wf show ?thesis
      by (cases f) (auto simp: process_headers_def intro: connection_wf_dec)
  next
    case (Inr hs)
    let ?s = "case hm_get sid (streams c) of Some s \<Rightarrow> s
      | None \<Rightarrow> stream_new sid (u32_as_i32 (initial_window_size (local_settings c)))"
    let ?o = "(stream_open ?s)\<lparr>request_headers := hs\<rparr>"
    let ?t = "if e then half_close_remote ?o else ?o"
    have "stream_wf (initial_window settings) sid ?o"
    proof (cases "hm_get sid (streams c)")
      case None
      with assms(1) valid Inr show ?thesis
        by (auto simp: stream_wf_def stream_open_def stream_new_def connection_wf_def
            initial_window_def u32_as_i32_def)
    next
      case (Some s)
      with stream_wf_mem [OF assms(1) Some] valid Inr show ?thesis
        by (auto simp: stream_wf_def stream_open_def)
    qed
    then have "stream_wf (initial_window settings) sid ?t" by (simp add: stream_wf_ops)
    moreover have "body_size ?t = (case hm_get sid (streams c) of None \<Rightarrow> 0 | Some old \<Rightarrow> body_size old)"
      by (simp add: stream_new_def split: option.split)
    ultimately have "connection_wf settings
        (c\<lparr>streams := hm_insert sid ?t (streams c), c_recv_window := c_recv_window c\<rparr>)"
      using assms(1) by (intro connection_wf_insert) (simp_all add: connection_wf_def)
    then have "connection_wf settings (c\<lparr>hpack_dec := d, streams := hm_insert sid ?t (streams c),
        last_stream_id := max (last_stream_id c) sid\<rparr>)"
      using wf by (simp add: connection_wf_def received_def)
    with assms(2) d Inr show ?thesis by (simp add: process_headers_def Let_def)
  qed
qed

lemma connection_wf_data:
  assumes "connection_wf settings c"
  shows "connection_wf settings (process_data sid e data c)"
proof (cases "hm_get sid (streams c)")
  case (Some s)
  show ?thesis
  proof (cases "can_receive s")
    case True
    let ?len = "i32_wrap (int (length data))"
    let ?s = "s\<lparr>request_body := request_body s @ data,
      s_recv_window := i32_wrap (s_recv_window s - ?len)\<rparr>"
    let ?t = "if e then half_close_remote ?s else ?s"
    note old = stream_wf_mem [OF assms Some]
    have "i32_wrap (s_recv_window s - ?len)
        = i32_wrap (i32_wrap (initial_window settings - body_size s) - i32_wrap (int (length data)))"
      using old by (simp add: stream_wf_def)
    then have "i32_wrap (s_recv_window s - ?len) = i32_wrap (initial_window settings - body_size ?s)"
      by (simp add: algebra_simps)
    with old have "stream_wf (initial_window settings) sid ?s" by (simp add: stream_wf_def)
    then have "stream_wf (initial_window settings) sid ?t" by (simp add: stream_wf_ops)
    moreover have "body_size ?t - body_size s = int (length data)" by simp
    moreover have "c_recv_window c = i32_wrap (c_recv_window c)"
      using assms by (simp add: connection_wf_def)
    ultimately have "connection_wf settings (c\<lparr>streams := hm_insert sid ?t (streams c),
        c_recv_window := i32_wrap (c_recv_window c - ?len)\<rparr>)"
      using assms Some
      by (intro connection_wf_insert) (simp_all, metis i32_wrap_diff i32_wrap_wrap)
    moreover have "process_data sid e data c = c\<lparr>streams := hm_insert sid ?t (streams c),
        c_recv_window := i32_wrap (c_recv_window c - ?len)\<rparr>"
      using Some True by (simp add: process_data_def Let_def)
    ultimately show ?thesis by (simp only:)
  qed (use assms Some in \<open>simp add: process_data_def\<close>)
qed (use assms in \<open>simp add: process_data_def\<close>)

lemma connection_wf_frame:
  assumes "connection_wf settings c"
  shows "connection_wf settings (fst (process_frame f c))"
proof (cases f)
  case (Headers sid e eh block)
  then show ?thesis
    using assms connection_wf_headers [of settings c sid e block]
    by (cases "process_headers sid e block c") (simp add: process_frame_def)
next
  case (WindowUpdate sid n)
  have "connection_wf settings
      (c\<lparr>streams := hm_modify sid (update_send_window (u32_as_i32 n)) (streams c)\<rparr>)"
    by (rule connection_wf_modify [OF assms]) (simp_all add: stream_wf_ops)
  with assms WindowUpdate show ?thesis
    by (simp add: process_frame_def process_window_update_def)
      (simp add: connection_wf_def received_def)
next
  case (RstStream sid code)
  have "connection_wf settings (c\<lparr>streams := hm_modify sid stream_close (streams c)\<rparr>)"
    by (rule connection_wf_modify [OF assms]) (simp_all add: stream_wf_ops)
  with RstStream show ?thesis by (simp add: process_frame_def)
qed (use assms in \<open>simp_all add: process_frame_def connection_wf_data connection_wf_settings\<close>)

lemma connection_wf_send_headers:
  assumes "connection_wf settings c" and "headers_valid hs"
  shows "connection_wf settings (send_headers sid hs e c)"
proof -
  obtain t b where t: "hpack_encode (hpack_enc c) hs = (t, b)" by (cases "hpack_encode (hpack_enc c) hs")
  with hpack_encode_wf [of "hpack_enc c" hs] assms
  have enc: "hpack_wf t" "max_size t = max_size (hpack_enc c)" by (simp_all add: connection_wf_def)
  let ?g = "\<lambda>s. let s = s\<lparr>response_headers := hs\<rparr> in if e then half_close_local s else s"
  have "connection_wf settings (c\<lparr>streams := hm_modify sid ?g (streams c)\<rparr>)"
    using assms(1) by (rule connection_wf_modify) (auto simp: Let_def intro: stream_wf_ops)
  with t enc show ?thesis
    by (simp add: send_headers_def) (simp add: connection_wf_def received_def)
qed

lemma connection_wf_send_data:
  assumes "connection_wf settings c"
  shows "connection_wf settings (send_data sid d e c)"
proof -
  have "connection_wf settings (c\<lparr>streams := hm_modify sid half_close_local (streams c)\<rparr>)"
    by (rule connection_wf_modify [OF assms]) (simp_all add: stream_wf_ops)
  with assms show ?thesis
    by (simp add: send_data_def Let_def) (simp add: connection_wf_def received_def)
qed

lemma connection_wf_apply:
  assumes "connection_wf settings c" and "event_ok ev" and "h2_apply ev (c, sent) = (c', sent')"
  shows "connection_wf settings c'"
  using assms
  by (cases ev)
    (auto simp: process_preface_def send_settings_def take_outgoing_def connection_wf_frame
      connection_wf_send_headers connection_wf_send_data)

lemma h2_run_wf: "h2_run settings c sent \<Longrightarrow> connection_wf settings c"
  by (induction rule: h2_run.induct) (blast intro: connection_wf_new connection_wf_apply)+

section \<open>Answers\<close>

text \<open>What a received frame adds to the outgoing queue.\<close>

fun replies :: "frame \<Rightarrow> frame list" where
  "replies (Settings False _) = [Settings True []]"
| "replies (Ping False data) = [Ping True data]"
| "replies _ = []"

lemma outgoing_fold_settings [simp]: "outgoing (fold apply_setting ss c) = outgoing c"
proof (induction ss arbitrary: c)
  case (Cons p ss)
  have "outgoing (apply_setting p c) = outgoing c"
    by (cases p) (simp add: apply_setting_def Let_def)
  with Cons show ?case by simp
qed simp

lemma process_frame_outgoing: "outgoing (fst (process_frame f c)) = outgoing c @ replies f"
proof (cases f)
  case (Headers sid e eh block)
  then show ?thesis
    by (auto simp: process_frame_def process_headers_def Let_def split: prod.splits sum.splits fault.splits)
next
  case (Settings ack ss)
  then show ?thesis by (cases ack) (simp_all add: process_frame_def process_settings_def Let_def)
next
  case (Ping ack d)
  then show ?thesis by (cases ack) (simp_all add: process_frame_def)
qed (auto simp: process_frame_def process_data_def process_window_update_def Let_def
    split: option.splits)

lemma server_frame_replies: "\<forall>g \<in> set (replies f). server_frame g"
  by (induction f rule: replies.induct) auto

lemma h2_run_server_frames:
  "h2_run settings c sent \<Longrightarrow> \<forall>f \<in> set (sent @ outgoing c). server_frame f"
proof (induction rule: h2_run.induct)
  case (run_event c sent ev c' sent')
  then show ?case
    using server_frame_replies
    by (cases ev) (auto simp: process_preface_def send_settings_def take_outgoing_def
        process_frame_outgoing send_headers_def send_data_def Let_def split: prod.splits if_splits)
qed (simp add: connection_new_def Let_def)

section \<open>Life of the streams\<close>

text \<open>No call removes a stream or moves one against the transition relation.\<close>

definition streams_progress :: "h2_connection \<Rightarrow> h2_connection \<Rightarrow> bool" where
  "streams_progress c c' \<longleftrightarrow> (\<forall>k s. hm_get k (streams c) = Some s \<longrightarrow>
     (\<exists>s'. hm_get k (streams c') = Some s' \<and> stream_step\<^sup>*\<^sup>* (s_state s) (s_state s')))"

lemma streams_progress_same: "streams c' = streams c \<Longrightarrow> streams_progress c c'"
  by (auto simp: streams_progress_def)

lemma streams_progress_trans:
  "streams_progress a b \<Longrightarrow> streams_progress b c \<Longrightarrow> streams_progress a c"
  unfolding streams_progress_def by (meson rtranclp_trans)

lemma streams_progress_insert:
  "(\<And>s. hm_get k (streams c) = Some s \<Longrightarrow> stream_step\<^sup>*\<^sup>* (s_state s) (s_state s'))
   \<Longrightarrow> streams c' = hm_insert k s' (streams c) \<Longrightarrow> streams_progress c c'"
  by (auto simp: streams_progress_def hm_get_insert)

lemma streams_progress_modify:
  "(\<And>s. stream_step\<^sup>*\<^sup>* (s_state s) (s_state (g s)))
   \<Longrightarrow> streams c' = hm_modify k g (streams c) \<Longrightarrow> streams_progress c c'"
  by (auto simp: streams_progress_def hm_get_modify)

lemma streams_progress_setting: "streams_progress c (apply_setting p c)"
  by (cases p) (auto simp: apply_setting_def Let_def streams_progress_def hm_get_map)

lemma streams_progress_settings: "streams_progress c (process_settings ack ss c)"
proof -
  have "streams_progress c (fold apply_setting ss c)"
  proof (induction ss arbitrary: c)
    case (Cons p ss)
    from streams_progress_trans [OF streams_progress_setting Cons.IH] show ?case by simp
  qed (simp add: streams_progress_same)
  then have "streams_progress c (fold apply_setting ss c \<lparr>outgoing := fs\<rparr>)" for fs
    using streams_progress_same by (rule streams_progress_trans) simp
  then show ?thesis by (simp add: process_settings_def Let_def streams_progress_same)
qed

lemma streams_progress_headers: "streams_progress c (fst (process_headers sid e block c))"
proof -
  obtain d x where d: "hpack_decode (hpack_dec c) block = (d, x)"
    by (cases "hpack_decode (hpack_dec c) block")
  show ?thesis
  proof (cases x)
    case (Inl f)
    with d show ?thesis
      by (cases f) (simp_all add: process_headers_def streams_progress_same)
  next
    case (Inr hs)
    let ?f = "\<lambda>s. if e then half_close_remote ((stream_open s)\<lparr>request_headers := hs\<rparr>)
      else (stream_open s)\<lparr>request_headers := hs\<rparr>"
    let ?n = "case hm_get sid (streams c) of Some s \<Rightarrow> s
      | None \<Rightarrow> stream_new sid (u32_as_i32 (initial_window_size (local_settings c)))"
    have step: "stream_step\<^sup>*\<^sup>* (s_state s) (s_state (?f s))" for s
      using stream_open_step [of s] half_close_remote_step [of "(stream_open s)\<lparr>request_headers := hs\<rparr>"]
      by auto
    from d Inr have "streams (fst (process_headers sid e block c)) = hm_insert sid (?f ?n) (streams c)"
      by (simp add: process_headers_def Let_def)
    with step show ?thesis
      by (intro streams_progress_insert [where k = sid and s' = "?f ?n"]) auto
  qed
qed

lemma streams_progress_frame: "streams_progress c (fst (process_frame f c))"
proof (cases f)
  case (Data sid e d)
  let ?s = "\<lambda>s. s\<lparr>request_body := request_body s @ d,
    s_recv_window := i32_wrap (s_recv_window s - i32_wrap (int (length d)))\<rparr>"
  have "stream_step\<^sup>*\<^sup>* (s_state s) (s_state (half_close_remote (?s s)))" for s
    using half_close_remote_step [of "?s s"] by simp
  with Data show ?thesis
    by (auto simp: process_frame_def process_data_def Let_def streams_progress_def hm_get_insert
        split: option.split)
next
  case (WindowUpdate sid n)
  then show ?thesis
    by (auto simp: process_frame_def process_window_update_def streams_progress_def hm_get_modify)
next
  case (RstStream sid code)
  then show ?thesis
    by (intro streams_progress_modify [where g = stream_close and k = sid])
      (simp_all add: process_frame_def stream_close_step)
qed (simp_all add: process_frame_def streams_progress_headers streams_progress_settings
    streams_progress_same)

lemma streams_progress_apply:
  assumes "h2_apply ev (c, sent) = (c', sent')"
  shows "streams_progress c c'"
proof (cases ev)
  case (EvSendHeaders sid hs e)
  let ?g = "\<lambda>s. let s = s\<lparr>response_headers := hs\<rparr> in if e then half_close_local s else s"
  have "stream_step\<^sup>*\<^sup>* (s_state s) (s_state (?g s))" for s
    using half_close_local_step [of "s\<lparr>response_headers := hs\<rparr>"] by (simp add: Let_def)
  with assms EvSendHeaders show ?thesis
    by (intro streams_progress_modify [where g = ?g and k = sid]) (auto simp: send_headers_def split: prod.splits)
next
  case (EvSendData sid d e)
  with assms show ?thesis
    using half_close_local_step
    by (auto simp: send_data_def Let_def streams_progress_def hm_get_modify)
qed (use assms streams_progress_frame in \<open>auto simp: process_preface_def send_settings_def take_outgoing_def
    streams_progress_same Let_def split: if_splits\<close>)

section \<open>Interleaved frames\<close>

text \<open>The caller's loop over the frames it has parsed.\<close>

definition process_all :: "frame list \<Rightarrow> h2_connection \<Rightarrow> h2_connection" where
  "process_all fs c = fold (\<lambda>f c. fst (process_frame f c)) fs c"

lemma process_all_simps [simp]:
  "process_all [] c = c"
  "process_all (f # fs) c = process_all fs (fst (process_frame f c))"
  by (simp_all add: process_all_def)

text \<open>The stream whose state, headers or body a frame can change.\<close>

fun addressed :: "frame \<Rightarrow> u32 option" where
  "addressed (Data s _ _) = Some s"
| "addressed (Headers s _ _ _) = Some s"
| "addressed (RstStream s _) = Some s"
| "addressed _ = None"

definition same_request :: "h2_stream \<Rightarrow> h2_stream \<Rightarrow> bool" where
  "same_request s s' \<longleftrightarrow> s_state s' = s_state s \<and> request_headers s' = request_headers s
     \<and> request_body s' = request_body s"

lemma same_request_refl [simp]: "same_request s s"
  by (simp add: same_request_def)

lemma same_request_trans: "same_request a b \<Longrightarrow> same_request b c \<Longrightarrow> same_request a c"
  by (simp add: same_request_def)

lemma same_request_window [simp]: "same_request s (update_send_window d s)"
  by (simp add: same_request_def)

lemma setting_same_request:
  "hm_get sid (streams c) = Some s \<Longrightarrow>
   \<exists>s'. hm_get sid (streams (fold apply_setting ss c)) = Some s' \<and> same_request s s'"
proof (induction ss arbitrary: c s)
  case (Cons p ss)
  have "\<exists>s1. hm_get sid (streams (apply_setting p c)) = Some s1 \<and> same_request s s1"
    using Cons.prems by (cases p) (auto simp: apply_setting_def Let_def hm_get_map)
  then obtain s1 where 1: "hm_get sid (streams (apply_setting p c)) = Some s1" "same_request s s1"
    by blast
  from Cons.IH [OF 1(1)] obtain s2 where
    "hm_get sid (streams (fold apply_setting ss (apply_setting p c))) = Some s2" "same_request s1 s2"
    by blast
  with 1(2) show ?case by (auto intro: same_request_trans)
qed simp

lemma process_frame_other:
  assumes "addressed f \<noteq> Some sid" and "get_stream sid c = Some s"
  shows "\<exists>s'. get_stream sid (fst (process_frame f c)) = Some s' \<and> same_request s s'"
proof (cases f)
  case (Headers k e eh block)
  with assms show ?thesis
    by (auto simp: get_stream_def process_frame_def process_headers_def Let_def hm_get_insert
        split: prod.split sum.split fault.split)
next
  case (Settings ack ss)
  with assms setting_same_request [of sid c s ss] show ?thesis
    by (auto simp: get_stream_def process_frame_def process_settings_def Let_def)
qed (use assms in \<open>auto simp: get_stream_def process_frame_def process_data_def
    process_window_update_def Let_def hm_get_insert hm_get_modify split: option.split\<close>)

text \<open>The body a sequence of frames delivers to a stream that is receiving.\<close>

fun body_of :: "u32 \<Rightarrow> frame list \<Rightarrow> bytes" where
  "body_of sid [] = []"
| "body_of sid (Data s e d # fs) =
     (if s \<noteq> sid then body_of sid fs else if e then d else d @ body_of sid fs)"
| "body_of sid (RstStream s _ # fs) = (if s \<noteq> sid then body_of sid fs else [])"
| "body_of sid (_ # fs) = body_of sid fs"

fun headers_of :: "u32 \<Rightarrow> frame \<Rightarrow> bool" where
  "headers_of sid (Headers s _ _ _) \<longleftrightarrow> s = sid"
| "headers_of sid _ \<longleftrightarrow> False"

lemma body_of_other: "addressed f \<noteq> Some sid \<Longrightarrow> body_of sid (f # fs) = body_of sid fs"
  by (cases f) simp_all

lemma can_receive_cong: "same_request s s' \<Longrightarrow> can_receive s' = can_receive s"
  by (simp add: same_request_def can_receive_def)

lemma not_can_receive:
  "\<not> can_receive (half_close_remote s)" if "can_receive s"
  using that by (simp add: can_receive_def half_close_remote_def split: stream_state.splits)

text \<open>A stream that no longer receives keeps its request, whatever arrives for it.\<close>

lemma finished_request:
  assumes "\<forall>f \<in> set fs. \<not> headers_of sid f" and "get_stream sid c = Some s" and "\<not> can_receive s"
  shows "\<exists>s'. get_stream sid (process_all fs c) = Some s' \<and> \<not> can_receive s'
    \<and> request_body s' = request_body s \<and> request_headers s' = request_headers s"
  using assms
proof (induction fs arbitrary: c s)
  case (Cons f fs)
  have "\<exists>s1. get_stream sid (fst (process_frame f c)) = Some s1 \<and> \<not> can_receive s1
      \<and> request_body s1 = request_body s \<and> request_headers s1 = request_headers s"
  proof (cases "addressed f = Some sid")
    case True
    then consider e d where "f = Data sid e d" | e eh b where "f = Headers sid e eh b"
      | n where "f = RstStream sid n"
      by (cases f) simp_all
    then show ?thesis
    proof cases
      case (3 n)
      with Cons.prems show ?thesis
        by (auto simp: get_stream_def process_frame_def hm_get_modify)
          (simp add: can_receive_def stream_close_def)
    qed (use Cons.prems in \<open>auto simp: get_stream_def process_frame_def process_data_def\<close>)
  next
    case False
    from process_frame_other [OF this Cons.prems(2)] Cons.prems(3) show ?thesis
      by (auto simp: can_receive_cong) (auto simp: same_request_def)
  qed
  then obtain s1 where 1: "get_stream sid (fst (process_frame f c)) = Some s1" "\<not> can_receive s1"
    "request_body s1 = request_body s" "request_headers s1 = request_headers s" by blast
  with Cons.IH [OF _ 1(1,2)] Cons.prems(1) show ?case by simp
qed simp

lemma receiving_request:
  assumes "\<forall>f \<in> set fs. \<not> headers_of sid f" and "get_stream sid c = Some s" and "can_receive s"
  shows "\<exists>s'. get_stream sid (process_all fs c) = Some s'
    \<and> request_body s' = request_body s @ body_of sid fs \<and> request_headers s' = request_headers s"
  using assms
proof (induction fs arbitrary: c s)
  case (Cons f fs)
  let ?c = "fst (process_frame f c)"
  consider (Data) e d where "f = Data sid e d" | (Rst) n where "f = RstStream sid n"
    | (Other) "addressed f \<noteq> Some sid"
    using Cons.prems(1) by (cases f) auto
  then show ?case
  proof cases
    case (Data e d)
    with Cons.prems obtain s1 where s1: "get_stream sid ?c = Some s1"
        "request_body s1 = request_body s @ d" "request_headers s1 = request_headers s"
        "can_receive s1 = (\<not> e)"
      using not_can_receive [of "s\<lparr>request_body := request_body s @ d,
        s_recv_window := i32_wrap (s_recv_window s - i32_wrap (int (length d)))\<rparr>"]
      by (cases e) (auto simp: get_stream_def process_frame_def process_data_def Let_def
          hm_get_insert can_receive_def)
    show ?thesis
    proof (cases e)
      case True
      with finished_request [OF _ s1(1), of fs] Cons.prems(1) s1 Data show ?thesis by auto
    next
      case False
      with Cons.IH [OF _ s1(1)] Cons.prems(1) s1 Data show ?thesis by simp
    qed
  next
    case (Rst n)
    with Cons.prems have "get_stream sid ?c = Some (stream_close s)"
      by (simp add: get_stream_def process_frame_def hm_get_modify)
    moreover have "\<not> can_receive (stream_close s)" by (simp add: can_receive_def stream_close_def)
    ultimately show ?thesis
      using finished_request [of fs sid ?c "stream_close s"] Cons.prems(1) Rst by auto
  next
    case Other
    from process_frame_other [OF this Cons.prems(2)] obtain s1 where
      1: "get_stream sid ?c = Some s1" "same_request s s1" by blast
    with Cons.IH [OF _ 1(1)] Cons.prems(1,3) can_receive_cong [OF 1(2)] body_of_other [OF Other, of fs]
    show ?thesis by (simp add: same_request_def)
  qed
qed simp

section \<open>Requests and responses end to end\<close>

text \<open>A client that sends requests: its encoder, and one HEADERS frame per request.\<close>

fun client_frames :: "hpack_encoder \<Rightarrow> (u32 \<times> bool \<times> (str \<times> str) list) list \<Rightarrow> frame list" where
  "client_frames t [] = []"
| "client_frames t ((sid, e, hs) # reqs) =
     (case hpack_encode t hs of (t', block) \<Rightarrow> Headers sid e True block # client_frames t' reqs)"

lemma process_headers_decoded:
  assumes "hpack_decode (hpack_dec c) block = (d, Inr hs)" and "process_headers sid e block c = (c', r)"
  shows "r = Inr () \<and> hpack_dec c' = d \<and> (\<forall>k. k \<noteq> sid \<longrightarrow> get_stream k c' = get_stream k c)
    \<and> (\<exists>s. get_stream sid c' = Some s \<and> request_headers s = hs)"
  using assms by (auto simp: process_headers_def Let_def get_stream_def hm_get_insert)

lemma client_requests_arrive:
  assumes "\<forall>(sid, e, hs) \<in> set reqs. \<forall>h \<in> set hs. header_ok h"
    and "distinct (map fst reqs)" and "(sid, e, hs) \<in> set reqs"
  shows "\<exists>s. get_stream sid (process_all (client_frames (hpack_dec c) reqs) c) = Some s
    \<and> request_headers s = hs"
proof -
  have keep: "get_stream k (process_all (client_frames (hpack_dec c) rs) c) = get_stream k c"
    if "\<forall>(sid, e, hs) \<in> set rs. \<forall>h \<in> set hs. header_ok h" "k \<notin> fst ` set rs" for k rs c
    using that
  proof (induction rs arbitrary: c)
    case (Cons r rs)
    obtain k1 e1 hs1 where r: "r = (k1, e1, hs1)" by (cases r)
    obtain t b where t: "hpack_encode (hpack_dec c) hs1 = (t, b)" by (cases "hpack_encode (hpack_dec c) hs1")
    obtain c1 x where c1: "process_headers k1 e1 b c = (c1, x)" by (cases "process_headers k1 e1 b c")
    from hpack.in_step [OF _ t] Cons.prems(1) r have "hpack_decode (hpack_dec c) b = (t, Inr hs1)" by simp
    note p = process_headers_decoded [OF this c1]
    with Cons.prems r have "get_stream k c1 = get_stream k c" by auto
    with Cons.IH [of c1] Cons.prems p show ?case by (simp add: r t c1 process_frame_def)
  qed simp
  show ?thesis
    using assms
  proof (induction reqs arbitrary: c)
    case (Cons r rs)
    obtain k1 e1 hs1 where r: "r = (k1, e1, hs1)" by (cases r)
    obtain t b where t: "hpack_encode (hpack_dec c) hs1 = (t, b)" by (cases "hpack_encode (hpack_dec c) hs1")
    obtain c1 x where c1: "process_headers k1 e1 b c = (c1, x)" by (cases "process_headers k1 e1 b c")
    from hpack.in_step [OF _ t] Cons.prems(1) r have "hpack_decode (hpack_dec c) b = (t, Inr hs1)" by simp
    note p = process_headers_decoded [OF this c1]
    have step: "process_all (client_frames (hpack_dec c) (r # rs)) c
        = process_all (client_frames (hpack_dec c1) rs) c1"
      using p by (simp add: r t c1 process_frame_def)
    show ?case
    proof (cases "(sid, e, hs) = r")
      case True
      with Cons.prems keep [of rs sid c1] p r step show ?thesis by auto
    next
      case False
      with Cons.IH [of c1] Cons.prems step show ?thesis by auto
    qed
  qed simp
qed

text \<open>A peer that reads the responses: the header blocks, decoded in order.\<close>

fun peer_headers :: "hpack_decoder \<Rightarrow> frame list \<Rightarrow> (u32 \<times> (str fault + (str \<times> str) list)) list" where
  "peer_headers t [] = []"
| "peer_headers t (Headers sid _ _ block # fs) =
     (case hpack_decode t block of (t', r) \<Rightarrow> (sid, r) # peer_headers t' fs)"
| "peer_headers t (_ # fs) = peer_headers t fs"

lemma responses_arrive:
  assumes "\<forall>(sid, hs, e) \<in> set resps. \<forall>h \<in> set hs. header_ok h"
  shows "\<exists>fs. outgoing (fold (\<lambda>(sid, hs, e). send_headers sid hs e) resps c) = outgoing c @ fs
    \<and> peer_headers (hpack_enc c) fs = map (\<lambda>(sid, hs, e). (sid, Inr hs)) resps"
  using assms
proof (induction resps arbitrary: c)
  case (Cons r rs)
  obtain sid hs e where r: "r = (sid, hs, e)" by (cases r)
  obtain t b where t: "hpack_encode (hpack_enc c) hs = (t, b)" by (cases "hpack_encode (hpack_enc c) hs")
  from hpack.in_step [OF _ t] Cons.prems r have dec: "hpack_decode (hpack_enc c) b = (t, Inr hs)" by simp
  from Cons.IH [of "send_headers sid hs e c"] Cons.prems obtain fs where
    "outgoing (fold (\<lambda>(sid, hs, e). send_headers sid hs e) rs (send_headers sid hs e c))
      = outgoing (send_headers sid hs e c) @ fs"
    "peer_headers (hpack_enc (send_headers sid hs e c)) fs = map (\<lambda>(sid, hs, e). (sid, Inr hs)) rs"
    by auto
  moreover from t have "outgoing (send_headers sid hs e c) = outgoing c @ [Headers sid e True b]"
      "hpack_enc (send_headers sid hs e c) = t" by (simp_all add: send_headers_def)
  ultimately show ?case
    using r dec by (intro exI [of _ "Headers sid e True b # fs"]) simp
qed simp

section \<open>Windows and limits\<close>

text \<open>The initial windows a list of settings announces, in order.\<close>

fun window_settings :: "(u16 \<times> u32) list \<Rightarrow> u32 list" where
  "window_settings [] = []"
| "window_settings ((key, v) # ss) = (if key = 0x4 then v # window_settings ss else window_settings ss)"

abbreviation peer_window :: "h2_connection \<Rightarrow> i32" where
  "peer_window c \<equiv> u32_as_i32 (initial_window_size (remote_settings c))"

lemma settings_windows:
  assumes "hm_get sid (streams c) = Some s" and "uint (initial_window_size (remote_settings c)) < 2 ^ 31"
    and "\<forall>w \<in> set (window_settings ss). uint w < 2 ^ 31 \<and>
      is_i32 (s_send_window s + (uint w - uint (initial_window_size (remote_settings c))))"
  shows "\<exists>s'. hm_get sid (streams (fold apply_setting ss c)) = Some s' \<and>
    s_send_window s' = s_send_window s
      + (uint (initial_window_size (remote_settings (fold apply_setting ss c)))
         - uint (initial_window_size (remote_settings c)))"
  using assms
proof (induction ss arbitrary: c s)
  case (Cons p ss)
  obtain key w where p: "p = (key, w)" by (cases p)
  let ?old = "uint (initial_window_size (remote_settings c))"
  show ?case
  proof (cases "key = 0x4")
    case False
    then have "streams (apply_setting p c) = streams c"
        "initial_window_size (remote_settings (apply_setting p c)) = initial_window_size (remote_settings c)"
      by (simp_all add: p apply_setting_def Let_def)
    with Cons.IH [of "apply_setting p c" s] Cons.prems p False show ?thesis by simp
  next
    case True
    have nonneg: "0 \<le> ?old" "0 \<le> uint w" by simp_all
    from Cons.prems(3) p True have w: "uint w < 2 ^ 31" "is_i32 (s_send_window s + (uint w - ?old))"
      by simp_all
    have "is_i32 (uint w - ?old)"
      using w(1) Cons.prems(2) nonneg unfolding is_i32_def by linarith
    then have d: "i32_wrap (u32_as_i32 w - peer_window c) = uint w - ?old"
      using w(1) Cons.prems(2) by (simp only: u32_as_i32_small i32_wrap_exact)
    let ?s = "update_send_window (uint w - ?old) s"
    have 1: "hm_get sid (streams (apply_setting p c)) = Some ?s"
      using Cons.prems(1) d by (simp add: p True apply_setting_def Let_def hm_get_map)
    have 2: "initial_window_size (remote_settings (apply_setting p c)) = w"
      by (simp add: p True apply_setting_def Let_def)
    have 3: "s_send_window ?s = s_send_window s + (uint w - ?old)"
      using w(2) by (simp add: update_send_window_def i32_saturating_add_exact)
    from Cons.IH [OF 1] 2 3 w Cons.prems(3) p True show ?thesis by simp
  qed
qed simp

text \<open>Opening streams by HEADERS frames with an empty block, each with a fresh identifier.\<close>

lemma open_streams_count:
  assumes "distinct sids" and "\<forall>k \<in> set sids. get_stream k c = None"
  shows "active_stream_count (process_all (map (\<lambda>k. Headers k False True []) sids) c)
    = active_stream_count c + length sids"
  using assms
proof (induction sids arbitrary: c)
  case (Cons k ks)
  let ?s = "(stream_open (stream_new k (u32_as_i32 (initial_window_size (local_settings c)))))
    \<lparr>request_headers := []\<rparr>"
  let ?c = "fst (process_frame (Headers k False True []) c)"
  have none: "hm_get k (streams c) = None" using Cons.prems(2) by (simp add: get_stream_def)
  have dec: "hpack_decode t [] = (t, Inr [])" for t
    by (simp add: hpack_decode_def hpack_decode_from.simps [of _ "[]"])
  have c: "streams ?c = hm_insert k ?s (streams c)"
    by (simp add: process_frame_def process_headers_def dec none Let_def)
  have ins: "hm_insert k v m = m @ [(k, v)]" if "hm_get k m = None" for v and m :: "(u32 \<times> h2_stream) list"
    using that unfolding hm_insert_def hm_get_def by (induction m) (auto split: if_splits)
  have "active_stream_count ?c = Suc (active_stream_count c)"
    unfolding active_stream_count_def c ins [OF none]
    by (simp add: stream_open_def stream_new_def)
  moreover have "\<forall>j \<in> set ks. get_stream j ?c = None"
    using Cons.prems by (auto simp: get_stream_def c hm_get_insert)
  ultimately show ?case using Cons.IH [of ?c] Cons.prems(1) by simp
qed simp

section \<open>Properties\<close>

text \<open>
  C24: The state of a connection is consistent after any calls. Whatever frames arrive and
  whatever is sent, no two entries of the stream map have the same key, every stream is stored
  under its own identifier and has been opened (never idle or reserved), its send window is an
  \<open>i32\<close>, its stored request headers are valid UTF-8, and both HPACK tables are well formed; the
  encoder's limit is always the connection's own \<open>header_table_size\<close>, whatever the peer's
  SETTINGS say.
\<close>

theorem connection_invariant:
  assumes "h2_run settings c sent"
  shows "distinct (map fst (streams c)) \<and>
    (\<forall>sid s. get_stream sid c = Some s \<longrightarrow> s_id s = sid
       \<and> s_state s \<in> {Open, HalfClosedLocal, HalfClosedRemote, Closed}
       \<and> is_i32 (s_send_window s) \<and> headers_valid (request_headers s))
    \<and> hpack_wf (hpack_dec c) \<and> hpack_wf (hpack_enc c)
    \<and> max_size (hpack_enc c) = unat (header_table_size settings)"
  using h2_run_wf [OF assms] stream_wf_mem [OF h2_run_wf [OF assms]]
  by (auto simp: connection_wf_def get_stream_def stream_wf_def)

theorem connection_invariant_witness:
  "max_size (hpack_enc (fst (process_frame (Settings False [(1, 64)]) (connection_new h2_settings_default)))) = 4096"
proof -
  let ?c = "fst (process_frame (Settings False [(1, 64)]) (connection_new h2_settings_default))"
  have "h2_run h2_settings_default ?c []"
    by (rule run_event [of _ "connection_new h2_settings_default" "[]" "EvFrame (Settings False [(1, 64)])"])
      (auto intro: run_new)
  from connection_invariant [OF this] show ?thesis by (simp add: h2_settings_default_def)
qed

text \<open>
  Received data is charged to the windows and never credited back. In every run the
  receive window of each stream is the initial window minus the bytes of its request body, the
  connection's is the initial window minus the bodies of all streams (both modulo the range of
  \<open>i32\<close>), and no WINDOW_UPDATE frame is ever sent: a peer that honours flow control cannot
  deliver more than one initial window of request data per stream, nor over the life of a
  connection.
\<close>

lemma receive_window_never_replenished:
  assumes "h2_run settings c sent"
  shows "c_recv_window c = i32_wrap (u32_as_i32 (initial_window_size settings) - received c)
    \<and> (\<forall>sid s. get_stream sid c = Some s \<longrightarrow> s_recv_window s =
         i32_wrap (u32_as_i32 (initial_window_size settings) - int (length (request_body s))))
    \<and> (\<forall>sid n. WindowUpdate sid n \<notin> set (sent @ outgoing c))"
proof -
  have "WindowUpdate sid n \<notin> set (sent @ outgoing c)" for sid n
  proof
    assume "WindowUpdate sid n \<in> set (sent @ outgoing c)"
    with h2_run_server_frames [OF assms] have "server_frame (WindowUpdate sid n)" by (rule bspec)
    then show False by simp
  qed
  with h2_run_wf [OF assms] stream_wf_mem [OF h2_run_wf [OF assms]] show ?thesis
    by (auto simp: connection_wf_def get_stream_def stream_wf_def initial_window_def)
qed

theorem receive_window_never_replenished_witness:
  "c_recv_window (process_data 1 True [7, 8, 9]
     (fst (process_headers 1 False [] (connection_new h2_settings_default)))) = 65532"
proof -
  let ?c1 = "fst (process_headers 1 False [] (connection_new h2_settings_default))"
  let ?c = "process_data 1 True [7, 8, 9] ?c1"
  have "h2_run h2_settings_default ?c1 []"
    by (rule run_event [of _ "connection_new h2_settings_default" "[]" "EvFrame (Headers 1 False True [])"])
      (auto intro: run_new simp: process_frame_def)
  then have run: "h2_run h2_settings_default ?c []"
    by (rule run_event [of _ _ _ "EvFrame (Data 1 True [7, 8, 9])"]) (simp_all add: process_frame_def)
  have dec: "hpack_decode t [] = (t, Inr [])" for t
    by (simp add: hpack_decode_def hpack_decode_from.simps [of _ "[]"])
  have "received ?c = 3"
    by (simp add: process_headers_def dec connection_new_def Let_def process_data_def hm_insert_def
        hm_get_def stream_open_def stream_new_def can_receive_def received_def half_close_remote_def)
  with receive_window_never_replenished [OF run] show ?thesis
    by (simp add: h2_settings_default_def u32_as_i32_def i32_wrap_def)
qed

text \<open>
  Every frame is answered as the protocol asks, and only then. Processing a frame appends
  to the outgoing queue one SETTINGS acknowledgement for a SETTINGS frame that is not itself an
  acknowledgement, one PING acknowledgement with the same eight bytes for a PING that is not,
  and nothing for any other frame. Processing fails only for a HEADERS frame whose block the
  HPACK decoder rejects, and then nothing but the decoder's table has changed.
\<close>

lemma frame_answers:
  "outgoing (fst (process_frame f c)) = outgoing c @
     (case f of Settings False _ \<Rightarrow> [Settings True []] | Ping False data \<Rightarrow> [Ping True data] | _ \<Rightarrow> [])
   \<and> (\<forall>e. snd (process_frame f c) = Inl e \<longrightarrow>
        (\<exists>sid es eh block d g. f = Headers sid es eh block
           \<and> hpack_decode (hpack_dec c) block = (d, Inl g)
           \<and> e = map_fault ProtocolError g \<and> fst (process_frame f c) = c\<lparr>hpack_dec := d\<rparr>))"
proof
  have "replies f = (case f of Settings False _ \<Rightarrow> [Settings True []]
      | Ping False data \<Rightarrow> [Ping True data] | _ \<Rightarrow> [])"
    by (induction f rule: replies.induct) simp_all
  then show "outgoing (fst (process_frame f c)) = outgoing c @
     (case f of Settings False _ \<Rightarrow> [Settings True []] | Ping False data \<Rightarrow> [Ping True data] | _ \<Rightarrow> [])"
    by (simp add: process_frame_outgoing)
  show "\<forall>e. snd (process_frame f c) = Inl e \<longrightarrow>
        (\<exists>sid es eh block d g. f = Headers sid es eh block
           \<and> hpack_decode (hpack_dec c) block = (d, Inl g)
           \<and> e = map_fault ProtocolError g \<and> fst (process_frame f c) = c\<lparr>hpack_dec := d\<rparr>)"
    by (cases f) (auto simp: process_frame_def process_headers_def Let_def
        split: prod.splits sum.splits fault.splits)
qed

theorem frame_answers_witness:
  "outgoing (fst (process_frame (Ping False [1, 2, 3, 4, 5, 6, 7, 8]) (connection_new h2_settings_default)))
     = [Ping True [1, 2, 3, 4, 5, 6, 7, 8]]"
  using frame_answers [of "Ping False [1, 2, 3, 4, 5, 6, 7, 8]" "connection_new h2_settings_default"]
  by (simp add: connection_new_def Let_def)

text \<open>
  C7: Requests arrive intact, whatever the boundaries at which their bytes come in. If a client
  whose encoder starts from the connection's decoder table sends any list of requests, one
  HEADERS frame each, on distinct streams, and the bytes are received in any chunks, then the
  frames parsed are exactly those sent, and after processing them every stream holds the
  headers the client gave.
\<close>

theorem requests_arrive:
  assumes "\<forall>(sid, e, hs) \<in> set reqs. \<forall>h \<in> set hs. header_ok h"
    and "\<forall>f \<in> set (client_frames (hpack_dec c) reqs). frame_wf f"
    and "distinct (map fst reqs)"
    and "concat chunks = concat (map (\<lambda>f. frame_serialize f []) (client_frames (hpack_dec c) reqs))"
  shows "\<exists>fs. feed_all frame_parse [] chunks = (fs, [], None) \<and>
    (\<forall>(sid, e, hs) \<in> set reqs. \<exists>s. get_stream sid (process_all fs c) = Some s \<and> request_headers s = hs)"
proof (intro exI conjI)
  have "(\<lambda>f. frame_serialize f []) = frame_bytes" by (rule ext) (simp add: frame_bytes_def)
  with assms(2,4) h2.parse_nothing
  show "feed_all frame_parse [] chunks = (client_frames (hpack_dec c) reqs, [], None)"
    by (intro h2.chunked_stream) simp_all
  show "\<forall>(sid, e, hs) \<in> set reqs. \<exists>s. get_stream sid (process_all (client_frames (hpack_dec c) reqs) c)
      = Some s \<and> request_headers s = hs"
    using client_requests_arrive [OF assms(1,3)] by blast
qed

lemma encode_index_2: "hpack_encode t [(lit '':method'', lit ''GET'')] = (t, [0x82])"
  by (simp add: find_static_def STATIC_TABLE_def lit_def encode_integer_def push_bit_eq_mult)

theorem requests_arrive_witness:
  "\<exists>fs. feed_all frame_parse [] [[0, 0, 1, 1, 5], [0, 0, 0, 3, 0x82]] = (fs, [], None) \<and>
    (\<exists>s. get_stream 3 (process_all fs (connection_new h2_settings_default)) = Some s
      \<and> request_headers s = [(lit '':method'', lit ''GET'')])"
proof -
  let ?c = "connection_new h2_settings_default"
  have cf: "client_frames (hpack_dec ?c) [(3, True, [(lit '':method'', lit ''GET'')])] = [Headers 3 True True [0x82]]"
    unfolding client_frames.simps encode_index_2 by simp
  have "header_ok (lit '':method'', lit ''GET'')"
    by (simp add: lit_def valid_utf8_ascii_Cons)
  moreover have "concat [[0, 0, 1, 1, 5], [0, 0, 0, 3, 0x82]] = frame_serialize (Headers 3 True True [0x82]) []"
    by (simp add: frame_serialize_def put_u32_def END_STREAM_def END_HEADERS_def drop_bit_eq_div)
  ultimately show ?thesis
    using requests_arrive [of "[(3, True, [(lit '':method'', lit ''GET'')])]" ?c
      "[[0, 0, 1, 1, 5], [0, 0, 0, 3, 0x82]]"]
    unfolding cf by simp
qed

text \<open>
  Responses arrive intact. The header lists given to successive calls of \<open>send_headers\<close>
  are queued as HEADERS frames in order, and a peer whose decoder has the same table as the
  connection's encoder decodes them to exactly these lists, stream by stream.
\<close>

lemma response_headers_arrive:
  assumes "\<forall>(sid, hs, e) \<in> set resps. \<forall>h \<in> set hs. header_ok h"
  shows "\<exists>fs. outgoing (fold (\<lambda>(sid, hs, e). send_headers sid hs e) resps c) = outgoing c @ fs
    \<and> peer_headers (hpack_enc c) fs = map (\<lambda>(sid, hs, e). (sid, Inr hs)) resps"
  using assms by (rule responses_arrive)

theorem response_headers_arrive_witness:
  "\<exists>fs. outgoing (send_headers 1 [(lit ''x'', lit ''y'')] True (connection_new h2_settings_default)) = fs
    \<and> peer_headers (hpack_new 4096) fs = [(1, Inr [(lit ''x'', lit ''y'')])]"
  using response_headers_arrive [of "[(1, [(lit ''x'', lit ''y'')], True)]" "connection_new h2_settings_default"]
  by (simp add: lit_def valid_utf8_ascii_Cons) (simp add: connection_new_def h2_settings_default_def Let_def)

text \<open>
  C21: A request body is the data sent on its stream, whatever is interleaved. When a stream is
  receiving, and any frames follow except new HEADERS on it (data and headers of other streams,
  settings, pings, even frames that fail), its body is extended by exactly the payloads of its
  own DATA frames up to the first that ends the stream or to a reset, in order, and its headers
  are unchanged.
\<close>

theorem request_body_collected:
  assumes "\<forall>f \<in> set fs. \<not> headers_of sid f" and "get_stream sid c = Some s" and "can_receive s"
  shows "\<exists>s'. get_stream sid (process_all fs c) = Some s'
    \<and> request_body s' = request_body s @ body_of sid fs \<and> request_headers s' = request_headers s"
  using assms by (rule receiving_request)

theorem request_body_collected_witness:
  "\<exists>s'. get_stream 1 (process_all
      [Data 1 False [7], Data 3 True [1], Data 1 True [8], Data 1 True [9]]
      (fst (process_headers 1 False [] (connection_new h2_settings_default)))) = Some s'
    \<and> request_body s' = [7, 8] \<and> request_headers s' = []"
proof -
  let ?c = "fst (process_headers 1 False [] (connection_new h2_settings_default))"
  have dec: "hpack_decode t [] = (t, Inr [])" for t
    by (simp add: hpack_decode_def hpack_decode_from.simps [of _ "[]"])
  have s: "get_stream 1 ?c = Some (stream_open (stream_new 1 65535))"
    by (simp add: process_headers_def dec connection_new_def get_stream_def hm_get_insert Let_def
        h2_settings_default_def u32_as_i32_def i32_wrap_def stream_open_def stream_new_def)
  show ?thesis
    using request_body_collected [OF _ s, of "[Data 1 False [7], Data 3 True [1], Data 1 True [8], Data 1 True [9]]"]
    by (simp add: stream_open_def stream_new_def can_receive_def)
qed

text \<open>
  A stream is never forgotten and never goes back. Across any call a stream of the
  connection stays in the map and its state moves only along the transition relation, so it
  moves up in the order of states; once closed it stays closed, even when HEADERS arrive for it
  again.
\<close>

lemma connection_stream_progress:
  assumes "h2_apply ev (c, sent) = (c', sent')" and "get_stream sid c = Some s"
  shows "\<exists>s'. get_stream sid c' = Some s' \<and> stream_step\<^sup>*\<^sup>* (s_state s) (s_state s')
    \<and> s_state s \<le> s_state s' \<and> (s_state s = Closed \<longrightarrow> s_state s' = Closed)"
  using streams_progress_apply [OF assms(1)] assms(2) stream_steps_mono stream_steps_closed
  unfolding streams_progress_def get_stream_def by metis

theorem connection_stream_progress_witness:
  "\<exists>s'. get_stream 1 (fst (process_frame (Headers 1 False True [0xFF])
      (connection_new h2_settings_default \<lparr>streams := [(1, stream_close (stream_new 1 5))]\<rparr>))) = Some s'
    \<and> s_state s' = Closed"
  using connection_stream_progress [of "EvFrame (Headers 1 False True [0xFF])"
      "connection_new h2_settings_default \<lparr>streams := [(1, stream_close (stream_new 1 5))]\<rparr>" "[]"
      _ "[]" 1 "stream_close (stream_new 1 5)"]
  by (auto simp: get_stream_def hm_get_def stream_close_def)

text \<open>
  A change of the peer's initial window shifts the window of every open stream by the
  difference. After a SETTINGS frame with any number of window settings below \<open>2 ^ 31\<close>, and as
  long as no intermediate window leaves the range of \<open>i32\<close>, each existing stream's send window
  has changed by exactly the new initial window minus the old one; the intermediate values
  cancel out.
\<close>

lemma settings_shift_windows:
  assumes "get_stream sid c = Some s" and "uint (initial_window_size (remote_settings c)) < 2 ^ 31"
    and "\<forall>w \<in> set (window_settings ss). uint w < 2 ^ 31 \<and>
      is_i32 (s_send_window s + (uint w - uint (initial_window_size (remote_settings c))))"
    and "process_frame (Settings False ss) c = (c', r)"
  shows "\<exists>s'. get_stream sid c' = Some s' \<and> s_send_window s' = s_send_window s
    + (uint (initial_window_size (remote_settings c')) - uint (initial_window_size (remote_settings c)))"
  using settings_windows [OF assms(1) [unfolded get_stream_def] assms(2,3)] assms(4)
  by (auto simp: process_frame_def process_settings_def Let_def get_stream_def)

theorem settings_shift_windows_witness:
  "\<exists>s'. get_stream 1 (fst (process_frame (Settings False [(4, 10), (4, 100)])
      (connection_new h2_settings_default \<lparr>streams := [(1, stream_new 1 65535)]\<rparr>))) = Some s'
    \<and> s_send_window s' = 100"
proof -
  let ?c = "connection_new h2_settings_default \<lparr>streams := [(1, stream_new 1 65535)]\<rparr>"
  have "get_stream 1 ?c = Some (stream_new 1 65535)" by (simp add: get_stream_def hm_get_def)
  from settings_shift_windows [OF this, of "[(4, 10), (4, 100)]" "fst (process_frame (Settings False [(4, 10), (4, 100)]) ?c)"
      "snd (process_frame (Settings False [(4, 10), (4, 100)]) ?c)"]
  show ?thesis
    by (simp add: connection_new_def h2_settings_default_def stream_new_def is_i32_def Let_def)
      (simp add: process_frame_def process_settings_def apply_setting_def Let_def)
qed

text \<open>
  A stream opened later ignores the peer's window. A stream that a HEADERS frame creates
  starts with a send window of the connection's own \<open>initial_window_size\<close>, whatever initial
  window the peer has announced before in any SETTINGS frames. (The send window of a new stream
  should start at the peer's value; existing streams are adjusted to it.)
\<close>

lemma new_stream_window_is_local:
  assumes "h2_run settings c sent" and "get_stream sid c = None"
    and "process_frame (Headers sid es eh block) c = (c', Inr ())"
  shows "\<exists>s. get_stream sid c' = Some s
    \<and> s_send_window s = u32_as_i32 (initial_window_size settings)"
proof -
  from h2_run_wf [OF assms(1)] have "local_settings c = settings" by (simp add: connection_wf_def)
  with assms(2,3) show ?thesis
    by (auto simp: process_frame_def process_headers_def get_stream_def Let_def hm_get_insert
        stream_new_def split: prod.splits sum.splits fault.splits)
qed

theorem new_stream_window_is_local_witness:
  "\<exists>s. get_stream 1 (fst (process_frame (Headers 1 True True [])
       (fst (process_frame (Settings False [(4, 10)]) (connection_new h2_settings_default))))) = Some s
    \<and> s_send_window s = 65535"
proof -
  let ?c = "fst (process_frame (Settings False [(4, 10)]) (connection_new h2_settings_default))"
  have run: "h2_run h2_settings_default ?c []"
    by (rule run_event [of _ "connection_new h2_settings_default" "[]" "EvFrame (Settings False [(4, 10)])"])
      (auto intro: run_new)
  have dec: "hpack_decode t [] = (t, Inr [])" for t
    by (simp add: hpack_decode_def hpack_decode_from.simps [of _ "[]"])
  have none: "get_stream 1 ?c = None"
    by (simp add: process_frame_def process_settings_def apply_setting_def connection_new_def
        get_stream_def hm_map_def Let_def)
  have "process_frame (Headers 1 True True []) ?c = (fst (process_frame (Headers 1 True True []) ?c), Inr ())"
    by (simp add: process_frame_def [of "Headers 1 True True []"] process_headers_def dec Let_def)
  from new_stream_window_is_local [OF run none this] show ?thesis
    by (simp add: h2_settings_default_def u32_as_i32_def i32_wrap_def)
qed

text \<open>
  \<open>max_concurrent_streams\<close> is announced but not enforced. For any connection and any number
  of identifiers it has not seen, one HEADERS frame for each opens a stream for each: the
  active streams grow by that number, beyond any limit in the settings.
\<close>

lemma concurrent_streams_unlimited:
  assumes "distinct sids" and "\<forall>k \<in> set sids. get_stream k c = None"
  shows "active_stream_count (process_all (map (\<lambda>k. Headers k False True []) sids) c)
    = active_stream_count c + length sids"
  using assms by (rule open_streams_count)

theorem concurrent_streams_unlimited_witness:
  "active_stream_count (process_all (map (\<lambda>k. Headers k False True []) [1, 3])
     (connection_new (h2_settings_default \<lparr>max_concurrent_streams := 1\<rparr>))) = 2"
  using concurrent_streams_unlimited [of "[1, 3]" "connection_new (h2_settings_default \<lparr>max_concurrent_streams := 1\<rparr>)"]
  by (simp add: connection_new_def get_stream_def active_stream_count_def Let_def)

end
