(* ===== verification/Rust_Str.thy ===== *)
theory Rust_Str
  imports Utf8
begin

text \<open>
  The methods of \<open>str\<close> that the HTTP code relies on, on UTF-8 byte lists: searching, lines,
  white space, decimal numbers and lower case. The lemmas say what they give on text put
  together from lines, words and numbers.
\<close>

section \<open>Searching\<close>

text \<open>\<open>find\<close> of a non-empty pattern: the first position at which it occurs.\<close>

fun find_str :: "str \<Rightarrow> str \<Rightarrow> usize option" where
  "find_str pat [] = None"
| "find_str pat (b # bs) =
     (if take (length pat) (b # bs) = pat then Some 0 else map_option Suc (find_str pat bs))"

lemma find_str_skip:
  "pat \<noteq> [] \<Longrightarrow> hd pat \<notin> set xs \<Longrightarrow>
   find_str pat (xs @ ys) = map_option (\<lambda>n. n + length xs) (find_str pat ys)"
proof (induction xs)
  case Nil
  then show ?case by (simp add: option.map_ident)
next
  case (Cons x xs)
  then have "take (length pat) (x # xs @ ys) \<noteq> pat" by (cases pat) auto
  with Cons show ?case by (cases "find_str pat ys") simp_all
qed

lemma find_str_here: "find_str (p # pat) ((p # pat) @ ys) = Some 0"
  by simp

lemma find_str_bound: "pat \<noteq> [] \<Longrightarrow> find_str pat s = Some i \<Longrightarrow> i + length pat \<le> length s"
proof (induction s arbitrary: i)
  case (Cons b bs)
  show ?case
  proof (cases "take (length pat) (b # bs) = pat")
    case True
    then have "length pat \<le> length (b # bs)" by (metis length_take min.cobounded1)
    with True Cons.prems show ?thesis by simp
  next
    case False
    with Cons.prems obtain j where "find_str pat bs = Some j" "i = Suc j" by auto
    with Cons.IH [OF Cons.prems(1)] show ?thesis by fastforce
  qed
qed simp

lemma find_str_take:
  assumes "pat \<noteq> []" and "find_str pat (take n s) = Some i"
  shows "find_str pat s = Some i \<and> i + length pat \<le> n"
  using assms(2)
proof (induction s arbitrary: n i)
  case (Cons b bs)
  then obtain m where n: "n = Suc m" by (cases n) auto
  show ?case
  proof (cases "take (length pat) (take n (b # bs)) = pat")
    case True
    from arg_cong [OF this, of length] have "length pat \<le> n" by simp
    moreover from this True have "take (length pat) (b # bs) = pat" by (simp only: take_take min_absorb1)
    ultimately show ?thesis using True Cons.prems n by simp
  next
    case False
    with Cons.prems n obtain j where j: "find_str pat (take m bs) = Some j" "i = Suc j" by auto
    from Cons.IH [OF j(1)] have IH: "find_str pat bs = Some j" "j + length pat \<le> m" by simp_all
    then have "length pat \<le> n" using n by simp
    with False have "take (length pat) (b # bs) \<noteq> pat" by (simp only: take_take min_absorb1 not_False_eq_True)
    with IH j(2) n show ?thesis by simp
  qed
qed simp

section \<open>Lines\<close>

abbreviation CR :: u8 where "CR \<equiv> 13"
abbreviation LF :: u8 where "LF \<equiv> 10"
abbreviation CRLF :: str where "CRLF \<equiv> [CR, LF]"

fun split_inclusive_lf :: "str \<Rightarrow> str list" where
  "split_inclusive_lf [] = []"
| "split_inclusive_lf (b # bs) =
     (if b = LF then [b] # split_inclusive_lf bs
      else case split_inclusive_lf bs of [] \<Rightarrow> [[b]] | l # ls \<Rightarrow> (b # l) # ls)"

definition strip_line_ending :: "str \<Rightarrow> str" where
  "strip_line_ending l =
     (if l \<noteq> [] \<and> last l = LF then
        let l = butlast l in if l \<noteq> [] \<and> last l = CR then butlast l else l
      else l)"

definition str_lines :: "str \<Rightarrow> str list" where
  "str_lines s = map strip_line_ending (split_inclusive_lf s)"

text \<open>Lines joined by CR LF.\<close>

fun join_crlf :: "str list \<Rightarrow> str" where
  "join_crlf [] = []"
| "join_crlf [l] = l"
| "join_crlf (l # ls) = l @ CRLF @ join_crlf ls"

definition line_ok :: "str \<Rightarrow> bool" where
  "line_ok l \<longleftrightarrow> l \<noteq> [] \<and> CR \<notin> set l \<and> LF \<notin> set l"

lemma split_inclusive_lf_line:
  "LF \<notin> set l \<Longrightarrow> split_inclusive_lf (l @ LF # s) = (l @ [LF]) # split_inclusive_lf s"
  by (induction l) auto

lemma split_inclusive_lf_last: "LF \<notin> set l \<Longrightarrow> l \<noteq> [] \<Longrightarrow> split_inclusive_lf l = [l]"
proof (induction l)
  case (Cons b l)
  then show ?case by (cases "l = []") simp_all
qed simp

lemma str_lines_join:
  "\<forall>l \<in> set ls. line_ok l \<Longrightarrow> str_lines (join_crlf ls) = ls"
proof (induction ls rule: join_crlf.induct)
  case (2 l)
  then have "split_inclusive_lf l = [l]" by (intro split_inclusive_lf_last) (simp_all add: line_ok_def)
  with 2 show ?case by (auto simp: str_lines_def strip_line_ending_def line_ok_def dest: last_in_set)
next
  case (3 l l2 ls)
  then have "split_inclusive_lf ((l @ [CR]) @ LF # join_crlf (l2 # ls)) =
      ((l @ [CR]) @ [LF]) # split_inclusive_lf (join_crlf (l2 # ls))"
    by (intro split_inclusive_lf_line) (simp add: line_ok_def)
  moreover have "strip_line_ending ((l @ [CR]) @ [LF]) = l"
    by (simp add: strip_line_ending_def butlast_append)
  ultimately show ?case using 3 by (simp add: str_lines_def)
qed (simp add: str_lines_def)

text \<open>The first empty line ends a block of non-empty lines.\<close>

lemma find_blank_line:
  "\<forall>l \<in> set ls. line_ok l \<Longrightarrow> ls \<noteq> [] \<Longrightarrow>
   find_str (CRLF @ CRLF) (join_crlf ls @ CRLF @ CRLF @ rest) = Some (length (join_crlf ls))"
proof (induction ls rule: join_crlf.induct)
  case (2 l)
  then have "CR \<notin> set l" by (simp add: line_ok_def)
  with find_str_skip [of "CRLF @ CRLF" l "CRLF @ CRLF @ rest"] show ?case by simp
next
  case (3 l l2 ls)
  then have l: "CR \<notin> set l" and ok: "\<forall>k \<in> set (l2 # ls). line_ok k" by (auto simp: line_ok_def)
  obtain c cs where j: "join_crlf (l2 # ls) = c # cs" "c \<noteq> CR"
    using ok by (cases ls; cases l2) (auto simp: line_ok_def)
  from 3 ok have "find_str (CRLF @ CRLF) (join_crlf (l2 # ls) @ CRLF @ CRLF @ rest)
      = Some (length (join_crlf (l2 # ls)))" by blast
  then have "find_str (CRLF @ CRLF) (CRLF @ join_crlf (l2 # ls) @ CRLF @ CRLF @ rest)
      = Some (2 + length (join_crlf (l2 # ls)))"
    using j by simp
  with find_str_skip [of "CRLF @ CRLF" l "CRLF @ join_crlf (l2 # ls) @ CRLF @ CRLF @ rest"] l
  show ?case by simp
qed simp

lemma find_first_line:
  assumes "CR \<notin> set l"
  shows "find_str CRLF (l @ CRLF @ s) = Some (length l)"
  using find_str_skip [of CRLF l "CRLF @ s"] assms by simp

section \<open>White space\<close>

text \<open>The characters with the Unicode property \<open>White_Space\<close>, in UTF-8.\<close>

definition is_whitespace :: "bytes \<Rightarrow> bool" where
  "is_whitespace c \<longleftrightarrow>
     c \<in> {[0x09], [0x0A], [0x0B], [0x0C], [0x0D], [0x20], [0xC2, 0x85], [0xC2, 0xA0],
       [0xE1, 0x9A, 0x80], [0xE2, 0x80, 0x80], [0xE2, 0x80, 0x81], [0xE2, 0x80, 0x82],
       [0xE2, 0x80, 0x83], [0xE2, 0x80, 0x84], [0xE2, 0x80, 0x85], [0xE2, 0x80, 0x86],
       [0xE2, 0x80, 0x87], [0xE2, 0x80, 0x88], [0xE2, 0x80, 0x89], [0xE2, 0x80, 0x8A],
       [0xE2, 0x80, 0xA8], [0xE2, 0x80, 0xA9], [0xE2, 0x80, 0xAF], [0xE2, 0x81, 0x9F],
       [0xE3, 0x80, 0x80]}"

fun words_from :: "bytes list \<Rightarrow> str \<Rightarrow> str list" where
  "words_from [] cur = (if cur = [] then [] else [cur])"
| "words_from (c # cs) cur =
     (if is_whitespace c then (if cur = [] then words_from cs [] else cur # words_from cs [])
      else words_from cs (cur @ c))"

definition split_whitespace :: "str \<Rightarrow> str list" where
  "split_whitespace s = words_from (utf8_chars s) []"

definition trim :: "str \<Rightarrow> str" where
  "trim s = concat (rev (dropWhile is_whitespace (rev (dropWhile is_whitespace (utf8_chars s)))))"

text \<open>A token: ASCII without white space.\<close>

definition token :: "str \<Rightarrow> bool" where
  "token s \<longleftrightarrow> s \<noteq> [] \<and> is_ascii s \<and> (\<forall>b \<in> set s. \<not> is_whitespace [b])"

lemma is_whitespace_space [simp]: "is_whitespace [32]"
  by (simp add: is_whitespace_def)

lemma words_from_token:
  "\<forall>b \<in> set s. \<not> is_whitespace [b] \<Longrightarrow> words_from (map (\<lambda>b. [b]) s @ cs) cur = words_from cs (cur @ s)"
  by (induction s arbitrary: cur) auto

lemma split_whitespace_three:
  assumes "token a" and "token b" and "token c"
  shows "split_whitespace (a @ [32] @ b @ [32] @ c) = [a, b, c]"
proof -
  have "is_ascii (a @ [32] @ b @ [32] @ c)" using assms by (simp add: token_def)
  from utf8_chars_ascii [OF this] assms show ?thesis
    using words_from_token [of c "[]" "[]"]
    by (simp add: split_whitespace_def token_def words_from_token)
qed

lemma dropWhile_ws:
  "xs \<noteq> [] \<Longrightarrow> \<not> is_whitespace [hd xs] \<Longrightarrow>
   dropWhile is_whitespace (map (\<lambda>b. [b]) xs) = map (\<lambda>b. [b]) xs"
  by (cases xs) auto

lemma concat_singletons: "concat (map (\<lambda>b. [b]) xs) = xs"
  by (induction xs) auto

text \<open>Text that neither starts nor ends with white space, or is empty.\<close>

definition trimmed :: "str \<Rightarrow> bool" where
  "trimmed s \<longleftrightarrow> is_ascii s \<and> (s = [] \<or> \<not> is_whitespace [hd s] \<and> \<not> is_whitespace [last s])"

lemma trim_trimmed:
  assumes "trimmed s"
  shows "trim s = s" and "trim (32 # s) = s"
proof -
  have ascii: "is_ascii s" using assms by (simp add: trimmed_def)
  have "concat (rev (dropWhile is_whitespace (rev (dropWhile is_whitespace (map (\<lambda>b. [b]) s))))) = s"
  proof (cases "s = []")
    case False
    then have "dropWhile is_whitespace (map (\<lambda>b. [b]) (rev s)) = map (\<lambda>b. [b]) (rev s)"
      using assms by (intro dropWhile_ws) (simp_all add: trimmed_def hd_rev)
    with False assms show ?thesis
      by (simp add: dropWhile_ws trimmed_def concat_singletons flip: rev_map)
  qed simp
  with ascii show "trim s = s" and "trim (32 # s) = s"
    by (simp_all add: trim_def utf8_chars_ascii utf8_chars_ascii_Cons)
qed

section \<open>Lower case\<close>

text \<open>
  \<open>to_lowercase\<close> maps the ASCII letters; the mapping of strings with other characters is that
  of the Unicode tables of the standard library, a parameter.
\<close>

definition ascii_lower :: "u8 \<Rightarrow> u8" where
  "ascii_lower b = (if 0x41 \<le> b \<and> b \<le> 0x5A then b + 32 else b)"

definition to_lowercase :: "(str \<Rightarrow> str) \<Rightarrow> str \<Rightarrow> str" where
  "to_lowercase unicode_lower s =
     (if is_ascii s then map ascii_lower s else unicode_lower s)"

section \<open>Decimal numbers\<close>

definition is_digit :: "u8 \<Rightarrow> bool" where
  "is_digit b \<longleftrightarrow> 0x30 \<le> b \<and> b \<le> 0x39"

definition digits_value :: "str \<Rightarrow> nat" where
  "digits_value s = foldl (\<lambda>n b. n * 10 + (unat b - 48)) 0 s"

text \<open>\<open>parse::<usize>()\<close>: an optional plus sign, then digits without overflow.\<close>

definition parse_usize :: "str \<Rightarrow> usize option" where
  "parse_usize s =
     (let digits = (case s of b # r \<Rightarrow> if b = 0x2B then r else s | [] \<Rightarrow> []) in
      if digits \<noteq> [] \<and> (\<forall>b \<in> set digits. is_digit b) \<and> digits_value digits < 2 ^ 64
      then Some (digits_value digits) else None)"

lemma show_nat_unfold:
  "show_nat n = (if n < 10 then [] else show_nat (n div 10)) @ [of_nat (48 + n mod 10)]"
  by (subst show_nat.simps) simp

lemma unat_digit: "d < 10 \<Longrightarrow> unat (of_nat (48 + d) :: u8) = 48 + d"
  by (simp add: unat_of_nat del: of_nat_add)

lemma digit_is_digit: "d < 10 \<Longrightarrow> is_digit (of_nat (48 + d))"
  unfolding is_digit_def word_le_nat_alt by (simp only: unat_digit) simp

lemma show_nat_digits: "show_nat n \<noteq> [] \<and> (\<forall>b \<in> set (show_nat n). is_digit b)"
proof (induction n rule: less_induct)
  case (less n)
  have "\<forall>b \<in> set (show_nat (n div 10)). is_digit b" if "10 \<le> n"
    using less [of "n div 10"] that by simp
  moreover have "is_digit (of_nat (48 + n mod 10))" by (rule digit_is_digit) simp
  ultimately show ?case by (subst (1 2) show_nat_unfold) (auto simp del: of_nat_add)
qed

lemma digits_value_show: "digits_value (show_nat n) = n"
proof (induction n rule: less_induct)
  case (less n)
  have "digits_value (s @ [of_nat (48 + n mod 10)]) = digits_value s * 10 + n mod 10" for s
    unfolding digits_value_def by (simp only: foldl_append foldl.simps unat_digit [OF mod_less_divisor] zero_less_numeral diff_add_inverse)
  with less show ?case
    by (subst show_nat_unfold) (auto simp del: of_nat_add simp: digits_value_def [of "[]"])
qed

lemma parse_usize_show: "n < 2 ^ 64 \<Longrightarrow> parse_usize (show_nat n) = Some n"
proof -
  assume n: "n < 2 ^ 64"
  obtain b r where s: "show_nat n = b # r" "is_digit b"
    using show_nat_digits [of n] by (cases "show_nat n") auto
  then have "b \<noteq> 0x2B" by (auto simp: is_digit_def)
  with s(1) have "(case show_nat n of b # r \<Rightarrow> if b = 0x2B then r else show_nat n | [] \<Rightarrow> []) = show_nat n"
    by simp
  with n show_nat_digits [of n] show ?thesis
    unfolding parse_usize_def Let_def by (simp add: digits_value_show)
qed

end
