(* ===== verification/Http_Parser.thy ===== *)
theory Http_Parser
  imports Rust_Str
begin

text \<open>
  The HTTP/1.1 request parser: \<open>ners-proto-http/src/parser.rs\<close>. \<open>HttpParser::parse\<close> on the whole
  receive buffer. The lemmas compute its result on a request head followed by any body, from
  which follow the round trip, the answer on every prefix, and the inputs it mistreats.
\<close>

section \<open>Data\<close>

datatype parse_error = Incomplete | Invalid str

record http_request =
  rq_method :: str
  rq_path :: str
  rq_version :: str
  rq_headers :: "(str \<times> str) list"
  rq_body :: bytes

section \<open>Parsing\<close>

text \<open>One header line; a line without a colon is skipped.\<close>

definition parse_header_line ::
    "(str \<Rightarrow> str) \<Rightarrow> str \<Rightarrow> (str \<times> str) list \<Rightarrow> (str \<times> str) list" where
  "parse_header_line unicode_lower line headers =
     (case find_str [0x3A] line of
        None \<Rightarrow> headers
      | Some colon_pos \<Rightarrow>
          let key = to_lowercase unicode_lower (trim (take colon_pos line));
              value = trim (drop (colon_pos + 1) line)
          in hm_insert key value headers)"

definition content_length :: "(str \<times> str) list \<Rightarrow> usize" where
  "content_length headers =
     (case Option.bind (hm_get (lit ''content-length'') headers) parse_usize of
        Some n \<Rightarrow> n
      | None \<Rightarrow> 0)"

definition http_parse ::
    "(str \<Rightarrow> str) \<Rightarrow> bytes \<Rightarrow> (parse_error, http_request \<times> usize) result" where
  "http_parse unicode_lower buf =
     (if \<not> valid_utf8 buf then Inl (Error (Invalid (lit ''Invalid UTF-8'')))
      else case find_str (CRLF @ CRLF) buf of
        None \<Rightarrow> Inl (Error Incomplete)
      | Some header_end \<Rightarrow>
          let headers_data = take header_end buf in
          (case find_str CRLF headers_data of
             None \<Rightarrow> Inl (Error Incomplete)
           | Some first_line_end \<Rightarrow>
               let request_line = take first_line_end headers_data;
                   parts = split_whitespace request_line
               in
               if length parts < 3 then Inl (Error (Invalid (lit ''Invalid request line'')))
               else
                 let headers = fold (parse_header_line unicode_lower)
                       (str_lines (drop (first_line_end + 2) headers_data)) [];
                     n = content_length headers;
                     body_start = header_end + 4;
                     total_length = usize_add body_start n
                 in
                 if length buf < total_length then Inl (Error Incomplete)
                 else
                   (case (if 0 < n then slice buf body_start total_length else Inr []) of
                      Inl e \<Rightarrow> Inl e
                    | Inr body \<Rightarrow>
                        Inr (\<lparr> rq_method = parts ! 0, rq_path = parts ! 1, rq_version = parts ! 2,
                               rq_headers = headers, rq_body = body \<rparr>, total_length))))"

section \<open>Requests as text\<close>

definition header_line :: "str \<times> str \<Rightarrow> str" where
  "header_line kv = fst kv @ [0x3A, 0x20] @ snd kv"

definition request_lines :: "str \<Rightarrow> str \<Rightarrow> str \<Rightarrow> (str \<times> str) list \<Rightarrow> str list" where
  "request_lines m p v hs = (m @ [0x20] @ p @ [0x20] @ v) # map header_line hs"

definition request_head :: "str \<Rightarrow> str \<Rightarrow> str \<Rightarrow> (str \<times> str) list \<Rightarrow> str" where
  "request_head m p v hs = join_crlf (request_lines m p v hs) @ CRLF @ CRLF"

text \<open>A header a request may carry: an ASCII name without a colon, a value on one line.\<close>

definition header_wf :: "str \<times> str \<Rightarrow> bool" where
  "header_wf kv \<longleftrightarrow> token (fst kv) \<and> 0x3A \<notin> set (fst kv)
     \<and> trimmed (snd kv) \<and> CR \<notin> set (snd kv) \<and> LF \<notin> set (snd kv)"

text \<open>The header map of a request: names in lower case, the last of equal names wins.\<close>

definition header_map :: "(str \<times> str) list \<Rightarrow> (str \<times> str) list" where
  "header_map hs = fold (\<lambda>(k, v). hm_insert (map ascii_lower k) v) hs []"

lemma token_no_newline: "token s \<Longrightarrow> CR \<notin> set s \<and> LF \<notin> set s \<and> s \<noteq> [] \<and> is_ascii s"
  by (auto simp: token_def is_whitespace_def)

lemma trimmed_token: "token s \<Longrightarrow> trimmed s"
  by (auto simp: token_def trimmed_def)

lemma parse_header_line_wf:
  assumes "header_wf (k, v)"
  shows "parse_header_line low (header_line (k, v)) headers = hm_insert (map ascii_lower k) v headers"
proof -
  have "find_str [0x3A] (k @ [0x3A, 0x20] @ v) = Some (length k)"
    using find_str_skip [of "[0x3A]" k "[0x3A, 0x20] @ v"] assms by (simp add: header_wf_def)
  moreover have "trim k = k" "is_ascii k"
    using assms trim_trimmed(1) [OF trimmed_token] by (simp_all add: header_wf_def token_def)
  moreover have "trim (0x20 # v) = v" using assms trim_trimmed(2) by (simp add: header_wf_def)
  ultimately show ?thesis by (simp add: parse_header_line_def header_line_def to_lowercase_def)
qed

lemma fold_header_lines:
  "\<forall>h \<in> set hs. header_wf h \<Longrightarrow>
   fold (parse_header_line low) (map header_line hs) m = fold (\<lambda>(k, v). hm_insert (map ascii_lower k) v) hs m"
  by (induction hs arbitrary: m) (auto simp: parse_header_line_wf)

lemma request_lines_ok:
  assumes "token m" and "token p" and "token v" and "\<forall>h \<in> set hs. header_wf h"
  shows "\<forall>l \<in> set (request_lines m p v hs). line_ok l"
proof -
  have "line_ok (m @ [0x20] @ p @ [0x20] @ v)"
    using assms(1-3) [THEN token_no_newline] by (simp add: line_ok_def)
  moreover have "line_ok (header_line h)" if "h \<in> set hs" for h
    using assms(4) that token_no_newline [of "fst h"] by (auto simp: line_ok_def header_line_def header_wf_def)
  ultimately show ?thesis by (auto simp: request_lines_def)
qed

lemma is_ascii_join: "\<forall>l \<in> set ls. is_ascii l \<Longrightarrow> is_ascii (join_crlf ls)"
  by (induction ls rule: join_crlf.induct) auto

lemma request_head_ascii:
  assumes "token m" and "token p" and "token v" and "\<forall>h \<in> set hs. header_wf h"
  shows "is_ascii (request_head m p v hs)"
proof -
  have "is_ascii l" if "l \<in> set (request_lines m p v hs)" for l
    using that assms
    by (auto simp: request_lines_def header_line_def header_wf_def token_def trimmed_def)
  then show ?thesis by (simp add: request_head_def is_ascii_join)
qed

text \<open>The result on a whole head and any well-formed text behind it.\<close>

lemma http_parse_head:
  assumes tok: "token m" "token p" "token v" and hs: "\<forall>h \<in> set hs. header_wf h" "hs \<noteq> []"
    and valid: "valid_utf8 body"
  shows "http_parse low (request_head m p v hs @ body) =
    (let n = content_length (header_map hs); start = length (request_head m p v hs);
         total = usize_add start n
     in if length (request_head m p v hs @ body) < total then Inl (Error Incomplete)
        else case (if 0 < n then slice (request_head m p v hs @ body) start total else Inr []) of
          Inl e \<Rightarrow> Inl e
        | Inr b \<Rightarrow> Inr (\<lparr> rq_method = m, rq_path = p, rq_version = v, rq_headers = header_map hs,
                          rq_body = b \<rparr>, total))"
proof -
  let ?ls = "request_lines m p v hs"
  define r where "r = m @ [0x20] @ p @ [0x20] @ v"
  let ?buf = "request_head m p v hs @ body"
  have ok: "\<forall>l \<in> set ?ls. line_ok l" using request_lines_ok [OF tok hs(1)] .
  have "?ls \<noteq> []" by (simp add: request_lines_def)
  from find_blank_line [OF ok this, of body]
  have e: "find_str (CRLF @ CRLF) ?buf = Some (length (join_crlf ?ls))"
    by (simp add: request_head_def)
  have join: "join_crlf ?ls = r @ CRLF @ join_crlf (map header_line hs)"
    using hs(2) by (cases hs) (simp_all add: request_lines_def r_def)
  have cr: "CR \<notin> set r" using ok by (simp add: request_lines_def line_ok_def r_def)
  have f: "find_str CRLF (join_crlf ?ls) = Some (length r)"
    unfolding join by (rule find_first_line [OF cr])
  have w: "split_whitespace r = [m, p, v]" unfolding r_def using tok by (rule split_whitespace_three)
  have l: "str_lines (join_crlf (map header_line hs)) = map header_line hs"
    using ok by (intro str_lines_join) (simp add: request_lines_def)
  have utf: "valid_utf8 ?buf"
    using request_head_ascii [OF tok hs(1)] valid by (simp add: ascii_valid_utf8 valid_utf8_append)
  have t: "take (length (join_crlf ?ls)) ?buf = join_crlf ?ls"
    and tr: "take (length r) (join_crlf ?ls) = r"
    and d: "drop (length r + 2) (join_crlf ?ls) = join_crlf (map header_line hs)"
    and s: "length (join_crlf ?ls) + 4 = length (request_head m p v hs)"
    by (simp_all add: request_head_def join)
  show ?thesis
    unfolding http_parse_def
    by (simp only: utf e t f tr w d l s Let_def option.case fold_header_lines [OF hs(1)]
        header_map_def [symmetric] not_True_eq_False if_False)
      (simp add: nth_Cons' split: sum.split)
qed

lemma http_parse_request:
  assumes "token m" "token p" "token v" "\<forall>h \<in> set hs. header_wf h" "hs \<noteq> []"
    and "valid_utf8 body" and "content_length (header_map hs) = n"
    and "length (request_head m p v hs) + n < 2 ^ 64"
  shows "http_parse low (request_head m p v hs @ body) =
    (if length body < n then Inl (Error Incomplete)
     else Inr (\<lparr> rq_method = m, rq_path = p, rq_version = v, rq_headers = header_map hs,
                rq_body = take n body \<rparr>, length (request_head m p v hs) + n))"
  using http_parse_head [OF assms(1-6), of low] assms(7,8)
  by (auto simp: Let_def usize_add_exact slice_def)

text \<open>On a strict prefix of an ASCII request the parser asks for more.\<close>

lemma http_parse_prefix:
  assumes tok: "token m" "token p" "token v" and hs: "\<forall>h \<in> set hs. header_wf h" "hs \<noteq> []"
    and ascii: "is_ascii body" and len: "content_length (header_map hs) = length body"
    and small: "length (request_head m p v hs @ body) < 2 ^ 64"
    and k: "k < length (request_head m p v hs @ body)"
  shows "http_parse low (take k (request_head m p v hs @ body)) = Inl (Error Incomplete)"
proof (cases "length (request_head m p v hs) \<le> k")
  case True
  let ?j = "k - length (request_head m p v hs)"
  have "is_ascii (take ?j body)" using ascii by (auto simp: is_ascii_def dest: in_set_takeD)
  moreover have "take k (request_head m p v hs @ body) = request_head m p v hs @ take ?j body"
    using True by simp
  ultimately show ?thesis
    using http_parse_request [OF tok hs ascii_valid_utf8 len, of "take ?j body" low] small k True
    by simp
next
  case False
  let ?s = "request_head m p v hs @ body" and ?ls = "request_lines m p v hs"
  have "is_ascii ?s" using request_head_ascii [OF tok hs(1)] ascii by simp
  then have "is_ascii (take k ?s)" by (auto simp: is_ascii_def dest: in_set_takeD)
  then have utf: "valid_utf8 (take k ?s)" by (rule ascii_valid_utf8)
  have "find_str (CRLF @ CRLF) ?s = Some (length (join_crlf ?ls))"
    using find_blank_line [OF request_lines_ok [OF tok hs(1)], of body]
    by (simp add: request_head_def request_lines_def)
  moreover have "length (join_crlf ?ls) + 4 = length (request_head m p v hs)"
    by (simp add: request_head_def)
  ultimately have "find_str (CRLF @ CRLF) (take k ?s) = None"
    using find_str_take [of "CRLF @ CRLF" k ?s] False by (cases "find_str (CRLF @ CRLF) (take k ?s)") auto
  with utf show ?thesis by (simp add: http_parse_def)
qed

text \<open>When the announced length overflows.\<close>

lemma http_parse_overflow:
  assumes "token m" "token p" "token v" "\<forall>h \<in> set hs. header_wf h" "hs \<noteq> []"
    and "valid_utf8 body" and "content_length (header_map hs) = n" and "n < 2 ^ 64"
    and "2 ^ 64 \<le> length (request_head m p v hs) + n" and "length (request_head m p v hs) < 2 ^ 64"
  shows "http_parse low (request_head m p v hs @ body) = Inl Panic"
proof -
  let ?l = "length (request_head m p v hs)"
  have t: "usize_add ?l n = ?l + n - 2 ^ 64"
    using assms(8-10) by (simp add: usize_add_def le_mod_geq)
  then have "usize_add ?l n < ?l" "0 < n" using assms(8-10) by auto
  with http_parse_head [OF assms(1-6), of low] assms(7) show ?thesis
    by (simp add: Let_def slice_def)
qed

section \<open>Properties\<close>

text \<open>
  C17: A request is parsed as it was written. Any method, path and version without white space
  and any list of at least one header (ASCII name without a colon, value on one line), followed
  by a body of as many bytes as its Content-Length says, is recovered exactly: the three tokens,
  the headers under their lower-case names, the body, and the length consumed, whatever
  well-formed text follows in the buffer.
\<close>

theorem http_request_roundtrip:
  assumes "token m" "token p" "token v" "\<forall>h \<in> set hs. header_wf h" "hs \<noteq> []"
    and "valid_utf8 (body @ rest)" and "content_length (header_map hs) = length body"
    and "length (request_head m p v hs @ body) < 2 ^ 64"
  shows "http_parse low (request_head m p v hs @ body @ rest) =
    Inr (\<lparr> rq_method = m, rq_path = p, rq_version = v, rq_headers = header_map hs, rq_body = body \<rparr>,
         length (request_head m p v hs @ body))"
  using http_parse_request [OF assms(1-7), of low] assms(8) by simp

lemma token_simple: "token [71]" "token [47]" "token [49]"
  by (simp_all add: token_def is_whitespace_def)

lemma length_header_wf: "header_wf (lit ''Content-Length'', [0x32])"
  by (simp add: header_wf_def token_def trimmed_def is_whitespace_def lit_def)

lemma length_header_map:
  "content_length (header_map [(lit ''Content-Length'', [0x32])]) = 2"
  by (simp add: header_map_def lit_def ascii_lower_def content_length_def hm_get_insert
      parse_usize_def is_digit_def digits_value_def)

theorem http_request_roundtrip_witness:
  "http_parse id (request_head [71] [47] [49] [(lit ''Content-Length'', [0x32])] @ [104, 105] @ [33]) =
    Inr (\<lparr> rq_method = [71], rq_path = [47], rq_version = [49],
           rq_headers = header_map [(lit ''Content-Length'', [0x32])], rq_body = [104, 105] \<rparr>,
         length (request_head [71] [47] [49] [(lit ''Content-Length'', [0x32])] @ [104, 105]))"
  by (rule http_request_roundtrip)
    (simp_all add: token_simple length_header_wf length_header_map valid_utf8_ascii_Cons,
      simp add: request_head_def request_lines_def header_line_def lit_def)

text \<open>
  A request that has not arrived completely is never mistaken. On every strict prefix of an
  ASCII request with at least one header, cut in the request line, in a header or in the body,
  the parser answers \<open>Incomplete\<close>: it neither fails nor delivers a truncated request.
\<close>

lemma http_prefix_incomplete:
  assumes "token m" "token p" "token v" "\<forall>h \<in> set hs. header_wf h" "hs \<noteq> []"
    and "is_ascii body" and "content_length (header_map hs) = length body"
    and "length (request_head m p v hs @ body) < 2 ^ 64"
    and "k < length (request_head m p v hs @ body)"
  shows "http_parse low (take k (request_head m p v hs @ body)) = Inl (Error Incomplete)"
  using assms by (rule http_parse_prefix)

theorem http_prefix_incomplete_witness:
  "http_parse id (take 5 (request_head [71] [47] [49] [(lit ''Content-Length'', [0x32])] @ [104, 105]))
    = Inl (Error Incomplete)"
  by (rule http_prefix_incomplete)
    (simp_all add: token_simple length_header_wf length_header_map,
      simp_all add: request_head_def request_lines_def header_line_def lit_def)

text \<open>
  A request without header lines is never answered. After the request line and the empty
  line the search for the end of the first line fails inside the (single) line, so the parser
  answers \<open>Incomplete\<close>, whatever text follows: \<open>GET / HTTP/1.0\<close> alone is a complete request
  that waits for ever.
\<close>

lemma headerless_request_stuck:
  assumes "token m" "token p" "token v" and "valid_utf8 extra"
  shows "http_parse low (m @ [0x20] @ p @ [0x20] @ v @ CRLF @ CRLF @ extra) = Inl (Error Incomplete)"
proof -
  define r where "r = m @ [0x20] @ p @ [0x20] @ v"
  have r: "CR \<notin> set r" "is_ascii r" using assms(1-3) [THEN token_no_newline] by (auto simp: r_def)
  have none: "find_str CRLF s = None" if "CR \<notin> set s" for s
    using find_str_skip [of CRLF s "[]"] that by simp
  have "valid_utf8 (CRLF @ CRLF @ extra)" using assms(4) by (simp add: valid_utf8_ascii_Cons)
  then have "valid_utf8 (r @ CRLF @ CRLF @ extra)"
    by (rule valid_utf8_append [OF ascii_valid_utf8 [OF r(2)]])
  moreover have "find_str (CRLF @ CRLF) (r @ CRLF @ CRLF @ extra) = Some (length r)"
    using find_str_skip [of "CRLF @ CRLF" r "CRLF @ CRLF @ extra"] r(1) by simp
  ultimately have "http_parse low (r @ CRLF @ CRLF @ extra) = Inl (Error Incomplete)"
    using none [OF r(1)] by (simp add: http_parse_def)
  then show ?thesis by (simp add: r_def)
qed

theorem headerless_request_stuck_witness:
  "http_parse id ([71] @ [0x20] @ [47] @ [0x20] @ [49] @ CRLF @ CRLF @ [97, 58, 98, 13, 10, 13, 10]) = Inl (Error Incomplete)"
  by (rule headerless_request_stuck) (simp_all add: token_simple valid_utf8_ascii_Cons)

text \<open>
  A large Content-Length panics the parser. If the announced length is a \<open>usize\<close> but its
  sum with the length of the head is not, the sum wraps around, the test for a complete body
  passes, and the slice of the body is out of order: the thread that parses panics, with no
  body byte needed.
\<close>

lemma content_length_panics:
  assumes "token m" "token p" "token v" "\<forall>h \<in> set hs. header_wf h" "hs \<noteq> []"
    and "valid_utf8 body" and "content_length (header_map hs) = n" and "n < 2 ^ 64"
    and "2 ^ 64 \<le> length (request_head m p v hs) + n" and "length (request_head m p v hs) < 2 ^ 64"
  shows "http_parse low (request_head m p v hs @ body) = Inl Panic"
  using assms by (rule http_parse_overflow)

theorem content_length_panics_witness:
  "http_parse id (request_head [71] [47] [49] [(lit ''Content-Length'', lit ''18446744073709551615'')] @ [])
    = Inl Panic"
proof (rule content_length_panics [where n = 18446744073709551615])
  show "\<forall>h \<in> set [(lit ''Content-Length'', lit ''18446744073709551615'')]. header_wf h"
    by (simp add: header_wf_def token_def trimmed_def is_whitespace_def lit_def)
  show "content_length (header_map [(lit ''Content-Length'', lit ''18446744073709551615'')]) = 18446744073709551615"
    by (simp add: header_map_def lit_def ascii_lower_def content_length_def hm_get_insert
      parse_usize_def is_digit_def digits_value_def)
qed (simp_all add: token_simple request_head_def request_lines_def header_line_def lit_def)

text \<open>
  A request is rejected when its bytes arrive in the middle of a character. If the body so
  far ends inside a multi-byte character, the whole buffer is refused as invalid UTF-8 instead of
  incomplete, although the request with its body complete is accepted.
\<close>

lemma split_character_rejected:
  assumes "token m" "token p" "token v" "\<forall>h \<in> set hs. header_wf h" "hs \<noteq> []"
    and "valid_utf8 (b1 @ b2)" and "\<not> valid_utf8 b1"
    and "content_length (header_map hs) = length (b1 @ b2)"
    and "length (request_head m p v hs @ b1 @ b2) < 2 ^ 64"
  shows "http_parse low (request_head m p v hs @ b1) = Inl (Error (Invalid (lit ''Invalid UTF-8'')))
    \<and> (\<exists>req n. http_parse low (request_head m p v hs @ b1 @ b2) = Inr (req, n) \<and> rq_body req = b1 @ b2)"
proof -
  have "valid_utf8 (xs @ ys) = valid_utf8 ys" if "is_ascii xs" for xs ys
    using that by (induction xs) (simp_all add: valid_utf8_ascii_Cons)
  with request_head_ascii [OF assms(1-4)] assms(7)
  have "\<not> valid_utf8 (request_head m p v hs @ b1)" by blast
  moreover from http_parse_request [OF assms(1-6,8), of low] assms(9)
  have "http_parse low (request_head m p v hs @ b1 @ b2) =
      Inr (\<lparr> rq_method = m, rq_path = p, rq_version = v, rq_headers = header_map hs, rq_body = b1 @ b2 \<rparr>,
           length (request_head m p v hs) + length (b1 @ b2))" by simp
  ultimately show ?thesis by (simp add: http_parse_def)
qed

theorem split_character_rejected_witness:
  "http_parse id (request_head [71] [47] [49] [(lit ''Content-Length'', [0x32])] @ [0xC3])
    = Inl (Error (Invalid (lit ''Invalid UTF-8'')))"
proof -
  have "\<not> valid_utf8 [0xC3]" "valid_utf8 ([0xC3] @ [0xA9])"
    by (subst valid_utf8.simps, simp add: utf8_chunk_def byte_at_def utf8_width_def is_cont_def)+
  from split_character_rejected [OF _ _ _ _ _ this(2,1), of "[71]" "[47]" "[49]" "[(lit ''Content-Length'', [0x32])]" id]
  show ?thesis
    by (simp add: token_simple length_header_wf length_header_map)
      (simp add: request_head_def request_lines_def header_line_def lit_def)
qed

end
