(* ===== verification/Http_Response.thy ===== *)
theory Http_Response
  imports Rust_Str
begin

text \<open>
  The HTTP/1.1 response builder: \<open>ners-proto-http/src/response.rs\<close>. A response is built by
  \<open>new\<close> and the header methods and written by \<open>to_bytes\<close>, which lists the header map in
  whatever order the map iterates: \<open>iter\<close> is that order, any permutation. The lemmas show what
  a client sees in the bytes.
\<close>

record http_response =
  rs_status :: u16
  rs_status_text :: str
  rs_headers :: "(str \<times> str) list"
  rs_body :: bytes

definition status_text :: "u16 \<Rightarrow> str" where
  "status_text status =
     (if status = 200 then lit ''OK''
      else if status = 201 then lit ''Created''
      else if status = 204 then lit ''No Content''
      else if status = 400 then lit ''Bad Request''
      else if status = 404 then lit ''Not Found''
      else if status = 500 then lit ''Internal Server Error''
      else lit ''Unknown'')"

definition response_new :: "u16 \<Rightarrow> bytes \<Rightarrow> http_response" where
  "response_new status body =
     (let headers = hm_insert (lit ''Content-Type'') (lit ''text/plain'')
            (hm_insert (lit ''Content-Length'') (show_nat (length body)) [])
      in \<lparr> rs_status = status, rs_status_text = status_text status, rs_headers = headers, rs_body = body \<rparr>)"

definition response_ok :: "bytes \<Rightarrow> http_response" where
  "response_ok body = response_new 200 body"

definition response_not_found :: http_response where
  "response_not_found = response_new 404 (lit ''404 Not Found'')"

definition response_internal_error :: http_response where
  "response_internal_error = response_new 500 (lit ''500 Internal Server Error'')"

definition with_header :: "str \<Rightarrow> str \<Rightarrow> http_response \<Rightarrow> http_response" where
  "with_header key value r = r\<lparr>rs_headers := hm_insert key value (rs_headers r)\<rparr>"

definition response_json :: "http_response \<Rightarrow> http_response" where
  "response_json r =
     r\<lparr>rs_headers := hm_insert (lit ''Content-Type'') (lit ''application/json'') (rs_headers r)\<rparr>"

definition response_html :: "http_response \<Rightarrow> http_response" where
  "response_html r =
     r\<lparr>rs_headers := hm_insert (lit ''Content-Type'') (lit ''text/html; charset=utf-8'') (rs_headers r)\<rparr>"

definition response_header_line :: "str \<times> str \<Rightarrow> str" where
  "response_header_line kv = fst kv @ lit '': '' @ snd kv @ CRLF"

definition to_bytes :: "((str \<times> str) list \<Rightarrow> (str \<times> str) list) \<Rightarrow> http_response \<Rightarrow> bytes" where
  "to_bytes iter r =
     lit ''HTTP/1.1 '' @ show_nat (unat (rs_status r)) @ lit '' '' @ rs_status_text r @ CRLF
     @ concat (map response_header_line (iter (rs_headers r)))
     @ CRLF @ rs_body r"

section \<open>What a client reads\<close>

text \<open>An iteration order lists the entries of the map, each once.\<close>

definition iteration_order :: "((str \<times> str) list \<Rightarrow> (str \<times> str) list) \<Rightarrow> bool" where
  "iteration_order iter \<longleftrightarrow> (\<forall>hs. mset (iter hs) = mset hs)"

datatype response_op = SetHeader str str | SetJson | SetHtml

fun response_apply :: "response_op \<Rightarrow> http_response \<Rightarrow> http_response" where
  "response_apply (SetHeader k v) r = with_header k v r"
| "response_apply SetJson r = response_json r"
| "response_apply SetHtml r = response_html r"

definition no_newline :: "str \<Rightarrow> bool" where
  "no_newline s \<longleftrightarrow> CR \<notin> set s \<and> LF \<notin> set s"

text \<open>Headers set by a caller: on one line, and not the length of the body.\<close>

fun op_wf :: "response_op \<Rightarrow> bool" where
  "op_wf (SetHeader k v) \<longleftrightarrow> no_newline k \<and> no_newline v \<and> k \<noteq> lit ''Content-Length''"
| "op_wf _ \<longleftrightarrow> True"

definition response_wf :: "bytes \<Rightarrow> http_response \<Rightarrow> bool" where
  "response_wf body r \<longleftrightarrow> rs_body r = body \<and> no_newline (rs_status_text r)
     \<and> hm_distinct (rs_headers r)
     \<and> (\<forall>(k, v) \<in> set (rs_headers r). no_newline k \<and> no_newline v)
     \<and> hm_get (lit ''Content-Length'') (rs_headers r) = Some (show_nat (length body))"

lemma no_newline_show_nat: "no_newline (show_nat n)"
  using show_nat_digits [of n] by (auto simp: no_newline_def is_digit_def)

lemma no_newline_texts:
  "no_newline (lit ''Content-Length'')" "no_newline (lit ''Content-Type'')" "no_newline (lit ''text/plain'')"
  "no_newline (lit ''application/json'')" "no_newline (lit ''text/html; charset=utf-8'')"
  "no_newline (lit ''HTTP/1.1 '')" "no_newline (lit '' '')" "no_newline (lit '': '')"
  by (simp_all add: no_newline_def lit_def)

lemma no_newline_status_text: "no_newline (status_text status)"
  by (simp add: status_text_def no_newline_def lit_def)

lemma no_newline_append [simp]: "no_newline (a @ b) \<longleftrightarrow> no_newline a \<and> no_newline b"
  by (auto simp: no_newline_def)

lemma content_type_not_length: "lit ''Content-Type'' \<noteq> lit ''Content-Length''"
  by (simp add: lit_def)

lemma response_wf_insert:
  assumes "response_wf body r" and "no_newline k" "no_newline v" "k \<noteq> lit ''Content-Length''"
  shows "response_wf body (r\<lparr>rs_headers := hm_insert k v (rs_headers r)\<rparr>)"
  using assms by (auto simp: response_wf_def hm_get_insert dest!: hm_set_insert)

lemma response_wf_new: "response_wf body (response_new status body)"
  using content_type_not_length
  by (auto simp: response_wf_def response_new_def Let_def hm_get_insert no_newline_texts
      no_newline_show_nat no_newline_status_text dest!: hm_set_insert)

lemma response_wf_apply: "response_wf body r \<Longrightarrow> op_wf p \<Longrightarrow> response_wf body (response_apply p r)"
  by (cases p) (auto simp: with_header_def response_json_def response_html_def no_newline_texts
      content_type_not_length intro!: response_wf_insert)

lemma response_wf_fold:
  "response_wf body r \<Longrightarrow> \<forall>p \<in> set ops. op_wf p \<Longrightarrow> response_wf body (fold response_apply ops r)"
  by (induction ops arbitrary: r) (auto intro: response_wf_apply)

text \<open>The head as lines, so that the search of the parser finds its end.\<close>

definition response_lines :: "(str \<times> str) list \<Rightarrow> http_response \<Rightarrow> str list" where
  "response_lines hs r =
     (lit ''HTTP/1.1 '' @ show_nat (unat (rs_status r)) @ lit '' '' @ rs_status_text r)
     # map (\<lambda>(k, v). k @ lit '': '' @ v) hs"

lemma join_crlf_Cons: "join_crlf (l # ls) @ CRLF = l @ CRLF @ (if ls = [] then [] else join_crlf ls @ CRLF)"
  by (cases ls) simp_all

lemma to_bytes_lines: "to_bytes iter r = join_crlf (response_lines (iter (rs_headers r)) r) @ CRLF @ CRLF @ rs_body r"
proof -
  have join: "join_crlf (map (\<lambda>(k, v). k @ lit '': '' @ v) hs) @ CRLF = concat (map response_header_line hs)"
    if "hs \<noteq> []" for hs
    using that
  proof (induction hs)
    case (Cons h hs)
    then show ?case
      by (cases "hs = []") (simp_all add: join_crlf_Cons response_header_line_def split_def)
  qed simp
  have "join_crlf (response_lines hs r) @ CRLF =
      (lit ''HTTP/1.1 '' @ show_nat (unat (rs_status r)) @ lit '' '' @ rs_status_text r) @ CRLF
      @ concat (map response_header_line hs)" for hs
    using join [of hs] by (cases "hs = []") (simp_all add: response_lines_def join_crlf_Cons)
  then have "(join_crlf (response_lines hs r) @ CRLF) @ CRLF @ rs_body r = 
      ((lit ''HTTP/1.1 '' @ show_nat (unat (rs_status r)) @ lit '' '' @ rs_status_text r) @ CRLF
      @ concat (map response_header_line hs)) @ CRLF @ rs_body r" for hs
    by (simp only:)
  then show ?thesis by (simp add: to_bytes_def)
qed

lemma lit_nonempty [simp]: "lit (c # s) \<noteq> []"
  by (simp add: lit_def)

lemma response_lines_ok:
  assumes "response_wf body r" and "iteration_order iter"
  shows "\<forall>l \<in> set (response_lines (iter (rs_headers r)) r). line_ok l"
proof -
  have "set (iter (rs_headers r)) = set (rs_headers r)"
    using assms(2) by (metis iteration_order_def mset_eq_setD)
  moreover have "line_ok l" if "no_newline l" "l \<noteq> []" for l
    using that by (simp add: line_ok_def no_newline_def)
  ultimately show ?thesis
    using assms(1)
    by (auto simp: response_lines_def response_wf_def no_newline_texts no_newline_show_nat)
qed

section \<open>Properties\<close>

text \<open>
  C33: Every response is framed correctly, in whatever order the header map iterates. However a
  response is built (a status, a body, then \<open>json\<close>, \<open>html\<close> or headers on one line other than
  Content-Length), in the bytes \<open>to_bytes\<close> writes the first empty line ends the head, what
  follows it is exactly the body, the lines of the head are the status line and one line per
  header, and exactly one of them is the Content-Length header, with the length of the body.
\<close>

theorem response_framing:
  assumes "\<forall>p \<in> set ops. op_wf p" and "iteration_order iter"
    and "r = fold response_apply ops (response_new status body)"
  shows "\<exists>e. find_str (CRLF @ CRLF) (to_bytes iter r) = Some e
    \<and> drop (e + 4) (to_bytes iter r) = body
    \<and> str_lines (take e (to_bytes iter r)) = response_lines (iter (rs_headers r)) r
    \<and> filter (\<lambda>kv. fst kv = lit ''Content-Length'') (iter (rs_headers r))
        = [(lit ''Content-Length'', show_nat (length body))]"
proof -
  let ?hs = "iter (rs_headers r)"
  have wf: "response_wf body r" using response_wf_fold [OF response_wf_new assms(1)] assms(3) by simp
  note ok = response_lines_ok [OF wf assms(2)]
  have ne: "response_lines ?hs r \<noteq> []" by (simp add: response_lines_def)
  have d: "hm_distinct ?hs" and s: "set ?hs = set (rs_headers r)"
    using wf assms(2) unfolding response_wf_def iteration_order_def
    by (metis mset_map mset_eq_imp_distinct_iff) (metis assms(2) iteration_order_def mset_eq_setD)
  let ?n = "show_nat (length body)"
  have one: "filter (\<lambda>kv. fst kv = k) hs = [(k, v)]" if "hm_distinct hs" "(k, v) \<in> set hs" for k v
    and hs :: "(str \<times> str) list"
    using that
  proof (induction hs)
    case (Cons h hs)
    have "filter (\<lambda>kv. fst kv = k) hs = []" if "k \<notin> fst ` set hs"
      using that by (auto simp: filter_empty_conv)
    with Cons show ?case by (cases "h = (k, v)") (auto simp: image_iff)
  qed simp
  have "(lit ''Content-Length'', ?n) \<in> set ?hs"
    using wf s by (auto simp: response_wf_def dest: hm_get_mem)
  from one [OF d this] find_blank_line [OF ok ne, of body] str_lines_join [OF ok] wf show ?thesis
    unfolding to_bytes_lines by (intro exI [of _ "length (join_crlf (response_lines ?hs r))"])
      (simp add: response_wf_def)
qed

theorem response_framing_witness:
  "\<exists>e. find_str (CRLF @ CRLF) (to_bytes rev (response_json (response_new 200 [123, 125]))) = Some e
    \<and> drop (e + 4) (to_bytes rev (response_json (response_new 200 [123, 125]))) = [123, 125]"
  using response_framing [of "[SetJson]" rev _ 200 "[123, 125]"]
  by (auto simp: iteration_order_def)

end
