(* ===== verification/Net.thy ===== *)
theory Net
  imports Ners_Prelude
begin

text \<open>
  Non-blocking sockets: \<open>ners-core/src/net.rs\<close>. A \<open>TcpStream\<close> is what the operating system
  will answer to the coming \<open>read\<close> and \<open>write\<close> calls, and the bytes accepted so far; each
  outcome is any the documentation of \<open>std::io\<close> allows. \<open>read_all\<close>, \<open>write_all\<close>, \<open>is_closed\<close>
  and \<open>accept_all\<close> follow, with what they transfer.
\<close>

section \<open>Streams\<close>

datatype io_error = WouldBlock | ConnectionReset | WriteZero | OtherError str

text \<open>
  \<open>ReadOk []\<close> is the end of the stream; an exhausted list of outcomes means nothing is available
  (\<open>WouldBlock\<close>). \<open>WriteOk n\<close>: the socket takes at most \<open>n\<close> bytes.
\<close>

datatype read_outcome = ReadOk bytes | ReadErr io_error
datatype write_outcome = WriteOk usize | WriteErr io_error

record tcp_stream =
  rx :: "read_outcome list"
  tx :: "write_outcome list"
  wire :: bytes

text \<open>\<open>stream.read(&mut buf)\<close> with a buffer of \<open>n\<close> bytes never delivers more than that.\<close>

definition stream_read :: "usize \<Rightarrow> tcp_stream \<Rightarrow> tcp_stream \<times> (io_error + bytes)" where
  "stream_read n s =
     (case rx s of
        [] \<Rightarrow> (s, Inl WouldBlock)
      | ReadErr e # r \<Rightarrow> (s\<lparr>rx := r\<rparr>, Inl e)
      | ReadOk bs # r \<Rightarrow>
          if length bs \<le> n then (s\<lparr>rx := r\<rparr>, Inr bs)
          else (s\<lparr>rx := ReadOk (drop n bs) # r\<rparr>, Inr (take n bs)))"

definition stream_write :: "bytes \<Rightarrow> tcp_stream \<Rightarrow> tcp_stream \<times> (io_error + usize)" where
  "stream_write data s =
     (case tx s of
        [] \<Rightarrow> (s, Inl WouldBlock)
      | WriteErr e # r \<Rightarrow> (s\<lparr>tx := r\<rparr>, Inl e)
      | WriteOk n # r \<Rightarrow>
          let k = min n (length data)
          in (s\<lparr>tx := r, wire := wire s @ take k data\<rparr>, Inr k))"

fun outcome_size :: "read_outcome \<Rightarrow> nat" where
  "outcome_size (ReadOk bs) = Suc (length bs)"
| "outcome_size (ReadErr e) = 1"

lemma stream_read_less:
  "stream_read n s = (s', Inr bs) \<Longrightarrow> bs \<noteq> [] \<Longrightarrow>
   sum_list (map outcome_size (rx s')) < sum_list (map outcome_size (rx s))"
  by (cases "rx s") (auto simp: stream_read_def split: read_outcome.splits if_splits)

lemma stream_write_less:
  "stream_write data s = (s', Inr k) \<Longrightarrow> length (tx s') < length (tx s)"
  by (cases "tx s") (auto simp: stream_write_def Let_def split: write_outcome.splits)

section \<open>Reading\<close>

text \<open>The loop of \<open>read_all\<close>: the stream, the buffer and the bytes read so far.\<close>

function read_all_from ::
    "tcp_stream \<Rightarrow> bytes \<Rightarrow> usize \<Rightarrow> tcp_stream \<times> bytes \<times> (io_error + usize)" where
  "read_all_from s buf total_read =
     (case stream_read 4096 s of
        (s', Inr bs) \<Rightarrow>
          if bs = [] then (s', buf, Inl ConnectionReset)
          else read_all_from s' (buf @ bs) (total_read + length bs)
      | (s', Inl e) \<Rightarrow>
          if e = WouldBlock then (s', buf, Inr total_read) else (s', buf, Inl e))"
  by pat_completeness auto
termination
  by (relation "measure (\<lambda>(s, _, _). sum_list (map outcome_size (rx s)))")
    (auto dest: stream_read_less [OF sym])

declare read_all_from.simps [simp del]

definition read_all :: "tcp_stream \<Rightarrow> bytes \<Rightarrow> tcp_stream \<times> bytes \<times> (io_error + usize)" where
  "read_all s buf = read_all_from s buf 0"

section \<open>Writing\<close>

function write_all_from ::
    "tcp_stream \<Rightarrow> bytes \<Rightarrow> usize \<Rightarrow> tcp_stream \<times> (io_error, usize) result" where
  "write_all_from s data total_written =
     (case stream_write (drop total_written data) s of
        (s', Inr n) \<Rightarrow>
          if n = 0 then (s', Inl (Error WriteZero))
          else if length data \<le> total_written + n then (s', Inr (total_written + n))
          else write_all_from s' data (total_written + n)
      | (s', Inl e) \<Rightarrow>
          if e = WouldBlock then (s', Inr total_written) else (s', Inl (Error e)))"
  by pat_completeness auto
termination
  by (relation "measure (\<lambda>(s, _, _). length (tx s))") (auto dest: stream_write_less [OF sym])

declare write_all_from.simps [simp del]

text \<open>\<open>&buf[offset..]\<close> panics when the offset is beyond the end.\<close>

definition write_all :: "tcp_stream \<Rightarrow> bytes \<Rightarrow> usize \<Rightarrow> tcp_stream \<times> (io_error, usize) result" where
  "write_all s buf offset =
     (case slice buf offset (length buf) of
        Inl e \<Rightarrow> (s, Inl e)
      | Inr data \<Rightarrow> if data = [] then (s, Inr 0) else write_all_from s data 0)"

text \<open>\<open>peek\<close> looks at what the next \<open>read\<close> would deliver.\<close>

definition is_closed :: "tcp_stream \<Rightarrow> bool" where
  "is_closed s =
     (case rx s of
        ReadOk bs # _ \<Rightarrow> bs = []
      | ReadErr e # _ \<Rightarrow> e = ConnectionReset
      | [] \<Rightarrow> False)"

section \<open>Accepting\<close>

text \<open>
  The listener: the outcomes of the coming \<open>accept\<close> calls, after which there are no pending
  connections. \<open>accept_all\<close> stops at the first error of any kind.
\<close>

fun accept_all :: "(io_error + tcp_stream) list \<Rightarrow> (io_error + tcp_stream) list \<times> tcp_stream list" where
  "accept_all [] = ([], [])"
| "accept_all (Inr stream # rest) =
     (case accept_all rest of (l, streams) \<Rightarrow> (l, stream # streams))"
| "accept_all (Inl e # rest) = (rest, [])"

section \<open>What is transferred\<close>

text \<open>The bytes a stream delivers before it blocks, ends or fails, and how it then stops.\<close>

fun available :: "read_outcome list \<Rightarrow> bytes" where
  "available (ReadOk bs # r) = (if bs = [] then [] else bs @ available r)"
| "available _ = []"

fun read_end :: "read_outcome list \<Rightarrow> io_error" where
  "read_end (ReadOk bs # r) = (if bs = [] then ConnectionReset else read_end r)"
| "read_end (ReadErr e # r) = e"
| "read_end [] = WouldBlock"

lemma read_all_from_available:
  "read_all_from s buf n = (s', buf', r) \<Longrightarrow>
     buf' = buf @ available (rx s)
     \<and> r = (if read_end (rx s) = WouldBlock then Inr (n + length (available (rx s)))
            else Inl (read_end (rx s)))
     \<and> tx s' = tx s \<and> wire s' = wire s"
proof (induction s buf n rule: read_all_from.induct)
  case (1 s buf n)
  note unfold = read_all_from.simps [of s buf n]
  show ?case
  proof (cases "rx s")
    case Nil
    then show ?thesis using "1.prems" unfold by (auto simp: stream_read_def)
  next
    case (Cons oc more)
    show ?thesis
    proof (cases oc)
      case (ReadErr e)
      then show ?thesis using "1.prems" unfold Cons by (auto simp: stream_read_def split: if_splits)
    next
      case (ReadOk bs)
      show ?thesis
      proof (cases "bs = []")
        case True
        then show ?thesis using "1.prems" unfold Cons ReadOk by (auto simp: stream_read_def)
      next
        case False
        obtain s1 b1 where rd: "stream_read 4096 s = (s1, Inr b1)" "b1 \<noteq> []"
            "available (rx s) = b1 @ available (rx s1)" "read_end (rx s) = read_end (rx s1)"
            "tx s1 = tx s" "wire s1 = wire s"
          using False Cons ReadOk by (cases "length bs \<le> 4096") (auto simp: stream_read_def)
        with "1.prems" unfold have "read_all_from s1 (buf @ b1) (n + length b1) = (s', buf', r)"
          by simp
        from "1.IH" [OF rd(1)[symmetric] refl rd(2) this] rd(3-) show ?thesis by simp
      qed
    qed
  qed
qed

lemma read_all_available:
  "read_all s buf = (s', buf', r) \<Longrightarrow> buf' = buf @ available (rx s) \<and> tx s' = tx s \<and> wire s' = wire s"
  unfolding read_all_def by (drule read_all_from_available) simp

lemma write_all_from_wire:
  "write_all_from s data k = (s', r) \<Longrightarrow> k \<le> length data \<Longrightarrow>
     rx s' = rx s \<and> (\<exists>n. k + n \<le> length data \<and> wire s' = wire s @ take n (drop k data)
       \<and> (\<forall>m. r = Inr m \<longrightarrow> m = k + n)) \<and> r \<noteq> Inl Panic"
proof (induction s data k rule: write_all_from.induct)
  case (1 s data k)
  note unfold = write_all_from.simps [of s data k]
  obtain s1 x where w: "stream_write (drop k data) s = (s1, x)" by (cases "stream_write (drop k data) s")
  show ?case
  proof (cases x)
    case (Inl e)
    with w have "rx s1 = rx s" "wire s1 = wire s"
      by (auto simp: stream_write_def Let_def split: list.splits write_outcome.splits)
    with "1.prems" unfold w Inl show ?thesis
      by (auto split: if_splits intro!: exI [of _ 0])
  next
    case (Inr n)
    with w have s1: "rx s1 = rx s" "wire s1 = wire s @ take n (drop k data)" "n \<le> length data - k"
      by (auto simp: stream_write_def Let_def split: list.splits write_outcome.splits)
    consider "n = 0" | "n \<noteq> 0" "length data \<le> k + n" | "n \<noteq> 0" "\<not> length data \<le> k + n" by blast
    then show ?thesis
    proof cases
      case 3
      with "1.prems"(1) unfold w Inr have "write_all_from s1 data (k + n) = (s', r)" by simp
      from "1.IH" [OF w [symmetric] Inr 3 this] 3(2) s1 obtain m where
        "rx s' = rx s" "k + n + m \<le> length data" "wire s' = wire s @ take n (drop k data) @ take m (drop (k + n) data)"
        "\<forall>i. r = Inr i \<longrightarrow> i = k + n + m" "r \<noteq> Inl Panic" by auto
      moreover have "drop n (drop k data) = drop (k + n) data" by (simp add: add.commute)
      ultimately show ?thesis
        by (intro conjI exI [of _ "n + m"]) (simp_all add: take_add add.assoc del: drop_drop)
    qed (use "1.prems" unfold w Inr s1 in \<open>auto intro!: exI [of _ n]\<close>)
  qed
qed

lemma write_all_wire:
  assumes "write_all s buf off = (s', r)"
  shows "(r = Inl Panic \<longleftrightarrow> length buf < off) \<and> rx s' = rx s
    \<and> (\<exists>n. wire s' = wire s @ take n (drop off buf) \<and> (off \<le> length buf \<longrightarrow> off + n \<le> length buf)
         \<and> (\<forall>m. r = Inr m \<longrightarrow> m = n))"
proof (cases "off \<le> length buf")
  case False
  with assms show ?thesis by (auto simp: write_all_def slice_def intro!: exI [of _ 0])
next
  case True
  show ?thesis
  proof (cases "drop off buf = []")
    case True
    with \<open>off \<le> length buf\<close> assms show ?thesis
      by (auto simp: write_all_def slice_def intro!: exI [of _ 0])
  next
    case False
    with True assms have "write_all_from s (drop off buf) 0 = (s', r)"
      by (simp add: write_all_def slice_def)
    from write_all_from_wire [OF this] True show ?thesis by fastforce
  qed
qed

text \<open>How much is written depends on what the socket takes, not on what it has received or sent.\<close>

lemma stream_write_outcome:
  "tx s = tx t \<Longrightarrow> snd (stream_write data s) = snd (stream_write data t)
     \<and> tx (fst (stream_write data s)) = tx (fst (stream_write data t))"
  by (cases "tx t") (auto simp: stream_write_def Let_def split: write_outcome.splits)

lemma write_all_from_outcome:
  "tx s = tx t \<Longrightarrow> snd (write_all_from s data k) = snd (write_all_from t data k)"
proof (induction s data k arbitrary: t rule: write_all_from.induct)
  case (1 s data k)
  obtain s1 x where s1: "stream_write (drop k data) s = (s1, x)" by (cases "stream_write (drop k data) s")
  obtain t1 y where t1: "stream_write (drop k data) t = (t1, y)" by (cases "stream_write (drop k data) t")
  have xy: "y = x" "tx s1 = tx t1" using stream_write_outcome [OF "1.prems", of "drop k data"] s1 t1 by simp_all
  show ?case
  proof (cases x)
    case (Inl e)
    then show ?thesis unfolding write_all_from.simps [of s] write_all_from.simps [of t] by (simp add: s1 t1 xy)
  next
    case (Inr n)
    note IH = "1.IH" [OF s1 [symmetric] Inr _ _ xy(2)]
    show ?thesis
      unfolding write_all_from.simps [of s] write_all_from.simps [of t] using IH by (simp add: s1 t1 xy Inr)
  qed
qed

lemma write_all_outcome: "tx s = tx t \<Longrightarrow> snd (write_all s data off) = snd (write_all t data off)"
  using write_all_from_outcome [of s t] by (simp add: write_all_def split: sum.split)

lemma write_all_whole:
  assumes "snd (write_all s data 0) = Inr (length data)"
  shows "\<exists>s'. write_all s data 0 = (s', Inr (length data)) \<and> wire s' = wire s @ data"
proof -
  obtain s' where w: "write_all s data 0 = (s', Inr (length data))"
    using assms by (cases "write_all s data 0") simp
  from write_all_wire [OF this] w show ?thesis by auto
qed

end
