(* ===== verification/Ring_Queue.thy ===== *)
theory Ring_Queue
  imports Ners_Prelude
begin

text \<open>
  The queues between the stages: \<open>ners-core/src/queue.rs\<close>. A ring buffer of atomic words with a
  head the consumer moves and a tail the producer moves; one slot is always left empty. First
  the interface of a bounded queue and what follows from it, then \<open>RingQueue\<close> and its
  methods run one at a time, then the two threads interleaved load by load and store by store.
\<close>

text \<open>\<open>ConnId\<close> of \<open>ners-core/src/conn.rs\<close>.\<close>

datatype conn_id = ConnId (conn_index: usize)

section \<open>The interface\<close>

text \<open>
  A caller's sequence of calls; the outcome of a run lists what was accepted, what was handed
  out and whether a call panicked.
\<close>

datatype 'a queue_op = QPush 'a | QPop

fun queue_run :: "('q \<Rightarrow> 'a \<Rightarrow> 'q \<times> ('a, unit) result) \<Rightarrow> ('q \<Rightarrow> 'q \<times> (unit, 'a option) result)
    \<Rightarrow> 'q \<Rightarrow> 'a queue_op list \<Rightarrow> 'q \<times> 'a list \<times> 'a list \<times> bool" where
  "queue_run push pop q [] = (q, [], [], False)"
| "queue_run push pop q (QPush a # ops) =
     (case push q a of
        (q', Inr _) \<Rightarrow> (case queue_run push pop q' ops of (r, ins, outs, p) \<Rightarrow> (r, a # ins, outs, p))
      | (q', Inl (Error _)) \<Rightarrow> queue_run push pop q' ops
      | (q', Inl Panic) \<Rightarrow> (q', [], [], True))"
| "queue_run push pop q (QPop # ops) =
     (case pop q of
        (q', Inr (Some a)) \<Rightarrow> (case queue_run push pop q' ops of (r, ins, outs, p) \<Rightarrow> (r, ins, a # outs, p))
      | (q', Inr None) \<Rightarrow> queue_run push pop q' ops
      | (q', Inl _) \<Rightarrow> (q', [], [], True))"

fun op_ok :: "('a \<Rightarrow> bool) \<Rightarrow> 'a queue_op \<Rightarrow> bool" where
  "op_ok ok (QPush a) = ok a"
| "op_ok ok QPop = True"

locale bounded_queue =
  fixes push :: "'q \<Rightarrow> 'a \<Rightarrow> 'q \<times> ('a, unit) result"
    and pop :: "'q \<Rightarrow> 'q \<times> (unit, 'a option) result"
    and inv :: "'q \<Rightarrow> bool"
    and ok :: "'a \<Rightarrow> bool"
    and contents :: "'q \<Rightarrow> 'a list"
    and room :: "'q \<Rightarrow> nat"
  assumes push_room: "inv q \<Longrightarrow> ok a \<Longrightarrow> length (contents q) < room q \<Longrightarrow>
      \<exists>q'. push q a = (q', Inr ()) \<and> inv q' \<and> contents q' = contents q @ [a] \<and> room q' = room q"
    and push_full: "inv q \<Longrightarrow> \<not> length (contents q) < room q \<Longrightarrow> push q a = (q, Inl (Error a))"
    and pop_some: "inv q \<Longrightarrow> contents q = a # as \<Longrightarrow>
      \<exists>q'. pop q = (q', Inr (Some a)) \<and> inv q' \<and> contents q' = as \<and> room q' = room q"
    and pop_none: "inv q \<Longrightarrow> contents q = [] \<Longrightarrow> pop q = (q, Inr None)"
    and bounded: "inv q \<Longrightarrow> length (contents q) \<le> room q"
begin

text \<open>
  First in, first out, without loss or duplication: what was in the queue followed by what was
  accepted is what came out followed by what is still there. No call panics.
\<close>

lemma fifo:
  assumes "inv q" and "\<forall>p \<in> set ops. op_ok ok p" and "queue_run push pop q ops = (q', ins, outs, p)"
  shows "contents q @ ins = outs @ contents q' \<and> inv q' \<and> room q' = room q \<and> \<not> p"
  using assms
proof (induction ops arbitrary: q ins outs)
  case (Cons a ops)
  show ?case
  proof (cases a)
    case (QPush x)
    show ?thesis
    proof (cases "length (contents q) < room q")
      case True
      with push_room [OF Cons.prems(1), of x] Cons.prems(2) QPush obtain q1 where
        q1: "push q x = (q1, Inr ())" "inv q1" "contents q1 = contents q @ [x]" "room q1 = room q"
        by auto
      obtain r i1 o1 p1 where run: "queue_run push pop q1 ops = (r, i1, o1, p1)"
        by (cases "queue_run push pop q1 ops")
      with Cons.prems(3) QPush q1(1) have eqs: "q' = r" "ins = x # i1" "outs = o1" "p = p1" by simp_all
      with Cons.IH [OF q1(2) _ run [folded eqs(1,4)]] Cons.prems(2) q1 show ?thesis by simp
    next
      case False
      with Cons.prems(3) push_full [OF Cons.prems(1) False, of x] QPush
      have "queue_run push pop q ops = (q', ins, outs, p)" by simp
      from Cons.IH [OF Cons.prems(1) _ this] Cons.prems(2) show ?thesis by simp
    qed
  next
    case QPop
    show ?thesis
    proof (cases "contents q")
      case Nil
      with Cons.prems(3) pop_none [OF Cons.prems(1) Nil] QPop
      have "queue_run push pop q ops = (q', ins, outs, p)" by simp
      from Cons.IH [OF Cons.prems(1) _ this] Cons.prems(2) show ?thesis by simp
    next
      case (Cons x xs)
      with pop_some [OF Cons.prems(1) Cons] obtain q1 where
        q1: "pop q = (q1, Inr (Some x))" "inv q1" "contents q1 = xs" "room q1 = room q" by auto
      obtain r i1 o1 p1 where run: "queue_run push pop q1 ops = (r, i1, o1, p1)"
        by (cases "queue_run push pop q1 ops")
      with Cons.prems(3) QPop q1(1) have eqs: "q' = r" "ins = i1" "outs = x # o1" "p = p1" by simp_all
      with Cons.IH [OF q1(2) _ run [folded eqs(1,4)]] Cons.prems(2) q1 Cons show ?thesis by simp
    qed
  qed
qed simp

end

section \<open>The ring\<close>

record ring_queue =
  buffer :: "usize list"
  capacity :: usize
  head :: usize
  tail :: usize

definition ring_new :: "usize \<Rightarrow> ring_queue" where
  "ring_new cap = \<lparr> buffer = replicate cap USIZE_MAX, capacity = cap, head = 0, tail = 0 \<rparr>"

text \<open>
  \<open>% self.capacity\<close> panics for capacity 0 and \<open>buffer[tail]\<close> out of range; the invariant
  excludes the second.
\<close>

definition ring_push :: "ring_queue \<Rightarrow> conn_id \<Rightarrow> ring_queue \<times> (conn_id, unit) result" where
  "ring_push q cid =
     (if capacity q = 0 then (q, Inl Panic)
      else
        let next_tail = (tail q + 1) mod capacity q in
        if next_tail = head q then (q, Inl (Error cid))
        else if tail q < length (buffer q)
        then (q\<lparr>buffer := (buffer q)[tail q := conn_index cid], tail := next_tail\<rparr>, Inr ())
        else (q, Inl Panic))"

definition ring_pop :: "ring_queue \<Rightarrow> ring_queue \<times> (unit, conn_id option) result" where
  "ring_pop q =
     (if head q = tail q then (q, Inr None)
      else if \<not> head q < length (buffer q) \<or> capacity q = 0 then (q, Inl Panic)
      else
        let v = buffer q ! head q;
            next_head = (head q + 1) mod capacity q
        in (q\<lparr>head := next_head\<rparr>, Inr (if v = USIZE_MAX then None else Some (ConnId v))))"

definition ring_len :: "ring_queue \<Rightarrow> usize" where
  "ring_len q = (if head q \<le> tail q then tail q - head q else capacity q - head q + tail q)"

definition ring_is_empty :: "ring_queue \<Rightarrow> bool" where
  "ring_is_empty q \<longleftrightarrow> ring_len q = 0"

section \<open>The ring as a list\<close>

definition ring_wf :: "ring_queue \<Rightarrow> bool" where
  "ring_wf q \<longleftrightarrow> 0 < capacity q \<and> length (buffer q) = capacity q
     \<and> head q < capacity q \<and> tail q < capacity q"

text \<open>The words in the ring, from head to tail.\<close>

definition ring_words :: "ring_queue \<Rightarrow> usize list" where
  "ring_words q = map (\<lambda>i. buffer q ! ((head q + i) mod capacity q)) [0..<ring_len q]"

lemma next_mod: "i < c \<Longrightarrow> Suc i mod c = (if Suc i = c then 0 else Suc i)" for i c :: nat
  by auto

lemma length_ring_words [simp]: "length (ring_words q) = ring_len q"
  by (simp add: ring_words_def)

lemma ring_len_less: "ring_wf q \<Longrightarrow> ring_len q < capacity q"
  by (auto simp: ring_wf_def ring_len_def)

lemma ring_full_iff:
  "ring_wf q \<Longrightarrow> (tail q + 1) mod capacity q = head q \<longleftrightarrow> ring_len q + 1 = capacity q"
  by (auto simp: ring_wf_def ring_len_def next_mod)

lemma ring_empty_iff: "ring_wf q \<Longrightarrow> ring_words q = [] \<longleftrightarrow> head q = tail q"
  by (auto simp: ring_wf_def ring_len_def ring_words_def)

lemma ring_last_slot: "ring_wf q \<Longrightarrow> (head q + ring_len q) mod capacity q = tail q"
  by (auto simp: ring_wf_def ring_len_def)

lemma ring_slot_inj:
  assumes "ring_wf q" and "i < capacity q" and "j < capacity q"
    and "(head q + i) mod capacity q = (head q + j) mod capacity q"
  shows "i = j"
proof -
  have m: "(head q + k) mod capacity q = (if head q + k < capacity q then head q + k
      else head q + k - capacity q)" if "k < capacity q" for k
  proof (cases "head q + k < capacity q")
    case False
    with assms(1) that have "head q + k - capacity q < capacity q"
      unfolding ring_wf_def by linarith
    with False show ?thesis by (simp add: le_mod_geq)
  qed simp
  from assms(4) show ?thesis
    unfolding m [OF assms(2)] m [OF assms(3)] using assms(2,3) by (auto split: if_splits)
qed

text \<open>A store to the slot at the tail leaves the words alone.\<close>

lemma ring_words_store:
  assumes "ring_wf q"
  shows "ring_words (q\<lparr>buffer := (buffer q)[tail q := v]\<rparr>) = ring_words q"
proof -
  have "tail q \<noteq> (head q + i) mod capacity q" if "i < ring_len q" for i
    using ring_slot_inj [OF assms, of i "ring_len q"] ring_last_slot [OF assms]
      ring_len_less [OF assms] that by auto
  moreover have "ring_len (q\<lparr>buffer := (buffer q)[tail q := v]\<rparr>) = ring_len q"
    by (simp add: ring_len_def)
  ultimately show ?thesis by (simp add: ring_words_def)
qed

text \<open>Moving the tail adds the word stored there; moving the head drops the first.\<close>

lemma ring_words_tail:
  assumes "ring_wf q" and "(tail q + 1) mod capacity q \<noteq> head q"
  shows "ring_words (q\<lparr>tail := (tail q + 1) mod capacity q\<rparr>) = ring_words q @ [buffer q ! tail q]"
    and "ring_wf (q\<lparr>tail := (tail q + 1) mod capacity q\<rparr>)"
proof -
  have "ring_len (q\<lparr>tail := (tail q + 1) mod capacity q\<rparr>) = Suc (ring_len q)"
    using assms by (auto simp: ring_wf_def ring_len_def next_mod split: if_splits)
  then show "ring_words (q\<lparr>tail := (tail q + 1) mod capacity q\<rparr>) = ring_words q @ [buffer q ! tail q]"
    using ring_last_slot [OF assms(1)] by (simp add: ring_words_def)
  show "ring_wf (q\<lparr>tail := (tail q + 1) mod capacity q\<rparr>)"
    using assms(1) by (simp add: ring_wf_def)
qed

lemma ring_words_head:
  assumes "ring_wf q" and "head q \<noteq> tail q"
  shows "ring_words q = buffer q ! head q # ring_words (q\<lparr>head := (head q + 1) mod capacity q\<rparr>)"
    and "ring_wf (q\<lparr>head := (head q + 1) mod capacity q\<rparr>)"
proof -
  let ?q = "q\<lparr>head := (head q + 1) mod capacity q\<rparr>"
  have len: "ring_len q = Suc (ring_len ?q)"
    using assms by (auto simp: ring_wf_def ring_len_def next_mod split: if_splits)
  have "((head q + 1) mod capacity q + i) mod capacity q = (head q + Suc i) mod capacity q" for i
    by (simp add: mod_add_left_eq)
  then show "ring_words q = buffer q ! head q # ring_words ?q"
    using assms(1) unfolding ring_words_def len upt_conv_Cons [OF zero_less_Suc]
    by (simp add: ring_wf_def map_Suc_upt [symmetric] comp_def del: upt_Suc)
  show "ring_wf ?q" using assms(1) by (simp add: ring_wf_def)
qed

section \<open>The queue is bounded by its capacity less one\<close>

text \<open>\<open>usize::MAX\<close> marks an empty slot, so it cannot be a connection.\<close>

definition id_ok :: "conn_id \<Rightarrow> bool" where
  "id_ok cid \<longleftrightarrow> conn_index cid \<noteq> USIZE_MAX"

definition ring_inv :: "ring_queue \<Rightarrow> bool" where
  "ring_inv q \<longleftrightarrow> ring_wf q \<and> USIZE_MAX \<notin> set (ring_words q)"

definition ring_contents :: "ring_queue \<Rightarrow> conn_id list" where
  "ring_contents q = map ConnId (ring_words q)"

definition ring_room :: "ring_queue \<Rightarrow> nat" where
  "ring_room q = capacity q - 1"

lemma length_ring_contents [simp]: "length (ring_contents q) = ring_len q"
  by (simp add: ring_contents_def)

lemma ring_push_accept:
  assumes "ring_wf q" and "ring_len q < ring_room q"
  shows "ring_push q cid = (q\<lparr>buffer := (buffer q)[tail q := conn_index cid],
      tail := (tail q + 1) mod capacity q\<rparr>, Inr ())"
    and "ring_words (fst (ring_push q cid)) = ring_words q @ [conn_index cid]"
    and "ring_wf (fst (ring_push q cid))"
proof -
  let ?s = "q\<lparr>buffer := (buffer q)[tail q := conn_index cid]\<rparr>"
  from assms have free: "(tail q + 1) mod capacity q \<noteq> head q"
    by (simp add: ring_full_iff ring_room_def del: One_nat_def)
  with assms(1) show e: "ring_push q cid = (q\<lparr>buffer := (buffer q)[tail q := conn_index cid],
      tail := (tail q + 1) mod capacity q\<rparr>, Inr ())"
    by (simp add: ring_push_def ring_wf_def Let_def)
  have "ring_wf ?s" "(tail ?s + 1) mod capacity ?s \<noteq> head ?s"
    using assms(1) free by (simp_all add: ring_wf_def)
  from ring_words_tail [OF this] ring_words_store [OF assms(1)] assms(1)
  show "ring_words (fst (ring_push q cid)) = ring_words q @ [conn_index cid]"
    and "ring_wf (fst (ring_push q cid))"
    by (simp_all add: e ring_wf_def)
qed

interpretation rq: bounded_queue ring_push ring_pop ring_inv id_ok ring_contents ring_room
proof
  fix q cid
  assume inv: "ring_inv q" and ok: "id_ok cid" and room: "length (ring_contents q) < ring_room q"
  then have wf: "ring_wf q" and l: "ring_len q < ring_room q" by (simp_all add: ring_inv_def)
  note acc = ring_push_accept [OF wf l, of cid]
  have "capacity (fst (ring_push q cid)) = capacity q" by (simp add: acc(1))
  with acc inv ok show "\<exists>q'. ring_push q cid = (q', Inr ()) \<and> ring_inv q'
      \<and> ring_contents q' = ring_contents q @ [cid] \<and> ring_room q' = ring_room q"
    by (intro exI [of _ "fst (ring_push q cid)"])
      (auto simp: ring_inv_def ring_contents_def ring_room_def id_ok_def)
next
  fix q :: ring_queue and cid
  assume inv: "ring_inv q" and full: "\<not> length (ring_contents q) < ring_room q"
  then have "(tail q + 1) mod capacity q = head q"
    using ring_len_less [of q] by (simp add: ring_inv_def ring_full_iff ring_room_def del: One_nat_def)
  with inv show "ring_push q cid = (q, Inl (Error cid))"
    by (simp add: ring_push_def ring_inv_def ring_wf_def Let_def)
next
  fix q cid cids
  assume inv: "ring_inv q" and c: "ring_contents q = cid # cids"
  then have ne: "head q \<noteq> tail q" and wf: "ring_wf q"
    using ring_empty_iff [of q] by (auto simp: ring_inv_def ring_contents_def)
  note h = ring_words_head [OF wf ne]
  from inv h have "buffer q ! head q \<noteq> USIZE_MAX" by (auto simp: ring_inv_def)
  with wf ne c h(1) have "ring_pop q = (q\<lparr>head := (head q + 1) mod capacity q\<rparr>, Inr (Some cid))"
    by (auto simp: ring_pop_def ring_wf_def ring_contents_def Let_def)
  with inv c h show "\<exists>q'. ring_pop q = (q', Inr (Some cid)) \<and> ring_inv q'
      \<and> ring_contents q' = cids \<and> ring_room q' = ring_room q"
    by (auto simp: ring_inv_def ring_contents_def ring_room_def)
next
  fix q
  assume "ring_inv q" and "ring_contents q = []"
  then show "ring_pop q = (q, Inr None)"
    by (simp add: ring_pop_def ring_inv_def ring_contents_def ring_empty_iff)
next
  fix q
  assume "ring_inv q"
  then show "length (ring_contents q) \<le> ring_room q"
    using ring_len_less [of q] by (simp add: ring_inv_def ring_room_def)
qed

lemma ring_inv_new: "0 < cap \<Longrightarrow> ring_inv (ring_new cap)"
  by (simp add: ring_inv_def ring_wf_def ring_new_def ring_words_def ring_len_def)

lemma ring_contents_new [simp]: "ring_contents (ring_new cap) = []"
  by (simp add: ring_contents_def ring_words_def ring_new_def ring_len_def)

section \<open>Producer and consumer interleaved\<close>

text \<open>
  The two threads as they run: every atomic load and store is a step of its own, in any
  interleaving. Each index is stored by one thread only, and its acquire load by the other
  synchronises with the release store that wrote it, so the steps are those of interleaved
  memory accesses. The state adds the identifiers whose push has completed and the words
  handed out to the ring and to the two program counters.
\<close>

datatype producer =
    PIdle
  | PTail conn_id usize \<comment> \<open>tail loaded\<close>
  | PStore conn_id usize \<comment> \<open>head loaded, there is room\<close>
  | PCommit conn_id usize \<comment> \<open>the slot is written\<close>

datatype consumer =
    CIdle
  | CHead usize \<comment> \<open>head loaded\<close>
  | CLoad usize \<comment> \<open>tail loaded, there is something\<close>
  | CCommit usize usize \<comment> \<open>the slot is read\<close>

record spsc =
  ring :: ring_queue
  prod :: producer
  cons :: consumer
  pushed :: "usize list"
  popped :: "usize list"

inductive spsc_step :: "spsc \<Rightarrow> spsc \<Rightarrow> bool" where
  load_tail: "prod s = PIdle \<Longrightarrow> spsc_step s (s\<lparr>prod := PTail cid (tail (ring s))\<rparr>)"
| full: "prod s = PTail cid t \<Longrightarrow> (t + 1) mod capacity (ring s) = head (ring s) \<Longrightarrow>
    spsc_step s (s\<lparr>prod := PIdle\<rparr>)"
| not_full: "prod s = PTail cid t \<Longrightarrow> (t + 1) mod capacity (ring s) \<noteq> head (ring s) \<Longrightarrow>
    spsc_step s (s\<lparr>prod := PStore cid t\<rparr>)"
| store_slot: "prod s = PStore cid t \<Longrightarrow>
    spsc_step s (s\<lparr>prod := PCommit cid t,
      ring := (ring s)\<lparr>buffer := (buffer (ring s))[t := conn_index cid]\<rparr>\<rparr>)"
| store_tail: "prod s = PCommit cid t \<Longrightarrow>
    spsc_step s (s\<lparr>prod := PIdle, pushed := pushed s @ [conn_index cid],
      ring := (ring s)\<lparr>tail := (t + 1) mod capacity (ring s)\<rparr>\<rparr>)"
| load_head: "cons s = CIdle \<Longrightarrow> spsc_step s (s\<lparr>cons := CHead (head (ring s))\<rparr>)"
| empty: "cons s = CHead h \<Longrightarrow> h = tail (ring s) \<Longrightarrow> spsc_step s (s\<lparr>cons := CIdle\<rparr>)"
| not_empty: "cons s = CHead h \<Longrightarrow> h \<noteq> tail (ring s) \<Longrightarrow> spsc_step s (s\<lparr>cons := CLoad h\<rparr>)"
| load_slot: "cons s = CLoad h \<Longrightarrow> spsc_step s (s\<lparr>cons := CCommit h (buffer (ring s) ! h)\<rparr>)"
| store_head: "cons s = CCommit h v \<Longrightarrow>
    spsc_step s (s\<lparr>cons := CIdle, popped := popped s @ [v],
      ring := (ring s)\<lparr>head := (h + 1) mod capacity (ring s)\<rparr>\<rparr>)"

definition spsc_init :: "usize \<Rightarrow> spsc" where
  "spsc_init cap = \<lparr> ring = ring_new cap, prod = PIdle, cons = CIdle, pushed = [], popped = [] \<rparr>"

fun producer_inv :: "ring_queue \<Rightarrow> producer \<Rightarrow> bool" where
  "producer_inv q PIdle = True"
| "producer_inv q (PTail cid t) = (t = tail q)"
| "producer_inv q (PStore cid t) = (t = tail q \<and> (tail q + 1) mod capacity q \<noteq> head q)"
| "producer_inv q (PCommit cid t) = (t = tail q \<and> (tail q + 1) mod capacity q \<noteq> head q
    \<and> buffer q ! tail q = conn_index cid)"

fun consumer_inv :: "ring_queue \<Rightarrow> consumer \<Rightarrow> bool" where
  "consumer_inv q CIdle = True"
| "consumer_inv q (CHead h) = (h = head q)"
| "consumer_inv q (CLoad h) = (h = head q \<and> head q \<noteq> tail q)"
| "consumer_inv q (CCommit h v) = (h = head q \<and> head q \<noteq> tail q \<and> v = buffer q ! head q)"

definition spsc_inv :: "spsc \<Rightarrow> bool" where
  "spsc_inv s \<longleftrightarrow> ring_wf (ring s) \<and> producer_inv (ring s) (prod s)
     \<and> consumer_inv (ring s) (cons s) \<and> pushed s = popped s @ ring_words (ring s)"

text \<open>The producer's stores keep the consumer's facts, and the other way round.\<close>

lemma consumer_inv_store:
  "consumer_inv q c \<Longrightarrow> consumer_inv (q\<lparr>buffer := (buffer q)[tail q := v]\<rparr>) c"
  by (cases c) auto

lemma consumer_inv_tail:
  assumes "consumer_inv q c" and "(tail q + 1) mod capacity q \<noteq> head q"
  shows "consumer_inv (q\<lparr>tail := (tail q + 1) mod capacity q\<rparr>) c"
  using assms by (cases c) auto

lemma producer_inv_head:
  assumes "producer_inv q p" and "ring_wf q" and "head q \<noteq> tail q"
  shows "producer_inv (q\<lparr>head := (head q + 1) mod capacity q\<rparr>) p"
proof -
  have "(tail q + 1) mod capacity q \<noteq> (head q + 1) mod capacity q"
    using assms(2,3) by (auto simp: ring_wf_def next_mod split: if_splits)
  with assms(1) show ?thesis by (cases p) auto
qed

lemma spsc_inv_step: "spsc_step s s' \<Longrightarrow> spsc_inv s \<Longrightarrow> spsc_inv s'"
proof (induction rule: spsc_step.induct)
  case (store_slot s cid t)
  then have "t = tail (ring s)" and wf: "ring_wf (ring s)"
    and f: "(tail (ring s) + 1) mod capacity (ring s) \<noteq> head (ring s)"
    by (simp_all add: spsc_inv_def)
  moreover from wf have "ring_wf ((ring s)\<lparr>buffer := (buffer (ring s))[tail (ring s) := conn_index cid]\<rparr>)"
    by (simp add: ring_wf_def)
  ultimately show ?case
    using store_slot.prems wf consumer_inv_store [of "ring s" "cons s"]
    by (simp add: spsc_inv_def ring_words_store) (simp add: ring_wf_def)
next
  case (store_tail s cid t)
  then have t: "t = tail (ring s)" "buffer (ring s) ! tail (ring s) = conn_index cid"
    and wf: "ring_wf (ring s)" and f: "(tail (ring s) + 1) mod capacity (ring s) \<noteq> head (ring s)"
    by (simp_all add: spsc_inv_def)
  with store_tail.prems ring_words_tail [OF wf f] consumer_inv_tail [of "ring s" "cons s"]
  show ?case by (simp add: spsc_inv_def)
next
  case (store_head s h v)
  then have h: "h = head (ring s)" "v = buffer (ring s) ! head (ring s)"
    and wf: "ring_wf (ring s)" and n: "head (ring s) \<noteq> tail (ring s)"
    by (simp_all add: spsc_inv_def)
  with store_head.prems ring_words_head [OF wf n] producer_inv_head [of "ring s" "prod s"]
  show ?case by (simp add: spsc_inv_def)
qed (simp_all add: spsc_inv_def)

lemma spsc_inv_init: "0 < cap \<Longrightarrow> spsc_inv (spsc_init cap)"
  using ring_inv_new [of cap]
  by (simp add: spsc_inv_def spsc_init_def ring_inv_def) (simp add: ring_words_def ring_new_def ring_len_def)

lemma spsc_inv_reachable: "spsc_step\<^sup>*\<^sup>* (spsc_init cap) s \<Longrightarrow> 0 < cap \<Longrightarrow> spsc_inv s"
  by (induction rule: rtranclp_induct) (auto intro: spsc_inv_init spsc_inv_step)

text \<open>Run without interruption, the producer's four accesses are \<open>push\<close>, the consumer's are \<open>pop\<close>.\<close>

lemma push_uninterrupted:
  assumes "prod s = PIdle" and "ring_wf (ring s)" and "ring_push (ring s) cid = (q', Inr ())"
  shows "spsc_step\<^sup>*\<^sup>* s (s\<lparr>prod := PIdle, pushed := pushed s @ [conn_index cid], ring := q'\<rparr>)"
proof -
  let ?t = "tail (ring s)" and ?q = "ring s"
  from assms(2,3) have room: "(?t + 1) mod capacity ?q \<noteq> head ?q"
    and q': "q' = ?q\<lparr>buffer := (buffer ?q)[?t := conn_index cid], tail := (?t + 1) mod capacity ?q\<rparr>"
    by (auto simp: ring_push_def ring_wf_def Let_def split: if_splits)
  have "spsc_step s (s\<lparr>prod := PTail cid ?t\<rparr>)" using assms(1) by (rule load_tail)
  moreover have "spsc_step (s\<lparr>prod := PTail cid ?t\<rparr>) (s\<lparr>prod := PStore cid ?t\<rparr>)"
    using not_full [of "s\<lparr>prod := PTail cid ?t\<rparr>" cid ?t] room by simp
  moreover have "spsc_step (s\<lparr>prod := PStore cid ?t\<rparr>)
      (s\<lparr>prod := PCommit cid ?t, ring := ?q\<lparr>buffer := (buffer ?q)[?t := conn_index cid]\<rparr>\<rparr>)"
    using store_slot [of "s\<lparr>prod := PStore cid ?t\<rparr>" cid ?t] by simp
  moreover have "spsc_step
      (s\<lparr>prod := PCommit cid ?t, ring := ?q\<lparr>buffer := (buffer ?q)[?t := conn_index cid]\<rparr>\<rparr>)
      (s\<lparr>prod := PIdle, pushed := pushed s @ [conn_index cid], ring := q'\<rparr>)"
    using store_tail [of "s\<lparr>prod := PCommit cid ?t,
      ring := ?q\<lparr>buffer := (buffer ?q)[?t := conn_index cid]\<rparr>\<rparr>" cid ?t] assms(1)
    by (simp add: q')
  ultimately show ?thesis by (meson converse_rtranclp_into_rtranclp rtranclp.rtrancl_refl)
qed

section \<open>Properties\<close>

text \<open>
  C26: The queue is first in, first out, and neither loses nor duplicates. For any capacity but
  zero and any sequence of pushes and pops of connection identifiers on a new queue, no call
  panics, the accepted identifiers are those popped followed by those still queued, in order,
  and at most capacity less one are queued.
\<close>

theorem ring_fifo:
  assumes "0 < cap" and "\<forall>p \<in> set ops. op_ok id_ok p"
    and "queue_run ring_push ring_pop (ring_new cap) ops = (q, accepted, out, panicked)"
  shows "accepted = out @ ring_contents q \<and> length (ring_contents q) \<le> cap - 1 \<and> \<not> panicked"
  using rq.fifo [OF ring_inv_new [OF assms(1)] assms(2,3)] rq.bounded [of q]
  by (simp add: ring_room_def) (simp add: ring_new_def)

theorem ring_fifo_witness:
  "[ConnId 7, ConnId 8] = [ConnId 7] @ ring_contents
     (fst (queue_run ring_push ring_pop (ring_new 3) [QPush (ConnId 7), QPush (ConnId 8), QPush (ConnId 9), QPop]))"
proof -
  let ?ops = "[QPush (ConnId 7), QPush (ConnId 8), QPush (ConnId 9), QPop]"
  have new: "ring_new 3 = \<lparr> buffer = [USIZE_MAX, USIZE_MAX, USIZE_MAX], capacity = 3, head = 0, tail = 0 \<rparr>"
    by (simp add: ring_new_def numeral_3_eq_3)
  have m: "USIZE_MAX = 18446744073709551615" by (simp add: USIZE_MAX_def)
  have run: "queue_run ring_push ring_pop (ring_new 3) ?ops =
      (fst (queue_run ring_push ring_pop (ring_new 3) ?ops), [ConnId 7, ConnId 8], [ConnId 7], False)"
    unfolding new by (simp add: ring_push_def ring_pop_def m Let_def)
  have "\<forall>p \<in> set ?ops. op_ok id_ok p" by (simp add: id_ok_def USIZE_MAX_def)
  from ring_fifo [OF _ this run] show ?thesis by simp
qed

text \<open>
  The exact capacity of a queue. A push is accepted exactly when the length is below the
  capacity less one, otherwise it returns the identifier and leaves the queue as it was; a pop
  returns nothing exactly when the length is zero. So a queue of capacity one never accepts
  anything, and a queue of capacity zero panics on the first push.
\<close>

lemma ring_capacity_exact:
  assumes "ring_inv q" and "id_ok cid"
  shows "(snd (ring_push q cid) = Inr () \<longleftrightarrow> ring_len q + 1 < capacity q)
    \<and> (capacity q \<le> ring_len q + 1 \<longrightarrow> ring_push q cid = (q, Inl (Error cid)))
    \<and> (snd (ring_pop q) = Inr None \<longleftrightarrow> ring_len q = 0)
    \<and> ring_push (ring_new 0) cid = (ring_new 0, Inl Panic)"
proof -
  have room: "length (ring_contents q) < ring_room q \<longleftrightarrow> ring_len q + 1 < capacity q"
    by (auto simp: ring_room_def)
  have "snd (ring_push q cid) = Inr ()" if "ring_len q + 1 < capacity q"
    using rq.push_room [OF assms] that room by fastforce
  moreover have "ring_push q cid = (q, Inl (Error cid))" if "capacity q \<le> ring_len q + 1"
    using rq.push_full [OF assms(1)] that room by simp
  moreover have "snd (ring_pop q) = Inr None \<longleftrightarrow> ring_len q = 0"
  proof (cases "ring_contents q")
    case Nil
    with rq.pop_none [OF assms(1) Nil] length_ring_contents [of q] show ?thesis by simp
  next
    case (Cons a as)
    with rq.pop_some [OF assms(1) Cons] length_ring_contents [of q] show ?thesis by auto
  qed
  moreover have "ring_push (ring_new 0) cid = (ring_new 0, Inl Panic)"
    by (simp add: ring_push_def ring_new_def)
  ultimately show ?thesis
    by (cases "ring_len q + 1 < capacity q") simp_all
qed

theorem ring_capacity_exact_witness:
  "ring_push (ring_new 1) (ConnId 5) = (ring_new 1, Inl (Error (ConnId 5)))"
  using ring_capacity_exact [OF ring_inv_new, of 1 "ConnId 5"]
  by (simp add: id_ok_def USIZE_MAX_def ring_len_def) (simp add: ring_new_def)

text \<open>
  C14: The queue is correct between two threads. In every state that the producer and the
  consumer can reach by interleaving their loads and stores in any order, the words whose push
  has completed are exactly the words handed out followed by the words between head and tail,
  in order; a slot is never read before it is written nor overwritten before it is read. When
  the producer is about to report "full" the queue holds capacity less one words, and when the
  consumer is about to report "empty" it holds none.
\<close>

theorem spsc_fifo:
  assumes "0 < cap" and "spsc_step\<^sup>*\<^sup>* (spsc_init cap) s"
  shows "pushed s = popped s @ ring_words (ring s)
    \<and> (\<forall>h v. cons s = CCommit h v \<longrightarrow> (\<exists>rest. pushed s = popped s @ v # rest))
    \<and> (\<forall>cid t. prod s = PTail cid t \<and> (t + 1) mod capacity (ring s) = head (ring s)
         \<longrightarrow> length (ring_words (ring s)) + 1 = capacity (ring s))
    \<and> (\<forall>h. cons s = CHead h \<and> h = tail (ring s) \<longrightarrow> ring_words (ring s) = [])"
proof -
  have inv: "spsc_inv s" using spsc_inv_reachable assms by blast
  then have wf: "ring_wf (ring s)" by (simp add: spsc_inv_def)
  have "\<exists>rest. pushed s = popped s @ v # rest" if "cons s = CCommit h v" for h v
    using inv that ring_words_head(1) [OF wf] by (auto simp: spsc_inv_def)
  moreover have "length (ring_words (ring s)) + 1 = capacity (ring s)"
    if "prod s = PTail cid t" "(t + 1) mod capacity (ring s) = head (ring s)" for cid t
    using inv that ring_full_iff [OF wf] by (simp add: spsc_inv_def)
  moreover have "ring_words (ring s) = []" if "cons s = CHead h" "h = tail (ring s)" for h
    using inv that ring_empty_iff [OF wf] by (simp add: spsc_inv_def)
  ultimately show ?thesis using inv by (auto simp: spsc_inv_def)
qed

theorem spsc_fifo_witness:
  "\<exists>s. spsc_step\<^sup>*\<^sup>* (spsc_init 2) s \<and> pushed s = [5] \<and> pushed s = popped s @ ring_words (ring s)"
proof -
  let ?s = "spsc_init 2"
  obtain q where q: "ring_push (ring ?s) (ConnId 5) = (q, Inr ())"
    by (simp add: spsc_init_def ring_push_def ring_new_def Let_def numeral_2_eq_2)
  have "prod ?s = PIdle" "ring_wf (ring ?s)"
    using ring_inv_new [of 2] by (simp_all add: spsc_init_def ring_inv_def)
  from push_uninterrupted [OF this q] have
    "spsc_step\<^sup>*\<^sup>* ?s (?s\<lparr>prod := PIdle, pushed := pushed ?s @ [conn_index (ConnId 5)], ring := q\<rparr>)" .
  moreover from spsc_fifo [OF _ this] have "pushed (?s\<lparr>prod := PIdle, pushed := pushed ?s @ [conn_index (ConnId 5)], ring := q\<rparr>)
      = popped (?s\<lparr>prod := PIdle, pushed := pushed ?s @ [conn_index (ConnId 5)], ring := q\<rparr>) @ ring_words q"
    by simp
  ultimately show ?thesis
    by (intro exI [of _ "?s\<lparr>prod := PIdle, pushed := pushed ?s @ [conn_index (ConnId 5)], ring := q\<rparr>"])
      (simp add: spsc_init_def)
qed

end
