(* ===== verification/Conn_Slab.thy ===== *)
theory Conn_Slab
  imports Net Ring_Queue
begin

text \<open>
  Connections and their slab: \<open>ners-core/src/conn.rs\<close>. The per-connection record, the slab of
  pre-allocated slots with its stack of free indices, and the interface of a store that hands
  out identifiers: what the slab promises its callers, and what follows for any sequence of
  insertions and removals of live connections.
\<close>

section \<open>Connections\<close>

datatype conn_lifecycle =
  WaitingForRequest | Parsing | Routed | Processing | Sending | LcClosed

datatype route_id = RouteId usize

text \<open>\<open>Instant\<close> is the reading of the monotonic clock.\<close>

type_synonym instant = nat

record conn_state =
  read_buf :: bytes
  write_buf :: bytes
  lifecycle :: conn_lifecycle
  route :: "route_id option"
  request_method :: "str option"
  request_path :: "str option"
  created_at :: instant
  stream :: "tcp_stream option"
  bytes_written :: usize

definition conn_new :: "instant \<Rightarrow> tcp_stream \<Rightarrow> conn_state" where
  "conn_new now s =
     \<lparr> read_buf = [], write_buf = [], lifecycle = WaitingForRequest, route = None,
       request_method = None, request_path = None, created_at = now, stream = Some s,
       bytes_written = 0 \<rparr>"

definition conn_reset :: "instant \<Rightarrow> conn_state \<Rightarrow> conn_state" where
  "conn_reset now c =
     c\<lparr> read_buf := [], write_buf := [], lifecycle := WaitingForRequest, route := None,
       request_method := None, request_path := None, created_at := now, stream := None,
       bytes_written := 0 \<rparr>"

section \<open>The slab\<close>

record conn_slab =
  slots :: "conn_state option list"
  free_list :: "usize list" \<comment> \<open>a stack whose top is the last element\<close>
  slab_capacity :: usize

definition slab_new :: "usize \<Rightarrow> conn_slab" where
  "slab_new cap =
     (let indices = rev [0..<cap] in
      \<lparr> slots = map (\<lambda>_. None) indices, free_list = indices, slab_capacity = cap \<rparr>)"

definition slab_insert :: "conn_slab \<Rightarrow> conn_state \<Rightarrow> conn_slab \<times> (unit, conn_id option) result" where
  "slab_insert slab conn =
     (if free_list slab = [] then (slab, Inr None)
      else
        let idx = last (free_list slab);
            slab = slab\<lparr>free_list := butlast (free_list slab)\<rparr>
        in if idx < length (slots slab)
           then (slab\<lparr>slots := (slots slab)[idx := Some conn]\<rparr>, Inr (Some (ConnId idx)))
           else (slab, Inl Panic))"

definition slab_get :: "conn_slab \<Rightarrow> conn_id \<Rightarrow> conn_state option" where
  "slab_get slab cid =
     (if conn_index cid < length (slots slab) then slots slab ! conn_index cid else None)"

text \<open>A change through the reference \<open>get_mut\<close> returns.\<close>

definition slab_put :: "conn_slab \<Rightarrow> conn_id \<Rightarrow> conn_state \<Rightarrow> conn_slab" where
  "slab_put slab cid conn = slab\<lparr>slots := (slots slab)[conn_index cid := Some conn]\<rparr>"

text \<open>
  The connection is reset, then its slot is vacated and its index pushed, whether or not the
  slot was occupied.
\<close>

definition slab_remove :: "conn_slab \<Rightarrow> conn_id \<Rightarrow> conn_slab \<times> (unit, unit) result" where
  "slab_remove slab cid =
     (if conn_index cid < slab_capacity slab then
        if conn_index cid < length (slots slab)
        then (slab\<lparr>slots := (slots slab)[conn_index cid := None],
                   free_list := free_list slab @ [conn_index cid]\<rparr>, Inr ())
        else (slab, Inl Panic)
      else (slab, Inr ()))"

definition vacant_count :: "conn_slab \<Rightarrow> usize" where
  "vacant_count slab = length (free_list slab)"

definition active_count :: "conn_slab \<Rightarrow> usize" where
  "active_count slab = usize_sub (slab_capacity slab) (length (free_list slab))"

section \<open>The interface of a slot store\<close>

text \<open>
  What the callers rely on: an insertion into a store that is not full returns an identifier
  that was not live, a removal of a live identifier frees exactly it, and nothing else changes.
\<close>

datatype 'v slot_op = SInsert 'v | SRemove nat

text \<open>
  A run of insertions and of removals of the n-th live entry, with the list of live
  identifiers and their values in order of insertion.
\<close>

fun slot_run :: "('s \<Rightarrow> 'v \<Rightarrow> 's \<times> (unit, 'k option) result) \<Rightarrow> ('s \<Rightarrow> 'k \<Rightarrow> 's \<times> (unit, unit) result)
    \<Rightarrow> 'v slot_op list \<Rightarrow> 's \<Rightarrow> ('k \<times> 'v) list \<Rightarrow> 's \<times> ('k \<times> 'v) list" where
  "slot_run ins rem [] s live = (s, live)"
| "slot_run ins rem (SInsert v # ops) s live =
     (case ins s v of
        (s', Inr (Some k)) \<Rightarrow> slot_run ins rem ops s' (live @ [(k, v)])
      | (s', _) \<Rightarrow> slot_run ins rem ops s' live)"
| "slot_run ins rem (SRemove n # ops) s live =
     (if n < length live
      then slot_run ins rem ops (fst (rem s (fst (live ! n)))) (take n live @ drop (Suc n) live)
      else slot_run ins rem ops s live)"

locale slot_store =
  fixes insert :: "'s \<Rightarrow> 'v \<Rightarrow> 's \<times> (unit, 'k option) result"
    and lookup :: "'s \<Rightarrow> 'k \<Rightarrow> 'v option"
    and remove :: "'s \<Rightarrow> 'k \<Rightarrow> 's \<times> (unit, unit) result"
    and vacant :: "'s \<Rightarrow> nat"
    and inv :: "'s \<Rightarrow> bool"
  assumes insert_fresh: "inv s \<Longrightarrow> 0 < vacant s \<Longrightarrow> \<exists>s' k. insert s v = (s', Inr (Some k))
      \<and> lookup s k = None \<and> inv s' \<and> vacant s' = vacant s - 1
      \<and> (\<forall>j. lookup s' j = (if j = k then Some v else lookup s j))"
    and insert_full: "inv s \<Longrightarrow> vacant s = 0 \<Longrightarrow> insert s v = (s, Inr None)"
    and remove_live: "inv s \<Longrightarrow> lookup s k = Some v \<Longrightarrow> \<exists>s'. remove s k = (s', Inr ())
      \<and> inv s' \<and> vacant s' = vacant s + 1
      \<and> (\<forall>j. lookup s' j = (if j = k then None else lookup s j))"
begin

text \<open>The store gives the lookups of the list, and no identifier is live twice.\<close>

definition agrees :: "'s \<Rightarrow> ('k \<times> 'v) list \<Rightarrow> bool" where
  "agrees s live \<longleftrightarrow> distinct (map fst live) \<and> (\<forall>k. lookup s k = map_of live k)"

lemma agrees_insert:
  assumes "agrees s live" and "lookup s k = None"
    and "\<forall>j. lookup s' j = (if j = k then Some v else lookup s j)"
  shows "agrees s' (live @ [(k, v)])"
proof -
  have none: "map_of live k = None" using assms(1,2) by (simp add: agrees_def)
  then have "k \<notin> fst ` set live" by (simp add: map_of_eq_None_iff)
  moreover have "lookup s' j = map_of (live @ [(k, v)]) j" for j
    using assms none by (simp add: agrees_def map_add_def split: option.split)
  ultimately show ?thesis using assms(1) by (simp add: agrees_def)
qed

lemma agrees_remove:
  assumes "agrees s live" and "n < length live"
    and "\<forall>j. lookup s' j = (if j = fst (live ! n) then None else lookup s j)"
  shows "agrees s' (take n live @ drop (Suc n) live)"
proof -
  let ?a = "take n live" and ?b = "drop (Suc n) live"
  have split: "live = ?a @ live ! n # ?b" using assms(2) by (rule id_take_nth_drop)
  have d: "distinct (map fst (?a @ live ! n # ?b))"
    using assms(1) split by (simp add: agrees_def)
  then have none: "map_of ?a (fst (live ! n)) = None" "map_of ?b (fst (live ! n)) = None"
    by (auto simp: map_of_eq_None_iff)
  have "map_of live j = map_of (?a @ live ! n # ?b) j" for j using split by simp
  then have "lookup s' j = map_of (?a @ ?b) j" for j
    using assms(1,3) none by (cases "live ! n") (auto simp: agrees_def map_add_def split: option.splits)
  with d show ?thesis by (simp add: agrees_def)
qed

lemma run_agrees:
  "inv s \<Longrightarrow> agrees s live \<Longrightarrow> slot_run insert remove ops s live = (s', live') \<Longrightarrow>
   inv s' \<and> agrees s' live' \<and> vacant s' + length live' = vacant s + length live"
proof (induction ops arbitrary: s live)
  case (Cons a ops)
  show ?case
  proof (cases a)
    case (SInsert v)
    show ?thesis
    proof (cases "vacant s = 0")
      case True
      with insert_full [OF Cons.prems(1) True, of v] SInsert Cons.prems(3)
      have "slot_run insert remove ops s live = (s', live')" by simp
      then show ?thesis by (rule Cons.IH [OF Cons.prems(1,2)])
    next
      case False
      with insert_fresh [OF Cons.prems(1), of v] obtain s1 k where
        1: "insert s v = (s1, Inr (Some k))" "lookup s k = None" "inv s1" "vacant s1 = vacant s - 1"
          "\<forall>j. lookup s1 j = (if j = k then Some v else lookup s j)" by auto
      with SInsert Cons.prems(3) have "slot_run insert remove ops s1 (live @ [(k, v)]) = (s', live')" by simp
      from Cons.IH [OF 1(3) agrees_insert [OF Cons.prems(2) 1(2,5)] this] 1(4) False
      show ?thesis by simp
    qed
  next
    case (SRemove n)
    show ?thesis
    proof (cases "n < length live")
      case True
      then have "lookup s (fst (live ! n)) = Some (snd (live ! n))"
        using Cons.prems(2) by (simp add: agrees_def)
      from remove_live [OF Cons.prems(1) this] obtain s1 where
        1: "remove s (fst (live ! n)) = (s1, Inr ())" "inv s1" "vacant s1 = vacant s + 1"
          "\<forall>j. lookup s1 j = (if j = fst (live ! n) then None else lookup s j)" by auto
      with SRemove True Cons.prems(3) have "slot_run insert remove ops s1 (take n live @ drop (Suc n) live) = (s', live')"
        by simp
      from Cons.IH [OF 1(2) agrees_remove [OF Cons.prems(2) True 1(4)] this] 1(3) True
      show ?thesis by simp
    next
      case False
      with SRemove Cons.prems Cons.IH [OF Cons.prems(1,2)] show ?thesis by simp
    qed
  qed
qed simp

end

section \<open>The slab is a slot store\<close>

definition slab_wf :: "conn_slab \<Rightarrow> bool" where
  "slab_wf slab \<longleftrightarrow> length (slots slab) = slab_capacity slab \<and> distinct (free_list slab)
     \<and> set (free_list slab) = {i. i < slab_capacity slab \<and> slots slab ! i = None}"

lemma slab_wf_new: "slab_wf (slab_new cap)"
  by (auto simp: slab_wf_def slab_new_def Let_def)

lemma slab_get_new [simp]: "slab_get (slab_new cap) cid = None"
  by (simp add: slab_get_def slab_new_def Let_def)

lemma slab_get_live: "slab_get slab cid = Some c \<Longrightarrow> conn_index cid < length (slots slab)"
  by (simp add: slab_get_def split: if_splits)

lemma slab_get_put:
  "slab_get slab cid = Some c \<Longrightarrow>
   slab_get (slab_put slab cid c') j = (if j = cid then Some c' else slab_get slab j)"
  by (cases j; cases cid) (auto simp: slab_get_def slab_put_def nth_list_update split: if_splits)

lemma slab_wf_put:
  assumes "slab_wf slab" and "slab_get slab cid = Some c"
  shows "slab_wf (slab_put slab cid c')"
proof -
  have "slots slab ! conn_index cid \<noteq> None"
    using assms(2) by (simp add: slab_get_def split: if_splits)
  then have "(slots slab)[conn_index cid := Some c'] ! i = None \<longleftrightarrow> slots slab ! i = None"
    if "i < length (slots slab)" for i
    using that by (cases "i = conn_index cid") simp_all
  then have "{i. i < slab_capacity slab \<and> slots (slab_put slab cid c') ! i = None}
      = {i. i < slab_capacity slab \<and> slots slab ! i = None}"
    using assms(1) by (auto simp: slab_put_def slab_wf_def)
  with assms(1) show ?thesis by (simp add: slab_wf_def slab_put_def)
qed

lemma slab_put_free [simp]: "free_list (slab_put slab cid c) = free_list slab"
  by (simp add: slab_put_def)

lemma slab_put_capacity [simp]: "slab_capacity (slab_put slab cid c) = slab_capacity slab"
  by (simp add: slab_put_def)

interpretation cs: slot_store slab_insert slab_get slab_remove vacant_count slab_wf
proof
  fix s v
  assume wf: "slab_wf s" and vac: "0 < vacant_count s"
  then obtain xs i where f: "free_list s = xs @ [i]"
    by (cases "free_list s" rule: rev_cases) (auto simp: vacant_count_def)
  with wf have i: "i < slab_capacity s" "slots s ! i = None" "i \<notin> set xs" "distinct xs"
    and xs: "set xs = {j. j < slab_capacity s \<and> slots s ! j = None} - {i}"
    by (auto simp: slab_wf_def)
  let ?s = "s\<lparr>free_list := xs, slots := (slots s)[i := Some v]\<rparr>"
  have "slab_insert s v = (?s, Inr (Some (ConnId i)))"
    using f i wf by (simp add: slab_insert_def slab_wf_def Let_def)
  moreover have "slab_wf ?s"
    using wf i xs by (auto simp: slab_wf_def nth_list_update)
  moreover have "slab_get ?s j = (if j = ConnId i then Some v else slab_get s j)" for j
    using wf i by (cases j) (auto simp: slab_get_def slab_wf_def)
  moreover have "slab_get s (ConnId i) = None" using i by (simp add: slab_get_def)
  ultimately show "\<exists>s' k. slab_insert s v = (s', Inr (Some k)) \<and> slab_get s k = None \<and> slab_wf s'
      \<and> vacant_count s' = vacant_count s - 1
      \<and> (\<forall>j. slab_get s' j = (if j = k then Some v else slab_get s j))"
    using f by (intro exI [of _ ?s] exI [of _ "ConnId i"]) (simp add: vacant_count_def)
next
  fix s v
  assume "slab_wf s" and "vacant_count s = 0"
  then show "slab_insert s v = (s, Inr None)" by (simp add: slab_insert_def vacant_count_def)
next
  fix s cid v
  assume wf: "slab_wf s" and live: "slab_get s cid = Some v"
  obtain i where c: "cid = ConnId i" by (cases cid)
  from wf live have i: "i < slab_capacity s" "slots s ! i = Some v" "i \<notin> set (free_list s)"
    by (auto simp: slab_get_def slab_wf_def c split: if_splits)
  let ?s = "s\<lparr>slots := (slots s)[i := None], free_list := free_list s @ [i]\<rparr>"
  have "slab_remove s cid = (?s, Inr ())"
    using i wf by (simp add: slab_remove_def slab_wf_def c)
  moreover have "slab_wf ?s"
    using wf i by (auto simp: slab_wf_def nth_list_update)
  moreover have "slab_get ?s j = (if j = cid then None else slab_get s j)" for j
    using wf i by (cases j) (auto simp: slab_get_def slab_wf_def c)
  ultimately show "\<exists>s'. slab_remove s cid = (s', Inr ()) \<and> slab_wf s'
      \<and> vacant_count s' = vacant_count s + 1
      \<and> (\<forall>j. slab_get s' j = (if j = cid then None else slab_get s j))"
    by (intro exI [of _ ?s]) (simp add: vacant_count_def)
qed

section \<open>Properties\<close>

text \<open>
  C22: The slab never hands out an identifier that is in use. After any sequence of insertions
  and of removals of live connections on a new slab, the live identifiers are distinct, looking
  one up gives exactly the connection it was given for, every other identifier gives nothing,
  and \<open>active_count\<close> is the number of live connections, at most the capacity.
\<close>

theorem slab_no_alias:
  assumes "cap < 2 ^ 64" and "slot_run slab_insert slab_remove ops (slab_new cap) [] = (slab, live)"
  shows "distinct (map fst live) \<and> (\<forall>cid. slab_get slab cid = map_of live cid)
    \<and> active_count slab = length live \<and> vacant_count slab + length live = cap"
proof -
  have "cs.agrees (slab_new cap) []" by (simp add: cs.agrees_def)
  from cs.run_agrees [OF slab_wf_new this assms(2)]
  have r: "slab_wf slab" "cs.agrees slab live" "vacant_count slab + length live = vacant_count (slab_new cap)"
    by simp_all
  have "slab_capacity (fst (slot_run slab_insert slab_remove ops s l)) = slab_capacity s" for s l
    by (induction slab_insert slab_remove ops s l rule: slot_run.induct)
      (auto simp: slab_insert_def slab_remove_def Let_def split: prod.splits sum.splits option.splits if_splits)
  from this [of "slab_new cap" "[]"] assms(2) have "slab_capacity slab = cap"
    by (simp add: slab_new_def Let_def)
  moreover have "vacant_count (slab_new cap) = cap" by (simp add: vacant_count_def slab_new_def Let_def)
  ultimately show ?thesis
    using r assms(1) by (auto simp: cs.agrees_def active_count_def vacant_count_def usize_sub_exact)
qed

theorem slab_no_alias_witness:
  "(let s = \<lparr> rx = [], tx = [], wire = [] \<rparr>;
        r = slot_run slab_insert slab_remove
          [SInsert (conn_new 1 s), SInsert (conn_new 2 s), SRemove 0, SInsert (conn_new 3 s)] (slab_new 2) []
    in distinct (map fst (snd r)) \<and> active_count (fst r) = length (snd r))"
  unfolding Let_def using slab_no_alias [OF _ prod.collapse [symmetric], of 2] by (simp del: slot_run.simps)

text \<open>
  Removing a vacant slot breaks the slab. \<open>remove\<close> pushes the index even when the slot is
  already free, so after a connection is removed twice the next two insertions succeed with the
  same identifier, the second replaces the first connection, and \<open>active_count\<close> is one too low.
\<close>

lemma double_remove_aliases:
  assumes "slab_wf slab" and "slab_get slab cid = Some c"
  shows "\<exists>s1 s2 s3 s4. slab_remove slab cid = (s1, Inr ()) \<and> slab_remove s1 cid = (s2, Inr ())
    \<and> slab_insert s2 a = (s3, Inr (Some cid)) \<and> slab_insert s3 b = (s4, Inr (Some cid))
    \<and> slab_get s4 cid = Some b \<and> vacant_count s4 = vacant_count slab"
proof -
  obtain i where c: "cid = ConnId i" by (cases cid)
  from assms have i: "i < slab_capacity slab" "i < length (slots slab)"
    by (auto simp: slab_get_def slab_wf_def c split: if_splits)
  then show ?thesis
    by (simp add: slab_remove_def slab_insert_def c slab_get_def vacant_count_def Let_def butlast_append)
qed

theorem double_remove_aliases_witness:
  "\<exists>s1 s2 s3 s4. slab_remove (fst (slab_insert (slab_new 1) (conn_new 0 \<lparr> rx = [], tx = [], wire = [] \<rparr>))) (ConnId 0) = (s1, Inr ())
    \<and> slab_remove s1 (ConnId 0) = (s2, Inr ())
    \<and> slab_insert s2 (conn_new 5 \<lparr> rx = [], tx = [], wire = [] \<rparr>) = (s3, Inr (Some (ConnId 0)))
    \<and> slab_insert s3 (conn_new 6 \<lparr> rx = [], tx = [], wire = [] \<rparr>) = (s4, Inr (Some (ConnId 0)))
    \<and> slab_get s4 (ConnId 0) = Some (conn_new 6 \<lparr> rx = [], tx = [], wire = [] \<rparr>) \<and> vacant_count s4 = 0"
proof -
  let ?c = "conn_new 0 \<lparr> rx = [], tx = [], wire = [] \<rparr>"
  let ?s = "fst (slab_insert (slab_new 1) ?c)"
  have new: "slab_new 1 = \<lparr> slots = [None], free_list = [0], slab_capacity = 1 \<rparr>"
    by (simp add: slab_new_def Let_def)
  have s: "?s = \<lparr> slots = [Some ?c], free_list = [], slab_capacity = 1 \<rparr>"
    unfolding new by (simp add: slab_insert_def)
  have "slab_wf ?s" "slab_get ?s (ConnId 0) = Some ?c" "vacant_count ?s = 0"
    unfolding s by (auto simp: slab_wf_def slab_get_def vacant_count_def)
  with double_remove_aliases [of ?s "ConnId 0" ?c "conn_new 5 \<lparr> rx = [], tx = [], wire = [] \<rparr>"
      "conn_new 6 \<lparr> rx = [], tx = [], wire = [] \<rparr>"] show ?thesis by (simp only:)
qed

end
