(* ===== verification/Metrics.thy ===== *)
theory Metrics
  imports Ners_Prelude
begin

text \<open>
  The metrics: \<open>ners-metrics/src/lib.rs\<close>. Counters are \<open>AtomicU64\<close>, so 64-bit words whose
  \<open>fetch_add\<close> and \<open>fetch_sub\<close> wrap; every method but one is a single atomic step. The
  compare-and-exchange loop of \<open>record_latency\<close> is also given as the steps of any number of
  threads, with the lemma that the maximum survives every interleaving.
\<close>

section \<open>Per-stage metrics\<close>

record stage_metrics =
  stage_id :: str
  processed_count :: u64
  current_queue_len :: u64
  latency_sum_ns :: u64
  latency_max_ns :: u64
  errors :: u64

definition stage_metrics_new :: "str \<Rightarrow> stage_metrics" where
  "stage_metrics_new name =
     \<lparr> stage_id = name, processed_count = 0, current_queue_len = 0, latency_sum_ns = 0, latency_max_ns = 0, errors = 0 \<rparr>"

definition inc_processed :: "stage_metrics \<Rightarrow> stage_metrics" where
  "inc_processed m = m\<lparr>processed_count := processed_count m + 1\<rparr>"

definition stage_inc_queue_len :: "stage_metrics \<Rightarrow> stage_metrics" where
  "stage_inc_queue_len m = m\<lparr>current_queue_len := current_queue_len m + 1\<rparr>"

definition stage_dec_queue_len :: "stage_metrics \<Rightarrow> stage_metrics" where
  "stage_dec_queue_len m = m\<lparr>current_queue_len := current_queue_len m - 1\<rparr>"

definition inc_errors :: "stage_metrics \<Rightarrow> stage_metrics" where
  "inc_errors m = m\<lparr>errors := errors m + 1\<rparr>"

text \<open>Without interference the exchange succeeds at once.\<close>

definition record_latency :: "u64 \<Rightarrow> stage_metrics \<Rightarrow> stage_metrics" where
  "record_latency latency_ns m =
     (let m = m\<lparr>latency_sum_ns := latency_sum_ns m + latency_ns\<rparr> in
      if latency_max_ns m < latency_ns then m\<lparr>latency_max_ns := latency_ns\<rparr> else m)"

text \<open>A snapshot loads the five counters; \<open>avg_latency_ns\<close> divides two of them.\<close>

definition stage_snapshot :: "stage_metrics \<Rightarrow> stage_metrics" where
  "stage_snapshot m =
     \<lparr> stage_id = stage_id m, processed_count = processed_count m, current_queue_len = current_queue_len m,
       latency_sum_ns = latency_sum_ns m, latency_max_ns = latency_max_ns m, errors = errors m \<rparr>"

definition avg_latency_ns :: "stage_metrics \<Rightarrow> u64" where
  "avg_latency_ns snap =
     (if 0 < processed_count snap then latency_sum_ns snap div processed_count snap else 0)"

section \<open>The collector\<close>

record metrics_collector =
  stages :: "(str \<times> stage_metrics) list"
  total_conns :: u64
  total_requests :: u64

definition stage_ids :: "str list" where
  "stage_ids = map lit [''net_in'', ''parse'', ''route'', ''app'', ''encode'', ''net_out'']"

definition metrics_new :: metrics_collector where
  "metrics_new =
     \<lparr> stages = fold (\<lambda>name. hm_insert name (stage_metrics_new name)) stage_ids [],
       total_conns = 0, total_requests = 0 \<rparr>"

definition stage :: "str \<Rightarrow> metrics_collector \<Rightarrow> stage_metrics option" where
  "stage name m = hm_get name (stages m)"

text \<open>\<open>if let Some(stage) = metrics.stage(id)\<close>: an update through the reference.\<close>

definition on_stage :: "str \<Rightarrow> (stage_metrics \<Rightarrow> stage_metrics) \<Rightarrow> metrics_collector \<Rightarrow> metrics_collector" where
  "on_stage name f m = m\<lparr>stages := hm_modify name f (stages m)\<rparr>"

definition inc_queue_len :: "str \<Rightarrow> metrics_collector \<Rightarrow> metrics_collector" where
  "inc_queue_len name m = on_stage name stage_inc_queue_len m"

definition dec_queue_len :: "str \<Rightarrow> metrics_collector \<Rightarrow> metrics_collector" where
  "dec_queue_len name m = on_stage name stage_dec_queue_len m"

definition inc_total_conns :: "metrics_collector \<Rightarrow> metrics_collector" where
  "inc_total_conns m = m\<lparr>total_conns := total_conns m + 1\<rparr>"

definition dec_total_conns :: "metrics_collector \<Rightarrow> metrics_collector" where
  "dec_total_conns m = m\<lparr>total_conns := total_conns m - 1\<rparr>"

definition inc_total_requests :: "metrics_collector \<Rightarrow> metrics_collector" where
  "inc_total_requests m = m\<lparr>total_requests := total_requests m + 1\<rparr>"

definition metrics_reset :: "metrics_collector \<Rightarrow> metrics_collector" where
  "metrics_reset m =
     m\<lparr>stages := hm_map (\<lambda>s. stage_metrics_new (stage_id s)) (stages m), total_conns := 0, total_requests := 0\<rparr>"

text \<open>
  A snapshot copies the counters into a new map, which has an iteration order \<open>order\<close> of its own.
\<close>

record metrics_snapshot =
  snap_timestamp :: nat
  snap_stages :: "(str \<times> stage_metrics) list"
  snap_total_conns :: usize
  snap_total_requests :: u64

definition collector_snapshot ::
    "nat \<Rightarrow> ((str \<times> stage_metrics) list \<Rightarrow> (str \<times> stage_metrics) list) \<Rightarrow> metrics_collector
       \<Rightarrow> metrics_snapshot" where
  "collector_snapshot now order m =
     \<lparr> snap_timestamp = now, snap_stages = order (hm_map stage_snapshot (stages m)), snap_total_conns = unat (total_conns m),
       snap_total_requests = total_requests m \<rparr>"

text \<open>
  \<open>Instant::now().elapsed()\<close> reads the monotonic clock twice; the arguments are the two readings
  in nanoseconds.
\<close>

definition record_stage_start :: "nat \<Rightarrow> nat \<Rightarrow> nat" where
  "record_stage_start now later = later - now"

definition record_stage_end :: "str \<Rightarrow> nat \<Rightarrow> nat \<Rightarrow> nat \<Rightarrow> metrics_collector \<Rightarrow> metrics_collector" where
  "record_stage_end name start_ts now later m =
     (let end_ts = later - now;
          latency = of_nat (end_ts - start_ts)
      in on_stage name (inc_processed \<circ> record_latency latency) m)"

section \<open>Recording a latency from many threads\<close>

datatype latency_pc =
    LIdle
  | LLoop u64 u64 \<comment> \<open>the latency to record and the maximum last seen\<close>

record latency_threads =
  shared_max :: u64
  pc :: "nat \<Rightarrow> latency_pc"
  finished :: "u64 list"

inductive latency_step :: "latency_threads \<Rightarrow> latency_threads \<Rightarrow> bool" where
  load: "pc s i = LIdle \<Longrightarrow> latency_step s (s\<lparr>pc := (pc s)(i := LLoop lat (shared_max s))\<rparr>)"
| leave: "pc s i = LLoop lat cur \<Longrightarrow> \<not> cur < lat \<Longrightarrow>
    latency_step s (s\<lparr>pc := (pc s)(i := LIdle), finished := lat # finished s\<rparr>)"
| exchange: "pc s i = LLoop lat cur \<Longrightarrow> cur < lat \<Longrightarrow> shared_max s = cur \<Longrightarrow>
    latency_step s (s\<lparr>shared_max := lat, pc := (pc s)(i := LIdle), finished := lat # finished s\<rparr>)"
| retry: "pc s i = LLoop lat cur \<Longrightarrow> cur < lat \<Longrightarrow>
    latency_step s (s\<lparr>pc := (pc s)(i := LLoop lat (shared_max s))\<rparr>)"

definition latency_init :: latency_threads where
  "latency_init = \<lparr> shared_max = 0, pc = (\<lambda>_. LIdle), finished = [] \<rparr>"

definition latency_inv :: "latency_threads \<Rightarrow> bool" where
  "latency_inv s \<longleftrightarrow> (\<forall>lat \<in> set (finished s). lat \<le> shared_max s)
     \<and> shared_max s \<in> insert 0 (set (finished s))
     \<and> (\<forall>i lat cur. pc s i = LLoop lat cur \<longrightarrow> cur \<le> shared_max s)"

lemma latency_inv_step: "latency_step s s' \<Longrightarrow> latency_inv s \<Longrightarrow> latency_inv s'"
proof (induction rule: latency_step.induct)
  case (exchange s i lat cur)
  then have "\<And>x. x \<le> cur \<Longrightarrow> x \<le> lat" by (meson order.strict_implies_order order.trans)
  with exchange show ?case by (auto simp: latency_inv_def)
next
  case (leave s i lat cur)
  then have "lat \<le> shared_max s" unfolding latency_inv_def by (meson linorder_not_less order.trans)
  with leave show ?case by (auto simp: latency_inv_def)
qed (auto simp: latency_inv_def)

lemma latency_inv_init: "latency_inv latency_init"
  by (simp add: latency_inv_def latency_init_def)

lemma latency_inv_reachable: "latency_step\<^sup>*\<^sup>* latency_init s \<Longrightarrow> latency_inv s"
  by (induction rule: rtranclp_induct) (auto intro: latency_inv_step latency_inv_init)

section \<open>Properties\<close>

text \<open>
  C39: No recorded latency is lost to a race. Whatever number of threads run the loop of
  \<open>record_latency\<close> and however their loads and exchanges interleave (spurious failures
  included), the stored maximum is at every moment the largest latency of the completed calls,
  zero if there is none.
\<close>

theorem latency_max_exact:
  assumes "latency_step\<^sup>*\<^sup>* latency_init s"
  shows "shared_max s = Max (insert 0 (set (finished s)))"
proof (rule Max_eqI [symmetric])
  show "y \<le> shared_max s" if "y \<in> insert 0 (set (finished s))" for y
    using latency_inv_reachable [OF assms] that by (auto simp: latency_inv_def)
  show "shared_max s \<in> insert 0 (set (finished s))"
    using latency_inv_reachable [OF assms] by (simp add: latency_inv_def)
qed simp

theorem latency_max_exact_witness:
  "\<exists>s. latency_step\<^sup>*\<^sup>* latency_init s \<and> finished s = [7, 9] \<and> shared_max s = 9"
proof -
  let ?s1 = "latency_init\<lparr>pc := (\<lambda>_. LIdle)(0 := LLoop 7 0)\<rparr>"
  let ?s2 = "?s1\<lparr>pc := (\<lambda>_. LIdle)(0 := LLoop 7 0, 1 := LLoop 9 0)\<rparr>"
  let ?s3 = "?s2\<lparr>shared_max := 9, pc := (\<lambda>_. LIdle)(0 := LLoop 7 0, 1 := LIdle), finished := [9]\<rparr>"
  let ?s4 = "?s3\<lparr>pc := (\<lambda>_. LIdle)(0 := LLoop 7 9, 1 := LIdle)\<rparr>"
  let ?s5 = "?s4\<lparr>pc := (\<lambda>_. LIdle)(0 := LIdle, 1 := LIdle), finished := [7, 9]\<rparr>"
  have "latency_step latency_init ?s1" using load [of latency_init 0 7] by (simp add: latency_init_def)
  moreover have "latency_step ?s1 ?s2" using load [of ?s1 1 9] by (simp add: latency_init_def)
  moreover have "latency_step ?s2 ?s3" using exchange [of ?s2 1 9 0] by (simp add: latency_init_def)
  moreover have "latency_step ?s3 ?s4" using retry [of ?s3 0 7 0] by (simp add: fun_upd_twist)
  moreover have "latency_step ?s4 ?s5" using leave [of ?s4 0 7 9] by (simp add: fun_upd_twist)
  ultimately have r: "latency_step\<^sup>*\<^sup>* latency_init ?s5"
    by (meson converse_rtranclp_into_rtranclp rtranclp.rtrancl_refl)
  from latency_max_exact [OF this] have "shared_max ?s5 = 9" by simp
  with r show ?thesis by (intro exI [of _ ?s5]) simp
qed

text \<open>
  The latency of a stage does not depend on how long the stage took. What
  \<open>record_stage_end\<close> records is the difference of two durations, each the time from an
  \<open>Instant::now()\<close> to its own \<open>elapsed()\<close>: the readings at the start of the stage and at its
  end can be any distance apart.
\<close>

lemma stage_latency_ignores_duration:
  "record_stage_end name (record_stage_start s0 s1) (e0 + d) (e1 + d) m
     = record_stage_end name (record_stage_start s0 s1) e0 e1 m"
  by (simp add: record_stage_end_def record_stage_start_def)

end
