(* ===== verification/Stages.thy ===== *)
theory Stages
  imports Http_Parser Http_Response Conn_Slab Metrics
begin

text \<open>
  The request handlers and the pipeline stages: \<open>ners-core/src/handlers.rs\<close> and
  \<open>ners-core/src/stage.rs\<close>. First one definition per \<open>process_one\<close> of the multi-core stages,
  with the contract they share as a locale; then the single-threaded \<open>Stage\<close> implementations
  with their queues. The slab is locked while a stage processes a connection, so \<open>process_one\<close>
  is a function of the slab and the metrics. No stage uses the multiplexer it is given.
\<close>

section \<open>Environment and handlers\<close>

text \<open>
  What the code takes from outside: the landing page compiled in from \<open>static/index.html\<close>, the
  order in which header maps iterate, and the Unicode tables of \<open>to_lowercase\<close>.
\<close>

record stage_env =
  landing_page :: bytes
  header_order :: "(str \<times> str) list \<Rightarrow> (str \<times> str) list"
  unicode_lower :: "str \<Rightarrow> str"

definition respond :: "stage_env \<Rightarrow> http_response \<Rightarrow> conn_state \<Rightarrow> conn_state" where
  "respond env response conn =
     conn\<lparr>write_buf := write_buf conn @ to_bytes (header_order env) response\<rparr>"

definition handle_hello :: "stage_env \<Rightarrow> conn_state \<Rightarrow> conn_state" where
  "handle_hello env = respond env (response_html (response_ok (landing_page env)))"

definition handle_json :: "stage_env \<Rightarrow> conn_state \<Rightarrow> conn_state" where
  "handle_json env = respond env (response_json (response_ok
     ([0x7B, 0x22] @ lit ''status'' @ [0x22] @ lit '': '' @ [0x22] @ lit ''ok'' @ [0x22] @ lit '', '' @ [0x22]
      @ lit ''message'' @ [0x22] @ lit '': '' @ [0x22] @ lit ''NERS - High Performance Web Server''
      @ [0x22, 0x7D])))"

definition handle_health :: "stage_env \<Rightarrow> conn_state \<Rightarrow> conn_state" where
  "handle_health env = respond env (response_json (response_ok
     ([0x7B, 0x22] @ lit ''status'' @ [0x22] @ lit '': '' @ [0x22] @ lit ''healthy'' @ [0x22, 0x7D])))"

definition handle_not_found :: "stage_env \<Rightarrow> conn_state \<Rightarrow> conn_state" where
  "handle_not_found env = respond env response_not_found"

section \<open>The multi-core stages\<close>

type_synonym process_one =
  "conn_id \<Rightarrow> conn_slab \<Rightarrow> metrics_collector \<Rightarrow>
     (conn_slab \<times> metrics_collector) \<times> (unit, conn_id option) result"

text \<open>
  \<open>let _ = read_all(...)\<close>: whatever was received is kept, errors and the end of the stream are
  ignored.
\<close>

definition read_into :: "conn_state \<Rightarrow> conn_state" where
  "read_into conn =
     (case stream conn of
        None \<Rightarrow> conn
      | Some s \<Rightarrow>
          (case read_all s (read_buf conn) of
             (s', buf, _) \<Rightarrow> conn\<lparr>stream := Some s', read_buf := buf\<rparr>))"

definition parse_one :: "stage_env \<Rightarrow> process_one" where
  "parse_one env cid slab metrics =
     (case slab_get slab cid of
        None \<Rightarrow> ((slab, metrics), Inr None)
      | Some conn \<Rightarrow>
          let conn = read_into conn in
          (case http_parse (unicode_lower env) (read_buf conn) of
             Inr (request, _) \<Rightarrow>
               let conn = conn\<lparr>request_method := Some (rq_method request),
                     request_path := Some (rq_path request),
                     lifecycle := Routed, read_buf := []\<rparr>
               in ((slab_put slab cid conn, metrics), Inr (Some cid))
           | Inl (Error Incomplete) \<Rightarrow> ((slab_put slab cid conn, metrics), Inr None)
           | Inl (Error (Invalid _)) \<Rightarrow>
               ((slab_put slab cid (conn\<lparr>lifecycle := LcClosed\<rparr>),
                 on_stage (lit ''parse'') inc_errors metrics), Inr None)
           | Inl Panic \<Rightarrow> ((slab_put slab cid conn, metrics), Inl Panic)))"

definition route_of :: "str option \<Rightarrow> route_id" where
  "route_of path =
     (if path = Some (lit ''/'') then RouteId 0
      else if path = Some (lit ''/api/test'') then RouteId 1
      else RouteId 999)"

definition route_one :: process_one where
  "route_one cid slab metrics =
     (case slab_get slab cid of
        None \<Rightarrow> ((slab, metrics), Inr None)
      | Some conn \<Rightarrow>
          let conn = conn\<lparr>route := Some (route_of (request_path conn)), lifecycle := Processing\<rparr>
          in ((slab_put slab cid conn, metrics), Inr (Some cid)))"

definition run_handler :: "stage_env \<Rightarrow> conn_state \<Rightarrow> conn_state" where
  "run_handler env conn =
     (if route conn = Some (RouteId 0) then handle_hello env conn
      else if route conn = Some (RouteId 1) then handle_json env conn
      else handle_not_found env conn)"

definition app_one :: "stage_env \<Rightarrow> process_one" where
  "app_one env cid slab metrics =
     (case slab_get slab cid of
        None \<Rightarrow> ((slab, metrics), Inr None)
      | Some conn \<Rightarrow>
          let conn = (run_handler env conn)\<lparr>lifecycle := Sending\<rparr>
          in ((slab_put slab cid conn, inc_total_requests metrics), Inr (Some cid)))"

definition encode_one :: process_one where
  "encode_one cid slab metrics = ((slab, metrics), Inr (Some cid))"

text \<open>\<open>slab.remove(id); return None\<close>\<close>

definition remove_conn ::
    "conn_id \<Rightarrow> conn_slab \<Rightarrow> metrics_collector \<Rightarrow>
       (conn_slab \<times> metrics_collector) \<times> (unit, conn_id option) result" where
  "remove_conn cid slab metrics =
     (case slab_remove slab cid of
        (slab', Inr _) \<Rightarrow> ((slab', metrics), Inr None)
      | (slab', Inl _) \<Rightarrow> ((slab', metrics), Inl Panic))"

definition net_out_one :: process_one where
  "net_out_one cid slab metrics =
     (case slab_get slab cid of
        None \<Rightarrow> ((slab, metrics), Inr None)
      | Some conn \<Rightarrow>
          (case stream conn of
             None \<Rightarrow> ((slab, metrics), Inr None)
           | Some s \<Rightarrow>
               (case write_all s (write_buf conn) (bytes_written conn) of
                  (s', Inr written) \<Rightarrow>
                    let conn = conn\<lparr>stream := Some s', bytes_written := bytes_written conn + written\<rparr> in
                    if length (write_buf conn) \<le> bytes_written conn then
                      remove_conn cid (slab_put slab cid (conn\<lparr>lifecycle := LcClosed\<rparr>))
                        (dec_total_conns metrics)
                    else ((slab_put slab cid conn, metrics), Inr None)
                | (s', Inl (Error _)) \<Rightarrow>
                    remove_conn cid (slab_put slab cid (conn\<lparr>stream := Some s', lifecycle := LcClosed\<rparr>))
                      (on_stage (lit ''net_out'') inc_errors (dec_total_conns metrics))
                | (s', Inl Panic) \<Rightarrow>
                    ((slab_put slab cid (conn\<lparr>stream := Some s'\<rparr>), metrics), Inl Panic))))"

text \<open>
  \<open>NetInStageMulti\<close>: the first connection for which there is a slot; the others accepted with it
  are dropped, hence closed.
\<close>

fun insert_first :: "instant \<Rightarrow> tcp_stream list \<Rightarrow> conn_slab \<Rightarrow> metrics_collector \<Rightarrow>
    (conn_slab \<times> metrics_collector) \<times> (unit, conn_id option) result" where
  "insert_first now [] slab metrics = ((slab, metrics), Inr None)"
| "insert_first now (s # ss) slab metrics =
     (case slab_insert slab (conn_new now s) of
        (slab', Inl e) \<Rightarrow> ((slab', metrics), Inl e)
      | (slab', Inr (Some cid)) \<Rightarrow> ((slab', inc_total_conns metrics), Inr (Some cid))
      | (slab', Inr None) \<Rightarrow> insert_first now ss slab' metrics)"

definition net_in_one ::
    "instant \<Rightarrow> (io_error + tcp_stream) list \<Rightarrow> conn_slab \<Rightarrow> metrics_collector \<Rightarrow>
       (io_error + tcp_stream) list \<times>
       (conn_slab \<times> metrics_collector) \<times> (unit, conn_id option) result" where
  "net_in_one now listener slab metrics =
     (case accept_all listener of
        (listener', streams) \<Rightarrow> (listener', insert_first now streams slab metrics))"

section \<open>The contract of a stage\<close>

text \<open>
  What an executor relies on, and what every multi-core stage promises: given a live
  connection, \<open>process_one\<close> touches no other connection and keeps the slab well-formed; it passes
  on the connection it was given or nothing; a connection it passes on is still live; and it
  panics only in a way that keeps the connection.
\<close>

locale stage_contract =
  fixes process :: process_one
  assumes keeps_wf: "slab_wf slab \<Longrightarrow> slab_get slab cid = Some c \<Longrightarrow>
      process cid slab m = ((slab', m'), r) \<Longrightarrow> slab_wf slab'"
    and keeps_others: "slab_wf slab \<Longrightarrow> slab_get slab cid = Some c \<Longrightarrow>
      process cid slab m = ((slab', m'), r) \<Longrightarrow> j \<noteq> cid \<Longrightarrow> slab_get slab' j = slab_get slab j"
    and passes_on: "slab_wf slab \<Longrightarrow> slab_get slab cid = Some c \<Longrightarrow>
      process cid slab m = ((slab', m'), Inr (Some j)) \<Longrightarrow> j = cid \<and> slab_get slab' cid \<noteq> None"
    and keeps_capacity: "slab_wf slab \<Longrightarrow> slab_get slab cid = Some c \<Longrightarrow>
      process cid slab m = ((slab', m'), r) \<Longrightarrow> slab_capacity slab' = slab_capacity slab"
begin

text \<open>A connection other than the one processed is live before exactly when it is live after.\<close>

lemma liveness_of_others:
  assumes "slab_wf slab" and "slab_get slab cid = Some c" and "process cid slab m = ((slab', m'), r)"
    and "j \<noteq> cid"
  shows "slab_get slab' j = None \<longleftrightarrow> slab_get slab j = None"
  using keeps_others [OF assms(1-3) assms(4)] by simp

text \<open>No stage turns an unused slot into a live one: it never conjures up a connection.\<close>

lemma live_before:
  assumes "slab_wf slab" and "slab_get slab cid = Some c" and "process cid slab m = ((slab', m'), r)"
    and "slab_get slab' j \<noteq> None"
  shows "slab_get slab j \<noteq> None"
  using keeps_others [OF assms(1-3), of j] assms(2,4) by (cases "j = cid") auto

end

lemma slab_put_contract:
  assumes "slab_wf slab" and "slab_get slab cid = Some c"
  shows "slab_wf (slab_put slab cid c')" "j \<noteq> cid \<Longrightarrow> slab_get (slab_put slab cid c') j = slab_get slab j"
    "slab_get (slab_put slab cid c') cid = Some c'"
  using assms slab_wf_put slab_get_put by auto

lemma remove_conn_contract:
  assumes "slab_wf slab" and "slab_get slab cid = Some c"
  shows "\<exists>slab'. remove_conn cid slab m = ((slab', m), Inr None) \<and> slab_wf slab'
    \<and> slab_capacity slab' = slab_capacity slab
    \<and> (\<forall>j. slab_get slab' j = (if j = cid then None else slab_get slab j))"
proof -
  from cs.remove_live [OF assms] obtain slab' where
    r: "slab_remove slab cid = (slab', Inr ())" "slab_wf slab'"
      "\<forall>j. slab_get slab' j = (if j = cid then None else slab_get slab j)" by blast
  then have "slab_capacity slab' = slab_capacity slab"
    by (auto simp: slab_remove_def split: if_splits)
  with r show ?thesis by (simp add: remove_conn_def)
qed

interpretation parse_stage: stage_contract "parse_one env" for env
  by unfold_locales
    (auto simp: parse_one_def Let_def slab_put_contract split: sum.splits fault.splits parse_error.splits)

interpretation route_stage: stage_contract route_one
  by unfold_locales (auto simp: route_one_def Let_def slab_put_contract)

interpretation app_stage: stage_contract "app_one env" for env
  by unfold_locales (auto simp: app_one_def Let_def slab_put_contract)

interpretation encode_stage: stage_contract encode_one
  by unfold_locales (auto simp: encode_one_def)

text \<open>The output stage: every branch leaves the connection in place or removes exactly it.\<close>

lemma net_out_cases:
  assumes "slab_wf slab" and "slab_get slab cid = Some c" and "net_out_one cid slab m = ((slab', m'), r)"
  shows "(r = Inr None \<or> r = Inl Panic) \<and> slab_wf slab' \<and> slab_capacity slab' = slab_capacity slab
    \<and> (\<forall>j. j \<noteq> cid \<longrightarrow> slab_get slab' j = slab_get slab j)"
proof -
  have rem: "slab_wf slab' \<and> slab_capacity slab' = slab_capacity slab \<and> r = Inr None
      \<and> (\<forall>j. j \<noteq> cid \<longrightarrow> slab_get slab' j = slab_get slab j)"
    if "remove_conn cid (slab_put slab cid c') m1 = ((slab', m'), r)" for c' m1
    using remove_conn_contract [of "slab_put slab cid c'" cid c' m1] that
      slab_put_contract [OF assms(1,2)] by auto
  show ?thesis
  proof (cases "stream c")
    case None
    with assms show ?thesis by (auto simp: net_out_one_def)
  next
    case (Some s)
    obtain s' w where w: "write_all s (write_buf c) (bytes_written c) = (s', w)"
      by (cases "write_all s (write_buf c) (bytes_written c)")
    show ?thesis
    proof (cases w)
      case (Inl f)
      with assms Some w rem show ?thesis
        by (cases f) (auto simp: net_out_one_def slab_put_contract)
    next
      case (Inr n)
      with assms Some w rem show ?thesis
        by (auto simp: net_out_one_def Let_def slab_put_contract split: if_splits)
    qed
  qed
qed

interpretation net_out_stage: stage_contract net_out_one
  by unfold_locales (auto dest: net_out_cases)

end
