(* ===== verification/Pipeline.thy ===== *)
theory Pipeline
  imports Stages
begin

text \<open>
  The multi-core server: \<open>ners-core/src/executor.rs\<close>, the accept loop of \<open>main.rs\<close> and the
  queues of \<open>orchestrator.rs\<close>. The main thread accepts connections and queues them for the
  parse stage; five executors, one thread each, take a connection from their queue, process it
  with the slab locked, and push it to the next queue. A step of the system is one such access;
  the threads interleave in any order. The lemmas give the invariant of all reachable states
  and what can never happen to a connection that has left the queues.
\<close>

section \<open>State\<close>

datatype exec_pc =
    EIdle
  | EHold conn_id \<comment> \<open>popped, not yet processed\<close>
  | EPush conn_id \<comment> \<open>processed, to be passed on\<close>
  | EDead \<comment> \<open>the thread has panicked\<close>

datatype main_pc = MIdle | MPush conn_id

record pipeline =
  p_slab :: conn_slab
  p_metrics :: metrics_collector
  p_queues :: "nat \<Rightarrow> ring_queue"
  p_execs :: "nat \<Rightarrow> exec_pc"
  p_main :: main_pc

definition pipeline_init :: "usize \<Rightarrow> usize \<Rightarrow> pipeline" where
  "pipeline_init slab_cap queue_cap =
     \<lparr> p_slab = slab_new slab_cap, p_metrics = metrics_new, p_queues = (\<lambda>_. ring_new queue_cap),
       p_execs = (\<lambda>_. EIdle), p_main = MIdle \<rparr>"

text \<open>The stages in the order they are spawned, stage \<open>i\<close> reading queue \<open>i\<close>.\<close>

definition stage_of :: "stage_env \<Rightarrow> nat \<Rightarrow> process_one" where
  "stage_of env i =
     (if i = 0 then parse_one env
      else if i = 1 then route_one
      else if i = 2 then app_one env
      else if i = 3 then encode_one
      else net_out_one)"

definition stage_count :: nat where
  "stage_count = 5"

text \<open>What the executor does with the result: the last stage has no output queue.\<close>

definition after_process :: "nat \<Rightarrow> (unit, conn_id option) result \<Rightarrow> exec_pc" where
  "after_process i r =
     (case r of
        Inl _ \<Rightarrow> EDead
      | Inr None \<Rightarrow> EIdle
      | Inr (Some next_id) \<Rightarrow> if i + 1 < stage_count then EPush next_id else EIdle)"

section \<open>Steps\<close>

inductive pipeline_step :: "stage_env \<Rightarrow> pipeline \<Rightarrow> pipeline \<Rightarrow> bool" for env where
  accept: "p_main p = MIdle \<Longrightarrow>
    slab_insert (p_slab p) (conn_new now s) = (slab', Inr (Some cid)) \<Longrightarrow>
    pipeline_step env p (p\<lparr>p_slab := slab', p_metrics := inc_total_conns (p_metrics p),
      p_main := MPush cid\<rparr>)"
| accept_full: "p_main p = MIdle \<Longrightarrow>
    slab_insert (p_slab p) (conn_new now s) = (slab', Inr None) \<Longrightarrow>
    pipeline_step env p (p\<lparr>p_slab := slab'\<rparr>)"
| queue_accepted: "p_main p = MPush cid \<Longrightarrow> ring_push (p_queues p 0) cid = (q, Inr u) \<Longrightarrow>
    pipeline_step env p (p\<lparr>p_queues := (p_queues p)(0 := q),
      p_metrics := inc_queue_len (lit ''parse'') (p_metrics p), p_main := MIdle\<rparr>)"
| drop_accepted: "p_main p = MPush cid \<Longrightarrow> ring_push (p_queues p 0) cid = (q, Inl (Error e)) \<Longrightarrow>
    pipeline_step env p (p\<lparr>p_queues := (p_queues p)(0 := q), p_main := MIdle\<rparr>)"
| take: "i < stage_count \<Longrightarrow> p_execs p i = EIdle \<Longrightarrow>
    ring_pop (p_queues p i) = (q, Inr (Some cid)) \<Longrightarrow>
    pipeline_step env p (p\<lparr>p_queues := (p_queues p)(i := q),
      p_execs := (p_execs p)(i := EHold cid)\<rparr>)"
| poll: "i < stage_count \<Longrightarrow> p_execs p i = EIdle \<Longrightarrow>
    ring_pop (p_queues p i) = (q, Inr None) \<Longrightarrow>
    pipeline_step env p (p\<lparr>p_queues := (p_queues p)(i := q)\<rparr>)"
| process: "i < stage_count \<Longrightarrow> p_execs p i = EHold cid \<Longrightarrow>
    stage_of env i cid (p_slab p) (p_metrics p) = ((slab', m'), r) \<Longrightarrow>
    pipeline_step env p (p\<lparr>p_slab := slab', p_metrics := m',
      p_execs := (p_execs p)(i := after_process i r)\<rparr>)"
| pass: "i < stage_count \<Longrightarrow> p_execs p i = EPush cid \<Longrightarrow>
    ring_push (p_queues p (i + 1)) cid = (q, Inr u) \<Longrightarrow>
    pipeline_step env p (p\<lparr>p_queues := (p_queues p)(i + 1 := q),
      p_execs := (p_execs p)(i := EIdle)\<rparr>)"
| pass_full: "i < stage_count \<Longrightarrow> p_execs p i = EPush cid \<Longrightarrow>
    ring_push (p_queues p (i + 1)) cid = (q, Inl (Error e)) \<Longrightarrow>
    pipeline_step env p (p\<lparr>p_queues := (p_queues p)(i + 1 := q),
      p_execs := (p_execs p)(i := EIdle)\<rparr>)"

inductive_cases pipeline_stepE: "pipeline_step env p p'"

section \<open>Where a connection is\<close>

datatype place = AtMain | AtQueue nat | AtExec nat

fun exec_ids :: "exec_pc \<Rightarrow> conn_id list" where
  "exec_ids (EHold cid) = [cid]"
| "exec_ids (EPush cid) = [cid]"
| "exec_ids _ = []"

fun main_ids :: "main_pc \<Rightarrow> conn_id list" where
  "main_ids MIdle = []"
| "main_ids (MPush cid) = [cid]"

fun ids_at :: "pipeline \<Rightarrow> place \<Rightarrow> conn_id list" where
  "ids_at p AtMain = main_ids (p_main p)"
| "ids_at p (AtQueue i) = ring_contents (p_queues p i)"
| "ids_at p (AtExec i) = exec_ids (p_execs p i)"

definition live :: "pipeline \<Rightarrow> conn_id \<Rightarrow> bool" where
  "live p cid \<longleftrightarrow> slab_get (p_slab p) cid \<noteq> None"

definition in_pipeline :: "pipeline \<Rightarrow> conn_id \<Rightarrow> bool" where
  "in_pipeline p cid \<longleftrightarrow> (\<exists>l. cid \<in> set (ids_at p l))"

text \<open>Occupying a slot, but in no queue and held by no thread.\<close>

definition stranded :: "pipeline \<Rightarrow> conn_id \<Rightarrow> bool" where
  "stranded p cid \<longleftrightarrow> live p cid \<and> \<not> in_pipeline p cid"

section \<open>The invariant\<close>

definition pipeline_inv :: "usize \<Rightarrow> pipeline \<Rightarrow> bool" where
  "pipeline_inv slab_cap p \<longleftrightarrow>
     slab_wf (p_slab p) \<and> slab_capacity (p_slab p) = slab_cap \<and> slab_cap < 2 ^ 64
     \<and> (\<forall>i. ring_inv (p_queues p i))
     \<and> (\<forall>l. distinct (ids_at p l))
     \<and> (\<forall>l l' cid. cid \<in> set (ids_at p l) \<longrightarrow> cid \<in> set (ids_at p l') \<longrightarrow> l = l')
     \<and> (\<forall>l. \<forall>cid \<in> set (ids_at p l). live p cid)"

lemma pipeline_invD:
  assumes "pipeline_inv n p"
  shows "slab_wf (p_slab p)" "slab_capacity (p_slab p) = n" "n < 2 ^ 64" "ring_inv (p_queues p i)"
    "distinct (ids_at p l)" "cid \<in> set (ids_at p l) \<Longrightarrow> cid \<in> set (ids_at p l') \<Longrightarrow> l = l'"
    "cid \<in> set (ids_at p l) \<Longrightarrow> live p cid"
  using assms unfolding pipeline_inv_def by blast+

text \<open>
  A step puts one identifier at one place, where the others are no more than before, or takes
  identifiers away.
\<close>

lemma pipeline_inv_place:
  assumes inv: "pipeline_inv n p"
    and slab: "slab_wf (p_slab p')" "slab_capacity (p_slab p') = n"
    and queues: "\<And>i. ring_inv (p_queues p' i)"
    and dist: "\<And>l. distinct (ids_at p' l)"
    and ids: "\<And>l. set (ids_at p' l) \<subseteq>
      (if l = l2 then insert cid (set (ids_at p l)) else set (ids_at p l) - {cid})"
    and lives: "\<And>l x. x \<in> set (ids_at p' l) \<Longrightarrow> live p' x"
  shows "pipeline_inv n p'"
proof -
  have "l = l'" if "x \<in> set (ids_at p' l)" "x \<in> set (ids_at p' l')" for l l' x
  proof (cases "x = cid")
    case True
    with ids [of l] ids [of l'] that show ?thesis by (auto split: if_splits)
  next
    case False
    with ids [of l] ids [of l'] that have "x \<in> set (ids_at p l)" "x \<in> set (ids_at p l')"
      by (auto split: if_splits)
    then show ?thesis by (rule pipeline_invD(6) [OF inv])
  qed
  with assms pipeline_invD(3) [OF inv] show ?thesis unfolding pipeline_inv_def by blast
qed

lemma pipeline_inv_less:
  assumes inv: "pipeline_inv n p"
    and slab: "slab_wf (p_slab p')" "slab_capacity (p_slab p') = n"
    and queues: "\<And>i. ring_inv (p_queues p' i)"
    and dist: "\<And>l. distinct (ids_at p' l)"
    and ids: "\<And>l. set (ids_at p' l) \<subseteq> set (ids_at p l)"
    and lives: "\<And>l x. x \<in> set (ids_at p' l) \<Longrightarrow> live p' x"
  shows "pipeline_inv n p'"
proof -
  have "l = l'" if "x \<in> set (ids_at p' l)" "x \<in> set (ids_at p' l')" for l l' x
    using ids that pipeline_invD(6) [OF inv] by blast
  with assms pipeline_invD(3) [OF inv] show ?thesis unfolding pipeline_inv_def by blast
qed

lemma live_index:
  assumes "pipeline_inv n p" and "live p cid"
  shows "id_ok cid"
proof -
  obtain c where "slab_get (p_slab p) cid = Some c" using assms(2) by (auto simp: live_def)
  from slab_get_live [OF this] have "conn_index cid < n"
    using pipeline_invD(1,2) [OF assms(1)] by (simp add: slab_wf_def)
  with pipeline_invD(3) [OF assms(1)] show ?thesis by (simp add: id_ok_def USIZE_MAX_def)
qed

text \<open>What a push and a pop do to the contents of a queue.\<close>

lemma push_contents:
  assumes "ring_inv q" and "id_ok cid" and "ring_push q cid = (q', r)"
  shows "ring_inv q' \<and> ((\<exists>u. r = Inr u) \<and> ring_contents q' = ring_contents q @ [cid]
    \<or> r = Inl (Error cid) \<and> q' = q)"
proof (cases "length (ring_contents q) < ring_room q")
  case True
  from rq.push_room [OF assms(1,2) True] assms(3) show ?thesis by auto
next
  case False
  from rq.push_full [OF assms(1) False] assms(1,3) show ?thesis by auto
qed

lemma pop_contents:
  assumes "ring_inv q" and "ring_pop q = (q', Inr r)"
  shows "ring_inv q' \<and> (case r of None \<Rightarrow> q' = q | Some cid \<Rightarrow> ring_contents q = cid # ring_contents q')"
proof (cases "ring_contents q")
  case Nil
  from rq.pop_none [OF assms(1) Nil] assms show ?thesis by auto
next
  case (Cons a as)
  from rq.pop_some [OF assms(1) Cons] assms(2) Cons show ?thesis by auto
qed

lemma stage_contract_of: "stage_contract (stage_of env i)"
  unfolding stage_of_def
  by (simp add: parse_stage.stage_contract_axioms route_stage.stage_contract_axioms
      app_stage.stage_contract_axioms encode_stage.stage_contract_axioms
      net_out_stage.stage_contract_axioms)

text \<open>A held or pushed identifier is at its executor and nowhere else.\<close>

lemma only_at:
  assumes "pipeline_inv n p" and "cid \<in> set (ids_at p l)" and "k \<noteq> l"
  shows "cid \<notin> set (ids_at p k)"
  using pipeline_invD(6) [OF assms(1,2)] assms(3) by blast

lemma inv_accept:
  assumes inv: "pipeline_inv n p" and "p_main p = MIdle"
    and ins: "slab_insert (p_slab p) (conn_new now s) = (slab', Inr (Some cid))"
  shows "pipeline_inv n (p\<lparr>p_slab := slab', p_metrics := m, p_main := MPush cid\<rparr>)"
proof -
  have vac: "0 < vacant_count (p_slab p)"
    using ins by (auto simp: slab_insert_def vacant_count_def Let_def split: if_splits)
  from cs.insert_fresh [OF pipeline_invD(1) [OF inv] vac, of "conn_new now s"] ins
  have fresh: "slab_get (p_slab p) cid = None" and wf: "slab_wf slab'"
    and get: "\<forall>j. slab_get slab' j = (if j = cid then Some (conn_new now s) else slab_get (p_slab p) j)"
    by auto
  have cap: "slab_capacity slab' = n"
    using ins pipeline_invD(2) [OF inv] by (auto simp: slab_insert_def Let_def split: if_splits)
  have none: "cid \<notin> set (ids_at p l)" for l
    using pipeline_invD(7) [OF inv, of cid l] fresh by (auto simp: live_def)
  let ?p = "p\<lparr>p_slab := slab', p_metrics := m, p_main := MPush cid\<rparr>"
  have at: "ids_at ?p l = (if l = AtMain then [cid] else ids_at p l)" for l
    by (cases l) simp_all
  show ?thesis
  proof (rule pipeline_inv_place [OF inv, where cid = cid and ?l2.0 = AtMain])
    show "live ?p x" if "x \<in> set (ids_at ?p l)" for l x
      using that get pipeline_invD(7) [OF inv, of x l] by (auto simp: live_def at split: if_splits)
  qed (use wf cap none pipeline_invD(4,5) [OF inv] assms(2) in \<open>auto simp: at split: if_splits\<close>)
qed

lemma inv_take:
  assumes inv: "pipeline_inv n p" and idle: "p_execs p i = EIdle"
    and pop: "ring_pop (p_queues p i) = (q, Inr (Some cid))"
  shows "pipeline_inv n (p\<lparr>p_queues := (p_queues p)(i := q), p_execs := (p_execs p)(i := EHold cid)\<rparr>)"
proof -
  let ?p = "p\<lparr>p_queues := (p_queues p)(i := q), p_execs := (p_execs p)(i := EHold cid)\<rparr>"
  from pop_contents [OF pipeline_invD(4) [OF inv] pop]
  have q: "ring_inv q" and c: "ids_at p (AtQueue i) = cid # ring_contents q" by simp_all
  have at: "ids_at ?p l = (if l = AtExec i then [cid] else if l = AtQueue i then ring_contents q
      else ids_at p l)" for l
    by (cases l) simp_all
  have only: "cid \<notin> set (ids_at p l)" if "l \<noteq> AtQueue i" for l
    using only_at [OF inv, of cid "AtQueue i" l] c that by simp
  have dist: "distinct (cid # ring_contents q)" using pipeline_invD(5) [OF inv, of "AtQueue i"] c by simp
  show ?thesis
  proof (rule pipeline_inv_place [OF inv, where cid = cid and ?l2.0 = "AtExec i"])
    show "set (ids_at ?p l) \<subseteq>
        (if l = AtExec i then insert cid (set (ids_at p l)) else set (ids_at p l) - {cid})" for l
      unfolding at using only [of l] dist c by auto
    show "live ?p x" if "x \<in> set (ids_at ?p l)" for l x
    proof -
      have "x \<in> set (ids_at p (AtQueue i)) \<or> x \<in> set (ids_at p l)"
        using that unfolding at using c by (auto split: if_splits)
      then have "live p x" using pipeline_invD(7) [OF inv] by blast
      then show ?thesis by (simp add: live_def)
    qed
  qed (use pipeline_invD(1,2,4,5) [OF inv] q dist in \<open>auto simp: at simp del: ids_at.simps\<close>)
qed

lemma inv_push:
  assumes inv: "pipeline_inv n p" and src: "ids_at p src = [cid]" "\<And>i. src \<noteq> AtQueue i"
    and push: "ring_push (p_queues p k) cid = (q, r)"
    and p': "p_slab p' = p_slab p" "p_queues p' = (p_queues p)(k := q)" "ids_at p' src = []"
      "\<And>l. l \<noteq> src \<Longrightarrow> (\<And>i. l \<noteq> AtQueue i) \<Longrightarrow> ids_at p' l = ids_at p l"
  shows "pipeline_inv n p'"
proof -
  have live: "live p' x = live p x" for x by (simp add: live_def p'(1))
  have cid: "live p cid" "id_ok cid"
    using pipeline_invD(7) [OF inv, of cid src] src(1) live_index [OF inv] by auto
  have only: "cid \<notin> set (ids_at p l)" if "l \<noteq> src" for l
    using only_at [OF inv, of cid src l] src(1) that by simp
  from push_contents [OF pipeline_invD(4) [OF inv] cid(2) push]
  consider (ok) "ring_inv q" "ring_contents q = ids_at p (AtQueue k) @ [cid]" | (no) "q = p_queues p k"
    by auto
  then show ?thesis
  proof cases
    case ok
    have at: "ids_at p' l = (if l = src then [] else if l = AtQueue k then ids_at p (AtQueue k) @ [cid]
        else ids_at p l)" for l
      using p' ok src(2) by (cases l) (auto simp del: ids_at.simps(1,3))
    show ?thesis
    proof (rule pipeline_inv_place [OF inv, where cid = cid and ?l2.0 = "AtQueue k"])
      show "set (ids_at p' l) \<subseteq>
          (if l = AtQueue k then insert cid (set (ids_at p l)) else set (ids_at p l) - {cid})" for l
        unfolding at using only [of l] by auto
      show "live p' x" if "x \<in> set (ids_at p' l)" for l x
        using that cid(1) pipeline_invD(7) [OF inv, of x l] unfolding at live
        by (auto split: if_splits simp del: ids_at.simps)
      show "distinct (ids_at p' l)" for l
        unfolding at using pipeline_invD(5) [OF inv] only [of "AtQueue k"] src(2)
        by (auto simp del: ids_at.simps)
    qed (use pipeline_invD(1,2,4) [OF inv] p' ok in simp_all)
  next
    case no
    have at: "ids_at p' l = (if l = src then [] else ids_at p l)" for l
      using p' no src(2) by (cases l) (auto simp del: ids_at.simps(1,3))
    show ?thesis
      by (rule pipeline_inv_less [OF inv])
        (use pipeline_invD [OF inv] p' no in \<open>auto simp: at live simp del: ids_at.simps split: if_splits\<close>)
  qed
qed

lemma inv_process:
  assumes inv: "pipeline_inv n p" and hold: "p_execs p i = EHold cid"
    and proc: "stage_of env i cid (p_slab p) (p_metrics p) = ((slab', m'), r)"
  shows "pipeline_inv n (p\<lparr>p_slab := slab', p_metrics := m', p_execs := (p_execs p)(i := after_process i r)\<rparr>)"
    (is "pipeline_inv n ?p")
proof -
  have held: "ids_at p (AtExec i) = [cid]" using hold by simp
  then have "live p cid" using pipeline_invD(7) [OF inv, of cid "AtExec i"] by simp
  then obtain c where c: "slab_get (p_slab p) cid = Some c" by (auto simp: live_def)
  note wf = pipeline_invD(1) [OF inv]
  note contract = stage_contract_of [of env i]
  have others: "live ?p x = live p x" if "x \<noteq> cid" for x
    using stage_contract.liveness_of_others [OF contract wf c proc that] by (simp add: live_def)
  have "after_process i r = EPush cid \<and> live ?p cid \<or> exec_ids (after_process i r) = []"
    using stage_contract.passes_on [OF contract wf c] proc
    by (auto simp: after_process_def live_def split: sum.splits option.splits)
  then have e: "exec_ids (after_process i r) = [cid] \<and> live ?p cid \<or> exec_ids (after_process i r) = []"
    by auto
  have at_exec: "ids_at ?p l = (if l = AtExec i then exec_ids (after_process i r) else ids_at p l)" for l
    by (cases l) simp_all
  have at: "set (ids_at ?p l) \<subseteq> set (ids_at p l)" for l
    unfolding at_exec using e held by (auto simp del: ids_at.simps)
  have dist: "distinct (ids_at ?p l)" for l
    unfolding at_exec using e pipeline_invD(5) [OF inv] by (auto simp del: ids_at.simps)
  have cid: "live ?p cid" if "cid \<in> set (ids_at ?p (AtExec i))"
    using e that unfolding at_exec by auto
  show ?thesis
  proof (rule pipeline_inv_less [OF inv])
    show "live ?p x" if x: "x \<in> set (ids_at ?p l)" for l x
    proof (cases "x = cid")
      case True
      from at x have "x \<in> set (ids_at p l)" by blast
      with held True only_at [OF inv, of cid "AtExec i" l] have "l = AtExec i" by auto
      with x cid True show ?thesis by simp
    next
      case False
      with at x others pipeline_invD(7) [OF inv] show ?thesis by blast
    qed
  qed (use stage_contract.keeps_wf [OF contract wf c proc] stage_contract.keeps_capacity [OF contract wf c proc]
      pipeline_invD(2,4) [OF inv] at dist in simp_all)
qed

lemma pipeline_inv_step:
  assumes inv: "pipeline_inv n p" and step: "pipeline_step env p p'"
  shows "pipeline_inv n p'"
  using step
proof cases
  case (accept now s slab' cid)
  with inv_accept [OF inv] show ?thesis by simp
next
  case (accept_full now s slab')
  have "\<not> 0 < vacant_count (p_slab p)"
    using cs.insert_fresh [OF pipeline_invD(1) [OF inv], of "conn_new now s"] accept_full by auto
  with cs.insert_full [OF pipeline_invD(1) [OF inv], of "conn_new now s"] accept_full
  have "slab' = p_slab p" by simp
  with accept_full inv show ?thesis by simp
next
  case (queue_accepted cid q u)
  have "ids_at p' l = ids_at p l" if "l \<noteq> AtMain" "\<And>i. l \<noteq> AtQueue i" for l
    using queue_accepted that by (cases l) auto
  with queue_accepted show ?thesis by (intro inv_push [OF inv, of AtMain cid 0 q]) auto
next
  case (drop_accepted cid q e)
  have "ids_at p' l = ids_at p l" if "l \<noteq> AtMain" "\<And>i. l \<noteq> AtQueue i" for l
    using drop_accepted that by (cases l) auto
  with drop_accepted show ?thesis by (intro inv_push [OF inv, of AtMain cid 0 q]) auto
next
  case (take i q cid)
  with inv_take [OF inv] show ?thesis by simp
next
  case (poll i q)
  with pop_contents [OF pipeline_invD(4) [OF inv]] have "q = p_queues p i" by fastforce
  with poll inv show ?thesis by simp
next
  case (process i cid slab' m' r)
  with inv_process [OF inv] show ?thesis by simp
next
  case (pass i cid q u)
  have "ids_at p' l = ids_at p l" if "l \<noteq> AtExec i" "\<And>i. l \<noteq> AtQueue i" for l
    using pass that by (cases l) auto
  with pass show ?thesis by (intro inv_push [OF inv, of "AtExec i" cid "i + 1" q]) auto
next
  case (pass_full i cid q e)
  have "ids_at p' l = ids_at p l" if "l \<noteq> AtExec i" "\<And>i. l \<noteq> AtQueue i" for l
    using pass_full that by (cases l) auto
  with pass_full show ?thesis by (intro inv_push [OF inv, of "AtExec i" cid "i + 1" q]) auto
qed

lemma pipeline_inv_init:
  assumes "scap < 2 ^ 64" and "0 < qcap"
  shows "pipeline_inv scap (pipeline_init scap qcap)"
proof -
  have "ids_at (pipeline_init scap qcap) l = []" for l
    by (cases l) (simp_all add: pipeline_init_def)
  moreover have "slab_capacity (slab_new scap) = scap" by (simp add: slab_new_def Let_def)
  ultimately show ?thesis
    using assms ring_inv_new [of qcap] slab_wf_new [of scap]
    by (simp add: pipeline_inv_def del: ids_at.simps) (simp add: pipeline_init_def)
qed

lemma pipeline_inv_reachable:
  assumes "(pipeline_step env)\<^sup>*\<^sup>* (pipeline_init scap qcap) p" and "scap < 2 ^ 64" and "0 < qcap"
  shows "pipeline_inv scap p"
  using assms(1)
  by (induction rule: rtranclp_induct) (auto intro: pipeline_inv_init [OF assms(2,3)] pipeline_inv_step)

section \<open>Stranded connections\<close>

text \<open>Identifiers enter the pipeline only when they are handed out by the slab.\<close>

lemma step_ids:
  assumes inv: "pipeline_inv n p" and step: "pipeline_step env p p'" and x: "x \<in> set (ids_at p' l)"
  shows "in_pipeline p x \<or> slab_get (p_slab p) x = None"
proof -
  have push: "x = cid \<or> x \<in> set (ring_contents (p_queues p k))"
    if "ring_push (p_queues p k) cid = (q, r)" "x \<in> set (ring_contents q)" "live p cid" for k cid q r
    using push_contents [OF pipeline_invD(4) [OF inv] live_index [OF inv that(3)] that(1)] that(2) by auto
  have at: "in_pipeline p y" if "y \<in> set (ids_at p k)" for y k
    using that unfolding in_pipeline_def by blast
  note live = pipeline_invD(7) [OF inv]
  from step show ?thesis
  proof cases
    case (accept now s slab' cid)
    then have "0 < vacant_count (p_slab p)"
      by (auto simp: slab_insert_def vacant_count_def Let_def split: if_splits)
    with cs.insert_fresh [OF pipeline_invD(1) [OF inv], of "conn_new now s"] accept
    have "slab_get (p_slab p) cid = None" by auto
    with accept x at [of x l] show ?thesis by (cases l) auto
  next
    case (queue_accepted cid q u)
    with x at [of x l] at [of cid AtMain] at [of x "AtQueue 0"] push [of 0 cid q] live [of cid AtMain]
    show ?thesis by (cases l) (auto split: if_splits)
  next
    case (drop_accepted cid q e)
    with x at [of x l] at [of cid AtMain] at [of x "AtQueue 0"] push [of 0 cid q] live [of cid AtMain]
    show ?thesis by (cases l) (auto split: if_splits)
  next
    case (take i q cid)
    with pop_contents [OF pipeline_invD(4) [OF inv] take(4)] x at [of x l] at [of x "AtQueue i"]
    show ?thesis by (cases l) (auto split: if_splits)
  next
    case (poll i q)
    with pop_contents [OF pipeline_invD(4) [OF inv] poll(4)] x at [of x l]
    show ?thesis by (cases l) (auto split: if_splits)
  next
    case (process i cid slab' m' r)
    with x at [of x l] inv_process [OF inv process(3,4)]
    have "l = AtExec i \<and> x \<in> set (exec_ids (after_process i r)) \<or> in_pipeline p x"
      by (cases l) (auto split: if_splits)
    moreover have "live p cid" using process live [of cid "AtExec i"] by simp
    then obtain c where "slab_get (p_slab p) cid = Some c" by (auto simp: live_def)
    from stage_contract.passes_on [OF stage_contract_of pipeline_invD(1) [OF inv] this] process
    have "set (exec_ids (after_process i r)) \<subseteq> {cid}"
      by (auto simp: after_process_def split: sum.splits option.splits)
    ultimately show ?thesis using at [of cid "AtExec i"] process by auto
  next
    case (pass i cid q u)
    with x at [of x l] at [of cid "AtExec i"] at [of x "AtQueue (i + 1)"] push [of "i + 1" cid q]
      live [of cid "AtExec i"]
    show ?thesis by (cases l) (auto split: if_splits)
  next
    case (pass_full i cid q e)
    with x at [of x l] at [of cid "AtExec i"] at [of x "AtQueue (i + 1)"] push [of "i + 1" cid q]
      live [of cid "AtExec i"]
    show ?thesis by (cases l) (auto split: if_splits)
  qed (use x at [of x l] in \<open>cases l; auto\<close>)
qed

text \<open>A connection that is not in the pipeline is not touched by a step.\<close>

lemma step_untouched:
  assumes inv: "pipeline_inv n p" and step: "pipeline_step env p p'"
    and "slab_get (p_slab p) x = Some c" and "\<not> in_pipeline p x"
  shows "slab_get (p_slab p') x = Some c"
  using step
proof cases
  case (accept now s slab' cid)
  then have "0 < vacant_count (p_slab p)"
    by (auto simp: slab_insert_def vacant_count_def Let_def split: if_splits)
  with cs.insert_fresh [OF pipeline_invD(1) [OF inv], of "conn_new now s"] accept assms(3)
  show ?thesis by auto
next
  case (accept_full now s slab')
  have "\<not> 0 < vacant_count (p_slab p)"
    using cs.insert_fresh [OF pipeline_invD(1) [OF inv], of "conn_new now s"] accept_full by auto
  with cs.insert_full [OF pipeline_invD(1) [OF inv], of "conn_new now s"] accept_full assms(3)
  show ?thesis by simp
next
  case (process i cid slab' m' r)
  then have cid: "cid \<in> set (ids_at p (AtExec i))" by simp
  with assms(4) have "x \<noteq> cid" unfolding in_pipeline_def by blast
  moreover from pipeline_invD(7) [OF inv cid] obtain d where "slab_get (p_slab p) cid = Some d"
    by (auto simp: live_def)
  ultimately show ?thesis
    using stage_contract.keeps_others [OF stage_contract_of pipeline_invD(1) [OF inv]] process assms(3)
    by fastforce
qed (use assms(3) in simp_all)

lemma stranded_step:
  assumes "pipeline_inv n p" and "pipeline_step env p p'"
    and "slab_get (p_slab p) x = Some c" and "\<not> in_pipeline p x"
  shows "slab_get (p_slab p') x = Some c \<and> \<not> in_pipeline p' x"
  using step_untouched [OF assms] step_ids [OF assms(1,2), of x] assms(3,4)
  by (auto simp: in_pipeline_def)

lemma stranded_forever_lemma:
  assumes "pipeline_inv n p" and "(pipeline_step env)\<^sup>*\<^sup>* p p'"
    and "slab_get (p_slab p) x = Some c" and "\<not> in_pipeline p x"
  shows "pipeline_inv n p' \<and> slab_get (p_slab p') x = Some c \<and> \<not> in_pipeline p' x"
  using assms(2)
proof (induction rule: rtranclp_induct)
  case (step y z)
  then show ?case using pipeline_inv_step stranded_step by blast
qed (use assms in simp)

section \<open>A thread that has panicked\<close>

text \<open>Nothing revives a dead executor, and its queue is never read again.\<close>

lemma dead_step:
  assumes inv: "pipeline_inv n p" and step: "pipeline_step env p p'" and dead: "p_execs p i = EDead"
  shows "p_execs p' i = EDead
    \<and> (\<exists>more. ring_contents (p_queues p' i) = ring_contents (p_queues p i) @ more)"
proof -
  have push: "\<exists>more. ring_contents q = ring_contents (p_queues p k) @ more"
    if "ring_push (p_queues p k) cid = (q, r)" "live p cid" for k cid q r
    using push_contents [OF pipeline_invD(4) [OF inv] live_index [OF inv that(2)] that(1)] by auto
  note live = pipeline_invD(7) [OF inv]
  from step show ?thesis
  proof cases
    case (queue_accepted cid q u)
    with push [of 0 cid q] live [of cid AtMain] dead show ?thesis by auto
  next
    case (drop_accepted cid q e)
    with push [of 0 cid q] live [of cid AtMain] dead show ?thesis by auto
  next
    case (poll j q)
    with pop_contents [OF pipeline_invD(4) [OF inv] poll(4)] dead show ?thesis by auto
  next
    case (pass j cid q u)
    with push [of "j + 1" cid q] live [of cid "AtExec j"] dead show ?thesis by auto
  next
    case (pass_full j cid q e)
    with push [of "j + 1" cid q] live [of cid "AtExec j"] dead show ?thesis by auto
  qed (use dead in auto)
qed

lemma dead_forever:
  assumes "pipeline_inv n p" and "(pipeline_step env)\<^sup>*\<^sup>* p p'" and "p_execs p i = EDead"
  shows "pipeline_inv n p' \<and> p_execs p' i = EDead
    \<and> (\<exists>more. ring_contents (p_queues p' i) = ring_contents (p_queues p i) @ more)"
  using assms(2)
proof (induction rule: rtranclp_induct)
  case (step y z)
  from step.IH obtain more where
    y: "pipeline_inv n y" "p_execs y i = EDead"
      "ring_contents (p_queues y i) = ring_contents (p_queues p i) @ more" by blast
  from dead_step [OF y(1) step.hyps(2) y(2)] y pipeline_inv_step [OF y(1) step.hyps(2)]
  show ?case by auto
qed (use assms in simp)

section \<open>One request through all stages\<close>

text \<open>
  The response the code gives to a path, with the routes of \<open>stage.rs\<close> and the handlers of
  \<open>handlers.rs\<close>. It is not what is documented for every path: the README lists \<open>/health\<close> and
  \<open>/metrics\<close> too, the health checks of \<open>Dockerfile\<close> and \<open>docker-compose.yml\<close> ask for \<open>/health\<close>, and
  \<open>handle_health\<close> is there to answer it; but no route leads to it, and the reply is 404.
\<close>

definition response_for :: "stage_env \<Rightarrow> str \<Rightarrow> http_response" where
  "response_for env path =
     (if path = lit ''/'' then response_html (response_ok (landing_page env))
      else if path = lit ''/api/test'' then response_json (response_ok
        ([0x7B, 0x22] @ lit ''status'' @ [0x22] @ lit '': '' @ [0x22] @ lit ''ok'' @ [0x22] @ lit '', '' @ [0x22]
         @ lit ''message'' @ [0x22] @ lit '': '' @ [0x22] @ lit ''NERS - High Performance Web Server''
         @ [0x22, 0x7D]))
      else response_not_found)"

lemma response_not_found_other:
  "path \<noteq> lit ''/'' \<Longrightarrow> path \<noteq> lit ''/api/test'' \<Longrightarrow> response_for env path = response_not_found"
  by (simp add: response_for_def)

lemma health_is_not_found:
  "response_for env (lit ''/health'') = response_not_found" "response_for env (lit ''/metrics'') = response_not_found"
  "rs_status response_not_found = 404"
  by (simp_all add: response_for_def response_not_found_def response_new_def Let_def) (simp_all add: lit_def)

fun run_stages :: "stage_env \<Rightarrow> nat \<Rightarrow> nat \<Rightarrow> process_one" where
  "run_stages env i 0 cid slab m = ((slab, m), Inr (Some cid))"
| "run_stages env i (Suc k) cid slab m =
     (case stage_of env i cid slab m of
        ((slab', m'), Inr (Some j)) \<Rightarrow> run_stages env (Suc i) k j slab' m'
      | x \<Rightarrow> x)"

lemma run_handler_response:
  "run_handler env (c\<lparr>route := Some (route_of (Some path)), lifecycle := l\<rparr>) =
     respond env (response_for env path) (c\<lparr>route := Some (route_of (Some path)), lifecycle := l\<rparr>)"
  by (simp add: run_handler_def route_of_def response_for_def handle_hello_def handle_json_def
      handle_not_found_def)

lemma slab_put_put [simp]: "slab_put (slab_put slab cid c) cid c' = slab_put slab cid c'"
  by (simp add: slab_put_def)

lemma slab_get_put_same: "slab_get slab cid = Some c \<Longrightarrow> slab_get (slab_put slab cid c') cid = Some c'"
  by (simp add: slab_get_put)

lemma first_four_stages:
  assumes get: "slab_get slab cid = Some c" and s: "stream c = Some s"
    and parse: "http_parse (unicode_lower env) (read_buf c @ available (rx s)) = Inr (req, len)"
  shows "\<exists>slab' m' c' s'. run_stages env 0 4 cid slab m = ((slab', m'), Inr (Some cid))
    \<and> slab' = slab_put slab cid c' \<and> stream c' = Some s' \<and> tx s' = tx s \<and> wire s' = wire s
    \<and> write_buf c' = write_buf c @ to_bytes (header_order env) (response_for env (rq_path req))
    \<and> bytes_written c' = bytes_written c \<and> lifecycle c' = Sending"
proof -
  obtain s' buf r where rd: "read_all s (read_buf c) = (s', buf, r)"
    by (cases "read_all s (read_buf c)")
  from read_all_available [OF this] have s': "buf = read_buf c @ available (rx s)" "tx s' = tx s" "wire s' = wire s"
    by simp_all
  let ?c1 = "c\<lparr>stream := Some s', request_method := Some (rq_method req),
    request_path := Some (rq_path req), lifecycle := Routed, read_buf := []\<rparr>"
  let ?c2 = "?c1\<lparr>route := Some (route_of (Some (rq_path req))), lifecycle := Processing\<rparr>"
  let ?c3 = "(run_handler env ?c2)\<lparr>lifecycle := Sending\<rparr>"
  have 1: "stage_of env 0 cid slab m = ((slab_put slab cid ?c1, m), Inr (Some cid))"
    using get s rd s' parse by (simp add: stage_of_def parse_one_def read_into_def Let_def)
  have 2: "stage_of env 1 cid (slab_put slab cid ?c1) m = ((slab_put slab cid ?c2, m), Inr (Some cid))"
    using get by (simp add: stage_of_def route_one_def slab_get_put_same Let_def)
  have 3: "stage_of env 2 cid (slab_put slab cid ?c2) m =
      ((slab_put slab cid ?c3, inc_total_requests m), Inr (Some cid))"
    using get by (simp add: stage_of_def app_one_def slab_get_put_same Let_def)
  have 4: "stage_of env 3 cid (slab_put slab cid ?c3) m' = ((slab_put slab cid ?c3, m'), Inr (Some cid))" for m'
    by (simp add: stage_of_def encode_one_def)
  have "run_stages env 0 4 cid slab m = ((slab_put slab cid ?c3, inc_total_requests m), Inr (Some cid))"
    using 1 2 3 4 by (simp add: numeral_eq_Suc)
  moreover have "stream ?c3 = Some s'" "bytes_written ?c3 = bytes_written c"
    "write_buf ?c3 = write_buf c @ to_bytes (header_order env) (response_for env (rq_path req))"
    unfolding run_handler_response by (simp_all add: respond_def)
  ultimately show ?thesis using s'
    by (intro exI [of _ "slab_put slab cid ?c3"] exI [of _ "inc_total_requests m"] exI [of _ ?c3]
        exI [of _ s']) simp
qed

lemma remaining_written:
  assumes "data \<noteq> []" and "tx s = WriteOk k # r" and "length data \<le> k"
  shows "\<exists>s'. write_all s data 0 = (s', Inr (length data)) \<and> wire s' = wire s @ data"
  using assms
  by (simp add: write_all_def slice_def write_all_from.simps [of s] stream_write_def Let_def min_absorb2)

text \<open>A first connection, accepted, queued and taken by the parse executor.\<close>

lemma held_reachable:
  "\<exists>p. (pipeline_step env)\<^sup>*\<^sup>* (pipeline_init 1 2) p \<and> p_execs p 0 = EHold (ConnId 0)
    \<and> slab_get (p_slab p) (ConnId 0) = Some (conn_new 0 s)"
proof -
  let ?p0 = "pipeline_init 1 2"
  let ?slab = "\<lparr> slots = [Some (conn_new 0 s)], free_list = [], slab_capacity = 1 \<rparr>"
  let ?p1 = "?p0\<lparr>p_slab := ?slab, p_metrics := inc_total_conns (p_metrics ?p0), p_main := MPush (ConnId 0)\<rparr>"
  have "slab_insert (p_slab ?p0) (conn_new 0 s) = (?slab, Inr (Some (ConnId 0)))"
    by (simp add: pipeline_init_def slab_insert_def slab_new_def Let_def)
  then have 1: "pipeline_step env ?p0 ?p1" by (intro accept) (simp_all add: pipeline_init_def)
  let ?q = "\<lparr> buffer = [0, USIZE_MAX], capacity = 2, head = 0, tail = 1 \<rparr>"
  let ?p2 = "?p1\<lparr>p_queues := (p_queues ?p1)(0 := ?q),
    p_metrics := inc_queue_len (lit ''parse'') (p_metrics ?p1), p_main := MIdle\<rparr>"
  have "ring_push (p_queues ?p1 0) (ConnId 0) = (?q, Inr ())"
    by (simp add: pipeline_init_def ring_push_def ring_new_def Let_def numeral_2_eq_2)
  then have 2: "pipeline_step env ?p1 ?p2" by (intro queue_accepted) simp_all
  let ?r = "?q\<lparr>head := 1\<rparr>"
  let ?p3 = "?p2\<lparr>p_queues := (p_queues ?p2)(0 := ?r), p_execs := (p_execs ?p2)(0 := EHold (ConnId 0))\<rparr>"
  have "ring_pop (p_queues ?p2 0) = (?r, Inr (Some (ConnId 0)))"
    by (simp add: ring_pop_def USIZE_MAX_def)
  then have 3: "pipeline_step env ?p2 ?p3"
    by (intro take) (simp_all add: stage_count_def pipeline_init_def)
  from 1 2 3 have "(pipeline_step env)\<^sup>*\<^sup>* ?p0 ?p3"
    by (meson converse_rtranclp_into_rtranclp rtranclp.rtrancl_refl)
  then show ?thesis by (intro exI [of _ ?p3]) (simp add: slab_get_def)
qed

text \<open>All stages in order on a connection whose request is complete.\<close>

lemma request_answered_core:
  assumes "slab_wf slab" and "slab_get slab cid = Some (conn_new now s)"
    and "available (rx s) = request_head m path v hs @ body"
    and "token m" "token path" "token v" "\<forall>h \<in> set hs. header_wf h" "hs \<noteq> []"
    and "valid_utf8 body" and "content_length (header_map hs) = length body"
    and "length (request_head m path v hs @ body) < 2 ^ 64"
    and "tx s = WriteOk k # r" and "length (to_bytes (header_order env) (response_for env path)) \<le> k"
  shows "\<exists>slab4 m4 c4 s4 s5 slab5.
    run_stages env 0 4 cid slab metrics = ((slab4, m4), Inr (Some cid))
    \<and> slab_get slab4 cid = Some c4 \<and> stream c4 = Some s4
    \<and> write_all s4 (write_buf c4) (bytes_written c4)
        = (s5, Inr (length (to_bytes (header_order env) (response_for env path))))
    \<and> wire s5 = wire s @ to_bytes (header_order env) (response_for env path)
    \<and> net_out_one cid slab4 m4 = ((slab5, dec_total_conns m4), Inr None)
    \<and> slab_wf slab5 \<and> (\<forall>j. slab_get slab5 j = (if j = cid then None else slab_get slab j))"
proof -
  let ?resp = "to_bytes (header_order env) (response_for env path)"
  let ?req = "\<lparr> rq_method = m, rq_path = path, rq_version = v, rq_headers = header_map hs, rq_body = body \<rparr>"
  have "http_parse (unicode_lower env) (read_buf (conn_new now s) @ available (rx s)) =
      Inr (?req, length (request_head m path v hs) + length body)"
    using http_parse_request [OF assms(4-10), of "unicode_lower env"] assms(3,11)
    by (simp add: conn_new_def)
  from first_four_stages [OF assms(2) _ this, of metrics] obtain slab4 m4 c4 s4 where
    4: "run_stages env 0 4 cid slab metrics = ((slab4, m4), Inr (Some cid))" "slab4 = slab_put slab cid c4"
      "stream c4 = Some s4" "tx s4 = tx s" "wire s4 = wire s" "write_buf c4 = ?resp" "bytes_written c4 = 0"
    by (auto simp: conn_new_def)
  have ne: "?resp \<noteq> []" by (simp add: to_bytes_def)
  from remaining_written [OF ne] 4 assms(12,13) obtain s5 where
    w: "write_all s4 (write_buf c4) (bytes_written c4) = (s5, Inr (length ?resp))" "wire s5 = wire s @ ?resp"
    by metis
  have get4: "slab_get slab4 cid = Some c4" and wf4: "slab_wf slab4"
    and oth: "\<And>j. j \<noteq> cid \<Longrightarrow> slab_get slab4 j = slab_get slab j"
    using 4(2) slab_put_contract [OF assms(1,2)] by simp_all
  let ?c = "c4\<lparr>stream := Some s5, bytes_written := length ?resp, lifecycle := LcClosed\<rparr>"
  from remove_conn_contract [of "slab_put slab4 cid ?c" cid ?c "dec_total_conns m4"]
  obtain slab5 where 5: "remove_conn cid (slab_put slab4 cid ?c) (dec_total_conns m4) = ((slab5, dec_total_conns m4), Inr None)"
    "slab_wf slab5" "\<forall>j. slab_get slab5 j = (if j = cid then None else slab_get (slab_put slab4 cid ?c) j)"
    using slab_put_contract [where c' = ?c, OF wf4 get4] by blast
  have "net_out_one cid slab4 m4 = ((slab5, dec_total_conns m4), Inr None)"
    using get4 4(3,6,7) w(1) 5(1) by (simp add: net_out_one_def Let_def)
  moreover have "\<forall>j. slab_get slab5 j = (if j = cid then None else slab_get slab j)"
    using 5(3) slab_put_contract(2) [OF wf4 get4] oth by simp
  ultimately show ?thesis using 4(1,3) get4 w 5(2) by blast
qed

section \<open>Properties\<close>

text \<open>
  C5: No connection is ever in two places, and no stage works on a freed connection. In every
  state the threads can reach, each queue holds an identifier at most once, an identifier in one
  queue or held by one thread is in no other, and every identifier in the pipeline occupies a
  slot: an executor always finds the connection it has popped, and a slot is never handed out
  while its identifier is still on its way.
\<close>

theorem pipeline_no_aliasing:
  assumes "(pipeline_step env)\<^sup>*\<^sup>* (pipeline_init slab_cap queue_cap) p"
    and "slab_cap < 2 ^ 64" and "0 < queue_cap"
  shows "(\<forall>l. distinct (ids_at p l))
    \<and> (\<forall>l l' cid. cid \<in> set (ids_at p l) \<and> cid \<in> set (ids_at p l') \<longrightarrow> l = l')
    \<and> (\<forall>l cid. cid \<in> set (ids_at p l) \<longrightarrow> slab_get (p_slab p) cid \<noteq> None)
    \<and> slab_wf (p_slab p)"
  using pipeline_inv_reachable [OF assms] unfolding pipeline_inv_def live_def by blast

lemma accept_reachable:
  "pipeline_step env (pipeline_init 1 2) (pipeline_init 1 2
     \<lparr>p_slab := fst (slab_insert (slab_new 1) (conn_new 0 s)),
      p_metrics := inc_total_conns metrics_new, p_main := MPush (ConnId 0)\<rparr>)"
proof -
  have "slab_insert (slab_new 1) (conn_new 0 s) =
      (fst (slab_insert (slab_new 1) (conn_new 0 s)), Inr (Some (ConnId 0)))"
    by (simp add: slab_insert_def slab_new_def Let_def)
  then show ?thesis
    using accept [of "pipeline_init 1 2" 0 s _ "ConnId 0" env] by (simp add: pipeline_init_def)
qed

theorem pipeline_no_aliasing_witness:
  "(let p = pipeline_init 1 2 \<lparr>p_slab := fst (slab_insert (slab_new 1) (conn_new 0 \<lparr> rx = [], tx = [], wire = [] \<rparr>)),
        p_metrics := inc_total_conns metrics_new, p_main := MPush (ConnId 0)\<rparr>
    in ids_at p AtMain = [ConnId 0] \<and> slab_get (p_slab p) (ConnId 0) \<noteq> None)"
proof -
  let ?env = "\<lparr> landing_page = [], header_order = id, unicode_lower = id \<rparr>"
  from pipeline_no_aliasing [OF r_into_rtranclp [where r = "pipeline_step ?env", OF accept_reachable]]
  have "\<forall>l cid. cid \<in> set (ids_at (pipeline_init 1 2 \<lparr>p_slab := fst (slab_insert (slab_new 1)
      (conn_new 0 \<lparr> rx = [], tx = [], wire = [] \<rparr>)), p_metrics := inc_total_conns metrics_new,
      p_main := MPush (ConnId 0)\<rparr>) l) \<longrightarrow> slab_get (p_slab (pipeline_init 1 2
      \<lparr>p_slab := fst (slab_insert (slab_new 1) (conn_new 0 \<lparr> rx = [], tx = [], wire = [] \<rparr>)),
       p_metrics := inc_total_conns metrics_new, p_main := MPush (ConnId 0)\<rparr>)) cid \<noteq> None"
    by simp
  from this [rule_format, of "ConnId 0" AtMain] show ?thesis by (simp add: Let_def)
qed

text \<open>
  C28: A request that arrives in two pieces is lost, and its slot with it. When the parse
  executor holds a connection whose bytes so far are an incomplete request, then after it has
  processed it, whatever the threads and the network do from then on, the connection is in no
  queue and held by no thread, it is never read from or written to again, and its slot is never
  freed. (The comment in the code says that it is put back in the queue.)
\<close>

theorem incomplete_request_lost:
  assumes "(pipeline_step env)\<^sup>*\<^sup>* (pipeline_init slab_cap queue_cap) p"
    and "slab_cap < 2 ^ 64" and "0 < queue_cap"
    and "p_execs p 0 = EHold cid" and "slab_get (p_slab p) cid = Some c"
    and "http_parse (unicode_lower env) (read_buf (read_into c)) = Inl (Error Incomplete)"
  shows "\<exists>p1. pipeline_step env p p1 \<and> (\<forall>p2. (pipeline_step env)\<^sup>*\<^sup>* p1 p2 \<longrightarrow>
    slab_get (p_slab p2) cid = Some (read_into c) \<and> (\<forall>l. cid \<notin> set (ids_at p2 l)))"
proof -
  note inv = pipeline_inv_reachable [OF assms(1-3)]
  let ?p1 = "p\<lparr>p_slab := slab_put (p_slab p) cid (read_into c), p_metrics := p_metrics p,
    p_execs := (p_execs p)(0 := after_process 0 (Inr None))\<rparr>"
  have st: "stage_of env 0 cid (p_slab p) (p_metrics p) =
      ((slab_put (p_slab p) cid (read_into c), p_metrics p), Inr None)"
    using assms(5,6) by (simp add: stage_of_def parse_one_def Let_def)
  have step: "pipeline_step env p ?p1"
    using assms(4) st by (intro process) (simp_all add: stage_count_def)
  have get: "slab_get (p_slab ?p1) cid = Some (read_into c)"
    using assms(5) by (simp add: slab_get_put_same)
  have "cid \<notin> set (ids_at ?p1 l)" for l
  proof (cases "l = AtExec 0")
    case False
    then have "ids_at ?p1 l = ids_at p l" by (cases l) auto
    with only_at [OF inv, of cid "AtExec 0" l] False assms(4) show ?thesis by simp
  qed (simp add: after_process_def)
  then have "\<not> in_pipeline ?p1 cid" by (simp add: in_pipeline_def)
  from stranded_forever_lemma [OF pipeline_inv_step [OF inv step] _ get this] step show ?thesis
    unfolding in_pipeline_def by blast
qed

lemma nothing_read: "stream c = Some s \<Longrightarrow> rx s = [] \<Longrightarrow> read_buf (read_into c) = read_buf c"
  using read_all_available [of s "read_buf c"] by (auto simp: read_into_def split: prod.split)

theorem incomplete_request_lost_witness:
  "\<exists>p p1. p_execs p 0 = EHold (ConnId 0)
    \<and> pipeline_step \<lparr> landing_page = [], header_order = id, unicode_lower = id \<rparr> p p1
    \<and> (\<forall>p2. (pipeline_step \<lparr> landing_page = [], header_order = id, unicode_lower = id \<rparr>)\<^sup>*\<^sup>* p1 p2 \<longrightarrow>
      slab_get (p_slab p2) (ConnId 0) \<noteq> None)"
proof -
  let ?env = "\<lparr> landing_page = [], header_order = id, unicode_lower = id \<rparr>"
  let ?c = "conn_new 0 \<lparr> rx = [], tx = [], wire = [] \<rparr>"
  obtain p where p: "(pipeline_step ?env)\<^sup>*\<^sup>* (pipeline_init 1 2) p" "p_execs p 0 = EHold (ConnId 0)"
    "slab_get (p_slab p) (ConnId 0) = Some ?c"
    using held_reachable by blast
  have "read_buf (read_into ?c) = []" 
    by (subst nothing_read [where s = "\<lparr> rx = [], tx = [], wire = [] \<rparr>"]) (simp_all add: conn_new_def)
  then have "http_parse (unicode_lower ?env) (read_buf (read_into ?c)) = Inl (Error Incomplete)"
    by (simp add: http_parse_def)
  from incomplete_request_lost [OF p(1) _ _ p(2,3) this] p(2) show ?thesis by fastforce
qed

text \<open>
  A response that the socket does not take at once is never finished. When, in any state
  that satisfies the invariant of the reachable states, the output executor holds a connection and the socket accepts only the first \<open>n\<close> of the remaining bytes,
  the connection leaves the pipeline with the rest unsent, for ever, its slot occupied and its
  socket open.
\<close>

lemma partial_write_lost:
  assumes "pipeline_inv slab_cap p"
    and "p_execs p 4 = EHold cid" and "slab_get (p_slab p) cid = Some c" and "stream c = Some s"
    and "write_all s (write_buf c) (bytes_written c) = (s', Inr n)"
    and "bytes_written c + n < length (write_buf c)"
  shows "wire s' = wire s @ take n (drop (bytes_written c) (write_buf c))
    \<and> (\<exists>p1. pipeline_step env p p1 \<and> (\<forall>p2. (pipeline_step env)\<^sup>*\<^sup>* p1 p2 \<longrightarrow>
      (\<forall>l. cid \<notin> set (ids_at p2 l)) \<and>
      slab_get (p_slab p2) cid = Some (c\<lparr>stream := Some s', bytes_written := bytes_written c + n\<rparr>)))"
proof
  show "wire s' = wire s @ take n (drop (bytes_written c) (write_buf c))"
    using write_all_wire [OF assms(5)] by auto
next
  note inv = assms(1)
  let ?c = "c\<lparr>stream := Some s', bytes_written := bytes_written c + n\<rparr>"
  let ?p1 = "p\<lparr>p_slab := slab_put (p_slab p) cid ?c, p_metrics := p_metrics p,
    p_execs := (p_execs p)(4 := after_process 4 (Inr None))\<rparr>"
  have st: "stage_of env 4 cid (p_slab p) (p_metrics p) = ((slab_put (p_slab p) cid ?c, p_metrics p), Inr None)"
    using assms(3-6) by (simp add: stage_of_def net_out_one_def Let_def)
  have step: "pipeline_step env p ?p1"
    using assms(2) st by (intro process) (simp_all add: stage_count_def)
  have get: "slab_get (p_slab ?p1) cid = Some ?c" using assms(3) by (simp add: slab_get_put_same)
  have "cid \<notin> set (ids_at ?p1 l)" for l
  proof (cases "l = AtExec 4")
    case False
    then have "ids_at ?p1 l = ids_at p l" by (cases l) auto
    with only_at [OF inv, of cid "AtExec 4" l] False assms(2) show ?thesis by simp
  qed (simp add: after_process_def)
  then have "\<not> in_pipeline ?p1 cid" by (simp add: in_pipeline_def)
  from stranded_forever_lemma [OF pipeline_inv_step [OF inv step] _ get this] step
  show "\<exists>p1. pipeline_step env p p1 \<and> (\<forall>p2. (pipeline_step env)\<^sup>*\<^sup>* p1 p2 \<longrightarrow>
      (\<forall>l. cid \<notin> set (ids_at p2 l)) \<and> slab_get (p_slab p2) cid = Some ?c)"
    unfolding in_pipeline_def by blast
qed

text \<open>A state with one connection, held by executor \<open>i\<close>.\<close>

definition one_held :: "nat \<Rightarrow> conn_state \<Rightarrow> pipeline" where
  "one_held i c = pipeline_init 1 2
     \<lparr>p_slab := \<lparr> slots = [Some c], free_list = [], slab_capacity = 1 \<rparr>,
      p_execs := (\<lambda>_. EIdle)(i := EHold (ConnId 0))\<rparr>"

lemma one_held_inv: "pipeline_inv 1 (one_held i c)"
proof -
  have at: "ids_at (one_held i c) l = (if l = AtExec i then [ConnId 0] else [])" for l
    by (cases l) (simp_all add: one_held_def pipeline_init_def)
  have "slab_wf \<lparr> slots = [Some c], free_list = [], slab_capacity = 1 \<rparr>" by (auto simp: slab_wf_def)
  then show ?thesis
    using ring_inv_new [of 2]
    by (simp add: pipeline_inv_def at live_def del: ids_at.simps)
      (simp add: one_held_def pipeline_init_def slab_get_def)
qed

theorem partial_write_lost_witness:
  "\<exists>p1. pipeline_step \<lparr> landing_page = [], header_order = id, unicode_lower = id \<rparr>
      (one_held 4 (conn_new 0 \<lparr> rx = [], tx = [WriteOk 2], wire = [] \<rparr> \<lparr>write_buf := [1, 2, 3]\<rparr>)) p1
    \<and> (\<forall>p2. (pipeline_step \<lparr> landing_page = [], header_order = id, unicode_lower = id \<rparr>)\<^sup>*\<^sup>* p1 p2 \<longrightarrow>
      slab_get (p_slab p2) (ConnId 0) \<noteq> None)"
proof -
  let ?env = "\<lparr> landing_page = [], header_order = id, unicode_lower = id \<rparr>"
  let ?s = "\<lparr> rx = [], tx = [WriteOk 2], wire = [] \<rparr>"
  let ?c = "conn_new 0 ?s \<lparr>write_buf := [1, 2, 3]\<rparr>"
  have "write_all ?s (write_buf ?c) (bytes_written ?c) = (\<lparr> rx = [], tx = [], wire = [1, 2] \<rparr>, Inr 2)"
    by (simp add: write_all_def slice_def write_all_from.simps [of ?s] stream_write_def conn_new_def Let_def
        write_all_from.simps [of "\<lparr> rx = [], tx = [], wire = [1, 2] \<rparr>"])
  from partial_write_lost [where p = "one_held 4 ?c" and cid = "ConnId 0" and env = ?env,
      OF one_held_inv _ _ _ this]
  have "\<exists>p1. pipeline_step ?env (one_held 4 ?c) p1 \<and> (\<forall>p2. (pipeline_step ?env)\<^sup>*\<^sup>* p1 p2 \<longrightarrow>
      (\<forall>l. ConnId 0 \<notin> set (ids_at p2 l)) \<and> slab_get (p_slab p2) (ConnId 0) =
        Some (?c\<lparr>stream := Some \<lparr> rx = [], tx = [], wire = [1, 2] \<rparr>, bytes_written := bytes_written ?c + 2\<rparr>))"
    by (simp add: one_held_def slab_get_def conn_new_def)
  then show ?thesis by fastforce
qed

text \<open>
  C27: One request stops the server. When the parse executor holds a connection that has sent a
  request head whose Content-Length overflows with the length of the head, processing it kills
  the thread; from then on, whatever the other threads do, the parse executor is dead, its queue
  is never read again and only grows, so that no later request is ever parsed.
\<close>

theorem content_length_stops_server:
  assumes "pipeline_inv slab_cap p" and "p_execs p 0 = EHold cid"
    and "slab_get (p_slab p) cid = Some c" and "stream c = Some s" and "read_buf c = []"
    and "available (rx s) = request_head m path v hs"
    and "token m" "token path" "token v" "\<forall>h \<in> set hs. header_wf h" "hs \<noteq> []"
    and "content_length (header_map hs) = n" and "n < 2 ^ 64"
    and "2 ^ 64 \<le> length (request_head m path v hs) + n" and "length (request_head m path v hs) < 2 ^ 64"
  shows "\<exists>p1. pipeline_step env p p1 \<and> (\<forall>p2. (pipeline_step env)\<^sup>*\<^sup>* p1 p2 \<longrightarrow>
    p_execs p2 0 = EDead
    \<and> (\<exists>more. ring_contents (p_queues p2 0) = ring_contents (p_queues p 0) @ more))"
proof -
  have "read_buf (read_into c) = request_head m path v hs @ []"
    using assms(4-6) read_all_available [of s "read_buf c"] by (auto simp: read_into_def split: prod.split)
  with http_parse_overflow [OF assms(7-11) valid_utf8_Nil assms(12-15), of "unicode_lower env"]
  have st: "stage_of env 0 cid (p_slab p) (p_metrics p) =
      ((slab_put (p_slab p) cid (read_into c), p_metrics p), Inl Panic)"
    using assms(3) by (simp add: stage_of_def parse_one_def Let_def)
  let ?p1 = "p\<lparr>p_slab := slab_put (p_slab p) cid (read_into c), p_metrics := p_metrics p,
    p_execs := (p_execs p)(0 := after_process 0 (Inl Panic))\<rparr>"
  have step: "pipeline_step env p ?p1"
    using assms(2) st by (intro process) (simp_all add: stage_count_def)
  have "p_execs ?p1 0 = EDead" by (simp add: after_process_def)
  from dead_forever [OF pipeline_inv_step [OF assms(1) step] _ this] step show ?thesis by auto
qed

theorem content_length_stops_server_witness:
  "\<exists>p1. pipeline_step \<lparr> landing_page = [], header_order = id, unicode_lower = id \<rparr>
      (one_held 0 (conn_new 0 \<lparr> rx = [ReadOk (request_head [71] [47] [49]
        [(lit ''Content-Length'', lit ''18446744073709551615'')])], tx = [], wire = [] \<rparr>)) p1
    \<and> (\<forall>p2. (pipeline_step \<lparr> landing_page = [], header_order = id, unicode_lower = id \<rparr>)\<^sup>*\<^sup>* p1 p2 \<longrightarrow>
      p_execs p2 0 = EDead)"
proof -
  let ?env = "\<lparr> landing_page = [], header_order = id, unicode_lower = id \<rparr>"
  let ?hs = "[(lit ''Content-Length'', lit ''18446744073709551615'')]"
  let ?s = "\<lparr> rx = [ReadOk (request_head [71] [47] [49] ?hs)], tx = [], wire = [] \<rparr>"
  have hs: "\<forall>h \<in> set ?hs. header_wf h"
    by (simp add: header_wf_def token_def trimmed_def is_whitespace_def lit_def)
  have n: "content_length (header_map ?hs) = 18446744073709551615"
    by (simp add: header_map_def lit_def ascii_lower_def content_length_def hm_get_insert
      parse_usize_def is_digit_def digits_value_def)
  have len: "length (request_head [71] [47] [49] ?hs) = 47"
    by (simp add: request_head_def request_lines_def header_line_def lit_def)
  have "available (rx ?s) = request_head [71] [47] [49] ?hs"
    using len by auto
  from content_length_stops_server [where p = "one_held 0 (conn_new 0 ?s)" and cid = "ConnId 0" and env = ?env,
      OF one_held_inv _ _ _ _ this token_simple hs _ n]
  have "\<exists>p1. pipeline_step ?env (one_held 0 (conn_new 0 ?s)) p1 \<and> (\<forall>p2. (pipeline_step ?env)\<^sup>*\<^sup>* p1 p2 \<longrightarrow>
    p_execs p2 0 = EDead \<and> (\<exists>more. ring_contents (p_queues p2 0) =
      ring_contents (p_queues (one_held 0 (conn_new 0 ?s)) 0) @ more))"
    by (simp add: len one_held_def slab_get_def conn_new_def)
  then show ?thesis by blast
qed

text \<open>
  A complete request is answered with the right response and its slot is freed. If all bytes
  of a request with at least one header are available on a new connection and the socket accepts
  the response, the five stages in order write to the socket exactly the response of the route
  of its path (landing page, JSON, or 404), count one request, free the connection's slot, and
  touch no other connection.
\<close>

lemma request_answered:
  assumes "slab_wf slab" and "slab_get slab cid = Some (conn_new now s)"
    and "available (rx s) = request_head m path v hs @ body"
    and "token m" "token path" "token v" "\<forall>h \<in> set hs. header_wf h" "hs \<noteq> []"
    and "valid_utf8 body" and "content_length (header_map hs) = length body"
    and "length (request_head m path v hs @ body) < 2 ^ 64"
    and "tx s = WriteOk k # r" and "length (to_bytes (header_order env) (response_for env path)) \<le> k"
  shows "\<exists>slab4 m4 c4 s4 s5 slab5.
    run_stages env 0 4 cid slab metrics = ((slab4, m4), Inr (Some cid))
    \<and> slab_get slab4 cid = Some c4 \<and> stream c4 = Some s4
    \<and> write_all s4 (write_buf c4) (bytes_written c4)
        = (s5, Inr (length (to_bytes (header_order env) (response_for env path))))
    \<and> wire s5 = wire s @ to_bytes (header_order env) (response_for env path)
    \<and> net_out_one cid slab4 m4 = ((slab5, dec_total_conns m4), Inr None)
    \<and> slab_wf slab5 \<and> (\<forall>j. slab_get slab5 j = (if j = cid then None else slab_get slab j))"
  using assms by (rule request_answered_core)

theorem request_answered_witness:
  "(let env = \<lparr> landing_page = [60], header_order = id, unicode_lower = id \<rparr>;
        s = \<lparr> rx = [ReadOk (request_head [71] [47] [49] [(lit ''Content-Length'', [0x32])] @ [104, 105])],
              tx = [WriteOk (length (to_bytes id (response_for env [47])))], wire = [] \<rparr>;
        slab = \<lparr> slots = [Some (conn_new 0 s)], free_list = [], slab_capacity = 1 \<rparr>
    in \<exists>slab4 m4 slab5. run_stages env 0 4 (ConnId 0) slab metrics_new = ((slab4, m4), Inr (Some (ConnId 0)))
      \<and> net_out_one (ConnId 0) slab4 m4 = ((slab5, dec_total_conns m4), Inr None)
      \<and> slab_get slab5 (ConnId 0) = None)"
proof -
  let ?env = "\<lparr> landing_page = [60], header_order = id, unicode_lower = id \<rparr>"
  let ?hs = "[(lit ''Content-Length'', [0x32])]"
  let ?s = "\<lparr> rx = [ReadOk (request_head [71] [47] [49] ?hs @ [104, 105])],
    tx = [WriteOk (length (to_bytes id (response_for ?env [47])))], wire = [] \<rparr>"
  let ?slab = "\<lparr> slots = [Some (conn_new 0 ?s)], free_list = [], slab_capacity = 1 \<rparr>"
  have len: "length (request_head [71] [47] [49] ?hs) = 28"
    by (simp add: request_head_def request_lines_def header_line_def lit_def)
  have hs: "\<forall>h \<in> set ?hs. header_wf h" using length_header_wf by simp
  have wf: "slab_wf ?slab" by (auto simp: slab_wf_def)
  have get: "slab_get ?slab (ConnId 0) = Some (conn_new 0 ?s)" by (simp add: slab_get_def)
  have av: "available (rx ?s) = request_head [71] [47] [49] ?hs @ [104, 105]" by simp
  from request_answered [where env = ?env and metrics = metrics_new, OF wf get av token_simple hs]
  show ?thesis
    by (simp add: length_header_map len valid_utf8_ascii_Cons) metis
qed

end
