(* ===== verification/Single_Stages.thy ===== *)
theory Single_Stages
  imports Stages
begin

text \<open>
  The single-threaded stages of \<open>ners-core/src/stage.rs\<close> (the trait \<open>Stage\<close>): each call of
  \<open>process\<close> takes up to a hundred connections from its input queue. The state is the slab, the
  metrics and the two queues of the stage. The lemmas show that, unlike the multi-core stages,
  these put an unfinished connection back, and that repeated writes send each byte once.
\<close>

section \<open>A stage and its queues\<close>

record lane =
  l_slab :: conn_slab
  l_metrics :: metrics_collector
  l_in :: ring_queue
  l_out :: ring_queue

definition on_metrics :: "(metrics_collector \<Rightarrow> metrics_collector) \<Rightarrow> lane \<Rightarrow> lane" where
  "on_metrics f l = l\<lparr>l_metrics := f (l_metrics l)\<rparr>"

definition put_conn :: "conn_id \<Rightarrow> conn_state \<Rightarrow> lane \<Rightarrow> lane" where
  "put_conn cid conn l = l\<lparr>l_slab := slab_put (l_slab l) cid conn\<rparr>"

text \<open>\<open>if queue.push(id).is_ok() { metrics.inc_queue_len(name) }\<close>\<close>

definition push_out :: "str \<Rightarrow> conn_id \<Rightarrow> lane \<Rightarrow> lane \<times> (unit, unit) result" where
  "push_out name cid l =
     (case ring_push (l_out l) cid of
        (q, Inr _) \<Rightarrow> (on_metrics (inc_queue_len name) (l\<lparr>l_out := q\<rparr>), Inr ())
      | (q, Inl (Error _)) \<Rightarrow> (l\<lparr>l_out := q\<rparr>, Inr ())
      | (q, Inl Panic) \<Rightarrow> (l\<lparr>l_out := q\<rparr>, Inl Panic))"

definition push_back :: "str \<Rightarrow> conn_id \<Rightarrow> lane \<Rightarrow> lane \<times> (unit, unit) result" where
  "push_back name cid l =
     (case ring_push (l_in l) cid of
        (q, Inr _) \<Rightarrow> (on_metrics (inc_queue_len name) (l\<lparr>l_in := q\<rparr>), Inr ())
      | (q, Inl (Error _)) \<Rightarrow> (l\<lparr>l_in := q\<rparr>, Inr ())
      | (q, Inl Panic) \<Rightarrow> (l\<lparr>l_in := q\<rparr>, Inl Panic))"

text \<open>\<open>for _ in 0..n\<close>: pop and handle, until the queue is empty.\<close>

fun stage_loop :: "nat \<Rightarrow> (conn_id \<Rightarrow> lane \<Rightarrow> lane \<times> (unit, unit) result) \<Rightarrow> lane \<Rightarrow> lane \<times> (unit, unit) result" where
  "stage_loop 0 handle l = (l, Inr ())"
| "stage_loop (Suc n) handle l =
     (case ring_pop (l_in l) of
        (q, Inl e) \<Rightarrow> (l\<lparr>l_in := q\<rparr>, Inl e)
      | (q, Inr None) \<Rightarrow> (l\<lparr>l_in := q\<rparr>, Inr ())
      | (q, Inr (Some cid)) \<Rightarrow>
          (case handle cid (l\<lparr>l_in := q\<rparr>) of
             (l', Inl e) \<Rightarrow> (l', Inl e)
           | (l', Inr _) \<Rightarrow> stage_loop n handle l'))"

section \<open>The stages\<close>

fun net_in_loop :: "instant \<Rightarrow> tcp_stream list \<Rightarrow> lane \<Rightarrow> lane \<times> (unit, unit) result" where
  "net_in_loop now [] l = (l, Inr ())"
| "net_in_loop now (s # ss) l =
     (case slab_insert (l_slab l) (conn_new now s) of
        (slab, Inl e) \<Rightarrow> (l\<lparr>l_slab := slab\<rparr>, Inl e)
      | (slab, Inr None) \<Rightarrow> net_in_loop now ss (l\<lparr>l_slab := slab\<rparr>)
      | (slab, Inr (Some cid)) \<Rightarrow>
          (case push_out (lit ''parse'') cid (on_metrics inc_total_conns (l\<lparr>l_slab := slab\<rparr>)) of
             (l', Inl e) \<Rightarrow> (l', Inl e)
           | (l', Inr _) \<Rightarrow> net_in_loop now ss l'))"

definition net_in_stage ::
    "instant \<Rightarrow> (io_error + tcp_stream) list \<Rightarrow> lane
       \<Rightarrow> (io_error + tcp_stream) list \<times> lane \<times> (unit, unit) result" where
  "net_in_stage now listener l =
     (case accept_all listener of (listener', streams) \<Rightarrow> (listener', net_in_loop now streams l))"

definition parse_handle :: "stage_env \<Rightarrow> conn_id \<Rightarrow> lane \<Rightarrow> lane \<times> (unit, unit) result" where
  "parse_handle env cid l =
     (let l = on_metrics (dec_queue_len (lit ''parse'')) l in
      case slab_get (l_slab l) cid of
        None \<Rightarrow> (l, Inr ())
      | Some conn \<Rightarrow>
          let conn = read_into conn in
          (case http_parse (unicode_lower env) (read_buf conn) of
             Inr (request, _) \<Rightarrow>
               let conn = conn\<lparr>request_method := Some (rq_method request),
                     request_path := Some (rq_path request),
                     lifecycle := Routed, read_buf := []\<rparr>
               in push_out (lit ''route'') cid (put_conn cid conn l)
           | Inl (Error Incomplete) \<Rightarrow> push_back (lit ''parse'') cid (put_conn cid conn l)
           | Inl (Error (Invalid _)) \<Rightarrow>
               (on_metrics (on_stage (lit ''parse'') inc_errors)
                 (put_conn cid (conn\<lparr>lifecycle := LcClosed\<rparr>) l), Inr ())
           | Inl Panic \<Rightarrow> (put_conn cid conn l, Inl Panic)))"

definition parse_stage :: "stage_env \<Rightarrow> lane \<Rightarrow> lane \<times> (unit, unit) result" where
  "parse_stage env l = stage_loop 100 (parse_handle env) l"

definition route_handle :: "conn_id \<Rightarrow> lane \<Rightarrow> lane \<times> (unit, unit) result" where
  "route_handle cid l =
     (let l = on_metrics (dec_queue_len (lit ''route'')) l in
      case slab_get (l_slab l) cid of
        None \<Rightarrow> (l, Inr ())
      | Some conn \<Rightarrow>
          let conn = conn\<lparr>route := Some (route_of (request_path conn)), lifecycle := Processing\<rparr>
          in push_out (lit ''app'') cid (put_conn cid conn l))"

definition route_stage :: "lane \<Rightarrow> lane \<times> (unit, unit) result" where
  "route_stage l = stage_loop 100 route_handle l"

definition app_handle :: "stage_env \<Rightarrow> conn_id \<Rightarrow> lane \<Rightarrow> lane \<times> (unit, unit) result" where
  "app_handle env cid l =
     (let l = on_metrics (dec_queue_len (lit ''app'')) l in
      case slab_get (l_slab l) cid of
        None \<Rightarrow> (l, Inr ())
      | Some conn \<Rightarrow>
          let conn = (run_handler env conn)\<lparr>lifecycle := Sending\<rparr>
          in push_out (lit ''net_out'') cid (on_metrics inc_total_requests (put_conn cid conn l)))"

definition app_stage :: "stage_env \<Rightarrow> lane \<Rightarrow> lane \<times> (unit, unit) result" where
  "app_stage env l = stage_loop 100 (app_handle env) l"

text \<open>The result of the push is ignored and no metric is kept.\<close>

definition encode_handle :: "conn_id \<Rightarrow> lane \<Rightarrow> lane \<times> (unit, unit) result" where
  "encode_handle cid l =
     (case ring_push (l_out l) cid of
        (q, Inl Panic) \<Rightarrow> (l\<lparr>l_out := q\<rparr>, Inl Panic)
      | (q, _) \<Rightarrow> (l\<lparr>l_out := q\<rparr>, Inr ()))"

definition encode_stage :: "lane \<Rightarrow> lane \<times> (unit, unit) result" where
  "encode_stage l = stage_loop 100 encode_handle l"

definition remove_from :: "conn_id \<Rightarrow> lane \<Rightarrow> lane \<times> (unit, unit) result" where
  "remove_from cid l =
     (case slab_remove (l_slab l) cid of (slab, r) \<Rightarrow> (l\<lparr>l_slab := slab\<rparr>, r))"

definition net_out_handle :: "conn_id \<Rightarrow> lane \<Rightarrow> lane \<times> (unit, unit) result" where
  "net_out_handle cid l =
     (let l = on_metrics (dec_queue_len (lit ''net_out'')) l in
      case slab_get (l_slab l) cid of
        None \<Rightarrow> (l, Inr ())
      | Some conn \<Rightarrow>
          (case stream conn of
             None \<Rightarrow> remove_from cid l
           | Some s \<Rightarrow>
               (case write_all s (write_buf conn) (bytes_written conn) of
                  (s', Inr written) \<Rightarrow>
                    let conn = conn\<lparr>stream := Some s', bytes_written := bytes_written conn + written\<rparr> in
                    if length (write_buf conn) \<le> bytes_written conn then
                      remove_from cid (on_metrics dec_total_conns
                        (put_conn cid (conn\<lparr>lifecycle := LcClosed\<rparr>) l))
                    else push_back (lit ''net_out'') cid (put_conn cid conn l)
                | (s', Inl (Error _)) \<Rightarrow>
                    remove_from cid (on_metrics (on_stage (lit ''net_out'') inc_errors \<circ> dec_total_conns)
                      (put_conn cid (conn\<lparr>stream := Some s', lifecycle := LcClosed\<rparr>) l))
                | (s', Inl Panic) \<Rightarrow> (put_conn cid (conn\<lparr>stream := Some s'\<rparr>) l, Inl Panic))))"

definition net_out_stage :: "lane \<Rightarrow> lane \<times> (unit, unit) result" where
  "net_out_stage l = stage_loop 100 net_out_handle l"

section \<open>Unfinished connections return to the queue\<close>

text \<open>
  A connection just popped fits back: the queue has a place for what was taken from it.
\<close>

lemma pop_then_push:
  assumes "ring_inv q" and "ring_contents q = cid # cids" and "ring_pop q = (q1, r)"
  shows "r = Inr (Some cid) \<and> (\<exists>q2. ring_push q1 cid = (q2, Inr ()) \<and> ring_inv q2 \<and> ring_contents q2 = cids @ [cid])"
proof -
  from rq.pop_some [OF assms(1,2)] assms(3) have
    q1: "r = Inr (Some cid)" "ring_inv q1" "ring_contents q1 = cids" "ring_room q1 = ring_room q" by auto
  have "cid = ConnId (conn_index cid)" "conn_index cid \<in> set (ring_words q)"
    using assms(2) unfolding ring_contents_def by auto
  then have "id_ok cid" using assms(1) unfolding ring_inv_def id_ok_def by metis
  moreover have "length (ring_contents q1) < ring_room q1"
    using rq.bounded [OF assms(1)] assms(2) q1(3,4) by simp
  ultimately show ?thesis using rq.push_room [OF q1(2)] q1(1,3) by fastforce
qed

text \<open>
  The bytes on the wire are the first \<open>bytes_written\<close> bytes of the response, whatever the
  socket accepted in each round.
\<close>

definition sent_prefix :: "bytes \<Rightarrow> conn_state \<Rightarrow> bool" where
  "sent_prefix before conn \<longleftrightarrow> (\<exists>s. stream conn = Some s
     \<and> wire s = before @ take (bytes_written conn) (write_buf conn)
     \<and> bytes_written conn \<le> length (write_buf conn))"

lemma sent_prefix_write:
  assumes "sent_prefix before conn" and "stream conn = Some s"
    and "write_all s (write_buf conn) (bytes_written conn) = (s', Inr n)"
  shows "sent_prefix before (conn\<lparr>stream := Some s', bytes_written := bytes_written conn + n\<rparr>)"
proof -
  from write_all_wire [OF assms(3)] assms(1) have
    "wire s' = wire s @ take n (drop (bytes_written conn) (write_buf conn))"
    "bytes_written conn + n \<le> length (write_buf conn)"
    by (auto simp: sent_prefix_def)
  with assms(1,2) show ?thesis by (auto simp: sent_prefix_def take_add)
qed

section \<open>Properties\<close>

text \<open>
  The single-threaded parse stage waits for the rest of a request. When the first connection
  of the queue has sent only part of a request, handling it keeps the bytes received and puts
  the connection at the end of the same queue, which always has room for it: no request is lost
  because it arrives in pieces.
\<close>

lemma parse_stage_retries:
  assumes "ring_inv (l_in l)" and "ring_contents (l_in l) = cid # cids"
    and "slab_get (l_slab l) cid = Some c"
    and "http_parse (unicode_lower env) (read_buf (read_into c)) = Inl (Error Incomplete)"
  shows "\<exists>l'. stage_loop (Suc n) (parse_handle env) l = stage_loop n (parse_handle env) l'
    \<and> ring_inv (l_in l') \<and> ring_contents (l_in l') = cids @ [cid] \<and> l_out l' = l_out l
    \<and> slab_get (l_slab l') cid = Some (read_into c)"
proof -
  obtain q1 r where pop: "ring_pop (l_in l) = (q1, r)" by (cases "ring_pop (l_in l)")
  from pop_then_push [OF assms(1,2) this] obtain q2 where
    q: "r = Inr (Some cid)" "ring_push q1 cid = (q2, Inr ())" "ring_inv q2" "ring_contents q2 = cids @ [cid]"
    by blast
  let ?l = "on_metrics (inc_queue_len (lit ''parse'') \<circ> dec_queue_len (lit ''parse''))
    (l\<lparr>l_in := q2, l_slab := slab_put (l_slab l) cid (read_into c)\<rparr>)"
  have "parse_handle env cid (l\<lparr>l_in := q1\<rparr>) = (?l, Inr ())"
    using assms(3,4) q(2) by (simp add: parse_handle_def push_back_def put_conn_def on_metrics_def Let_def)
  with pop q assms(3) show ?thesis
    by (intro exI [of _ ?l]) (simp add: on_metrics_def slab_get_put)
qed

theorem parse_stage_retries_witness:
  "\<exists>l'. stage_loop (Suc 3) (parse_handle \<lparr> landing_page = [], header_order = id, unicode_lower = id \<rparr>)
      \<lparr> l_slab = \<lparr> slots = [Some (conn_new 0 \<lparr> rx = [], tx = [], wire = [] \<rparr>)], free_list = [], slab_capacity = 1 \<rparr>,
        l_metrics = metrics_new, l_in = \<lparr> buffer = [0, 7], capacity = 2, head = 0, tail = 1 \<rparr>, l_out = ring_new 2 \<rparr>
    = stage_loop 3 (parse_handle \<lparr> landing_page = [], header_order = id, unicode_lower = id \<rparr>) l'
    \<and> ring_contents (l_in l') = [ConnId 0]"
proof -
  let ?env = "\<lparr> landing_page = [], header_order = id, unicode_lower = id \<rparr>"
  let ?c = "conn_new 0 \<lparr> rx = [], tx = [], wire = [] \<rparr>"
  let ?l = "\<lparr> l_slab = \<lparr> slots = [Some ?c], free_list = [], slab_capacity = 1 \<rparr>,
    l_metrics = metrics_new, l_in = \<lparr> buffer = [0, 7], capacity = 2, head = 0, tail = 1 \<rparr>, l_out = ring_new 2 \<rparr>"
  have "ring_words (l_in ?l) = [0]" by (simp add: ring_words_def ring_len_def)
  then have q: "ring_inv (l_in ?l)" "ring_contents (l_in ?l) = [ConnId 0]"
    by (simp_all add: ring_inv_def ring_wf_def ring_contents_def USIZE_MAX_def)
  have get: "slab_get (l_slab ?l) (ConnId 0) = Some ?c" by (simp add: slab_get_def)
  have "read_buf (read_into ?c) = []"
    using read_all_available [of "\<lparr> rx = [], tx = [], wire = [] \<rparr>" "[]"]
    by (auto simp: read_into_def conn_new_def split: prod.split)
  then have "http_parse (unicode_lower ?env) (read_buf (read_into ?c)) = Inl (Error Incomplete)"
    by (simp add: http_parse_def)
  from parse_stage_retries [OF q get this, of 3] show ?thesis by auto
qed

text \<open>
  C31: The single-threaded output stage sends every byte once. Suppose the bytes already written
  are those on the wire. If the socket takes only part of the rest, the connection returns to
  its queue with the same relation, so the next round continues where this one stopped; if it
  takes all, the connection is removed and its slot freed.
\<close>

theorem net_out_stage_resumes:
  assumes "slab_wf (l_slab l)" and "ring_inv (l_in l)" and "ring_contents (l_in l) = cid # cids"
    and "slab_get (l_slab l) cid = Some c" and "sent_prefix before c" and "stream c = Some s"
    and "write_all s (write_buf c) (bytes_written c) = (s', Inr n)"
  shows "\<exists>l'. stage_loop (Suc k) net_out_handle l = stage_loop k net_out_handle l'
    \<and> ring_inv (l_in l')
    \<and> (if bytes_written c + n < length (write_buf c)
       then ring_contents (l_in l') = cids @ [cid]
         \<and> (\<exists>c'. slab_get (l_slab l') cid = Some c' \<and> sent_prefix before c' \<and> write_buf c' = write_buf c)
       else ring_contents (l_in l') = cids \<and> slab_get (l_slab l') cid = None
         \<and> wire s' = before @ write_buf c)"
proof -
  obtain q1 r where pop: "ring_pop (l_in l) = (q1, r)" by (cases "ring_pop (l_in l)")
  from pop_then_push [OF assms(2,3) this] obtain q2 where
    q: "r = Inr (Some cid)" "ring_push q1 cid = (q2, Inr ())" "ring_inv q2" "ring_contents q2 = cids @ [cid]"
    by blast
  from rq.pop_some [OF assms(2,3)] pop have q1: "ring_inv q1" "ring_contents q1 = cids" by auto
  let ?c = "c\<lparr>stream := Some s', bytes_written := bytes_written c + n\<rparr>"
  note pre = sent_prefix_write [OF assms(5-7)]
  show ?thesis
  proof (cases "bytes_written c + n < length (write_buf c)")
    case True
    let ?l = "on_metrics (inc_queue_len (lit ''net_out'') \<circ> dec_queue_len (lit ''net_out''))
      (l\<lparr>l_in := q2, l_slab := slab_put (l_slab l) cid ?c\<rparr>)"
    have "net_out_handle cid (l\<lparr>l_in := q1\<rparr>) = (?l, Inr ())"
      using assms(4,6,7) q(2) True
      by (simp add: net_out_handle_def push_back_def put_conn_def on_metrics_def Let_def)
    with pop q assms(4) pre True show ?thesis
      by (intro exI [of _ ?l]) (simp add: on_metrics_def slab_get_put)
  next
    case False
    let ?d = "?c\<lparr>lifecycle := LcClosed\<rparr>"
    from slab_put_contract [where c' = ?d, OF assms(1,4)] have
      p: "slab_wf (slab_put (l_slab l) cid ?d)" "slab_get (slab_put (l_slab l) cid ?d) cid = Some ?d"
      by simp_all
    from cs.remove_live [OF p] obtain slab' where
      rem: "slab_remove (slab_put (l_slab l) cid ?d) cid = (slab', Inr ())" "slab_get slab' cid = None"
      by auto
    let ?l = "on_metrics (dec_total_conns \<circ> dec_queue_len (lit ''net_out'')) (l\<lparr>l_in := q1, l_slab := slab'\<rparr>)"
    have "net_out_handle cid (l\<lparr>l_in := q1\<rparr>) = (?l, Inr ())"
      using assms(4,6,7) False rem(1)
      by (simp add: net_out_handle_def remove_from_def put_conn_def on_metrics_def Let_def)
    moreover have "wire s' = before @ write_buf c"
      using pre False by (simp add: sent_prefix_def)
    ultimately show ?thesis
      using pop q(1) q1 rem(2) False by (intro exI [of _ ?l]) (simp add: on_metrics_def)
  qed
qed

theorem net_out_stage_resumes_witness:
  "let c = conn_new 0 \<lparr> rx = [], tx = [WriteOk 2], wire = [] \<rparr> \<lparr>write_buf := [1, 2, 3]\<rparr>;
       l = \<lparr> l_slab = \<lparr> slots = [Some c], free_list = [], slab_capacity = 1 \<rparr>, l_metrics = metrics_new,
             l_in = \<lparr> buffer = [0, 7], capacity = 2, head = 0, tail = 1 \<rparr>, l_out = ring_new 2 \<rparr>
   in \<exists>l'. stage_loop (Suc 3) net_out_handle l = stage_loop 3 net_out_handle l'
        \<and> ring_contents (l_in l') = [ConnId 0]"
proof -
  let ?s = "\<lparr> rx = [], tx = [WriteOk 2], wire = [] \<rparr>"
  let ?c = "conn_new 0 ?s \<lparr>write_buf := [1, 2, 3]\<rparr>"
  let ?l = "\<lparr> l_slab = \<lparr> slots = [Some ?c], free_list = [], slab_capacity = 1 \<rparr>,
    l_metrics = metrics_new, l_in = \<lparr> buffer = [0, 7], capacity = 2, head = 0, tail = 1 \<rparr>, l_out = ring_new 2 \<rparr>"
  have "ring_words (l_in ?l) = [0]" by (simp add: ring_words_def ring_len_def)
  then have q: "ring_inv (l_in ?l)" "ring_contents (l_in ?l) = [ConnId 0]"
    by (simp_all add: ring_inv_def ring_wf_def ring_contents_def USIZE_MAX_def)
  have wf: "slab_wf (l_slab ?l)" by (auto simp: slab_wf_def)
  have get: "slab_get (l_slab ?l) (ConnId 0) = Some ?c" by (simp add: slab_get_def)
  have pre: "sent_prefix [] ?c" and st: "stream ?c = Some ?s" by (simp_all add: sent_prefix_def conn_new_def)
  have "write_all ?s (write_buf ?c) (bytes_written ?c) = (\<lparr> rx = [], tx = [], wire = [1, 2] \<rparr>, Inr 2)"
    by (simp add: write_all_def slice_def write_all_from.simps [of ?s] stream_write_def conn_new_def Let_def
        write_all_from.simps [of "\<lparr> rx = [], tx = [], wire = [1, 2] \<rparr>"])
  from net_out_stage_resumes [OF wf q get pre st this, of 3] show ?thesis
    unfolding Let_def by (auto simp: conn_new_def)
qed

end
