(* ===== verification/Stage_Relations.thy ===== *)
theory Stage_Relations
  imports Pipeline Single_Stages
begin

text \<open>
  How the two families of stages relate, and what the connection gauge means. A single-threaded
  stage does to a connection what the multi-core stage of the same name does, then queues it;
  they differ exactly where the single-threaded one keeps an unfinished connection. And in every
  reachable state of the pipeline the gauge of the metrics counts the occupied slots of the slab.
\<close>

section \<open>Single-threaded and multi-core stages\<close>

text \<open>
  \<open>process_one\<close> as a single-threaded stage would use it: the gauge of its own queue is decreased
  first, and a connection that is passed on goes to the output queue.
\<close>

definition lift_one :: "str \<Rightarrow> str \<Rightarrow> process_one \<Rightarrow> conn_id \<Rightarrow> lane \<Rightarrow> lane \<times> (unit, unit) result" where
  "lift_one name next f cid l =
     (case f cid (l_slab l) (dec_queue_len name (l_metrics l)) of
        ((slab', m'), r) \<Rightarrow>
          let l' = l\<lparr>l_slab := slab', l_metrics := m'\<rparr>
          in case r of
               Inr (Some j) \<Rightarrow> push_out next j l'
             | Inr None \<Rightarrow> (l', Inr ())
             | Inl _ \<Rightarrow> (l', Inl Panic))"

definition request_incomplete :: "stage_env \<Rightarrow> conn_id \<Rightarrow> lane \<Rightarrow> bool" where
  "request_incomplete env cid l =
     (case slab_get (l_slab l) cid of
        None \<Rightarrow> False
      | Some c \<Rightarrow> http_parse (unicode_lower env) (read_buf (read_into c)) = Inl (Error Incomplete))"

definition write_incomplete :: "conn_id \<Rightarrow> lane \<Rightarrow> bool" where
  "write_incomplete cid l =
     (case slab_get (l_slab l) cid of
        None \<Rightarrow> False
      | Some c \<Rightarrow> (case stream c of
            None \<Rightarrow> False
          | Some s \<Rightarrow> (case write_all s (write_buf c) (bytes_written c) of
                (s', Inr n) \<Rightarrow> bytes_written c + n < length (write_buf c)
              | _ \<Rightarrow> False)))"

definition stream_closed :: "conn_id \<Rightarrow> lane \<Rightarrow> bool" where
  "stream_closed cid l =
     (case slab_get (l_slab l) cid of None \<Rightarrow> False | Some c \<Rightarrow> stream c = None)"

lemma lane_update_swap: "l_slab_update f (l_metrics_update g l) = l_metrics_update g (l_slab_update f l)"
  by (cases l) simp

lemmas lift_simps = lift_one_def on_metrics_def put_conn_def Let_def lane_update_swap

lemma route_handle_lift: "route_handle cid l = lift_one (lit ''route'') (lit ''app'') route_one cid l"
  by (simp add: route_handle_def route_one_def lift_simps split: option.split)

lemma app_handle_lift: "app_handle env cid l = lift_one (lit ''app'') (lit ''net_out'') (app_one env) cid l"
  by (simp add: app_handle_def app_one_def lift_simps split: option.split)

lemma parse_handle_lift:
  "parse_handle env cid l =
     (if request_incomplete env cid l
      then push_back (lit ''parse'') cid (fst (lift_one (lit ''parse'') (lit ''route'') (parse_one env) cid l))
      else lift_one (lit ''parse'') (lit ''route'') (parse_one env) cid l)"
  by (simp add: parse_handle_def parse_one_def request_incomplete_def lift_simps
      split: option.split sum.split fault.split parse_error.split prod.split)

lemma slab_remove_faults: "slab_remove slab cid = (slab', Inl e) \<Longrightarrow> e = Panic"
  by (auto simp: slab_remove_def split: if_splits)

lemma net_out_handle_lift:
  "\<not> stream_closed cid l \<Longrightarrow> net_out_handle cid l =
     (if write_incomplete cid l
      then push_back (lit ''net_out'') cid (fst (lift_one (lit ''net_out'') [] net_out_one cid l))
      else lift_one (lit ''net_out'') [] net_out_one cid l)"
  by (auto simp: net_out_handle_def net_out_one_def write_incomplete_def
      stream_closed_def remove_from_def remove_conn_def lift_simps
      dest: slab_remove_faults split: option.split sum.split fault.split prod.split)

lemma net_out_handle_closed:
  "stream_closed cid l \<Longrightarrow> net_out_handle cid l = remove_from cid (on_metrics (dec_queue_len (lit ''net_out'')) l)"
  by (auto simp: net_out_handle_def stream_closed_def on_metrics_def Let_def split: option.splits)

section \<open>The connection gauge\<close>

text \<open>The gauge and the free slots add up to the capacity, modulo \<open>2 ^ 64\<close>.\<close>

definition gauge_ok :: "conn_slab \<Rightarrow> metrics_collector \<Rightarrow> bool" where
  "gauge_ok slab m \<longleftrightarrow> total_conns m + of_nat (vacant_count slab) = of_nat (slab_capacity slab)"

lemma total_conns_simps [simp]:
  "total_conns (on_stage name f m) = total_conns m" "total_conns (inc_queue_len name m) = total_conns m"
  "total_conns (inc_total_requests m) = total_conns m"
  "total_conns (inc_total_conns m) = total_conns m + 1" "total_conns (dec_total_conns m) = total_conns m - 1"
  by (simp_all add: on_stage_def inc_queue_len_def inc_total_requests_def inc_total_conns_def dec_total_conns_def)

lemma vacant_put [simp]: "vacant_count (slab_put slab cid c) = vacant_count slab"
  by (simp add: vacant_count_def)

lemma gauge_put [simp]: "gauge_ok (slab_put slab cid c) m = gauge_ok slab m"
  by (simp add: gauge_ok_def)

lemma gauge_other [simp]:
  "gauge_ok slab (on_stage name f m) = gauge_ok slab m" "gauge_ok slab (inc_queue_len name m) = gauge_ok slab m"
  "gauge_ok slab (inc_total_requests m) = gauge_ok slab m"
  by (simp_all add: gauge_ok_def)

lemma gauge_remove:
  assumes "slab_wf slab" and "slab_get slab cid = Some c" and "gauge_ok slab m"
    and "remove_conn cid slab m' = ((slab', m''), r)" and "total_conns m' = total_conns m - 1"
  shows "gauge_ok slab' m''"
proof -
  from cs.remove_live [OF assms(1,2)] obtain slab1 where
    "slab_remove slab cid = (slab1, Inr ())" "vacant_count slab1 = vacant_count slab + 1" by blast
  moreover from this have "slab_capacity slab1 = slab_capacity slab" by (auto simp: slab_remove_def split: if_splits)
  ultimately show ?thesis using assms(3-5) by (auto simp: remove_conn_def gauge_ok_def)
qed

lemma gauge_net_out:
  assumes "slab_wf slab" and "slab_get slab cid = Some c" and "gauge_ok slab m"
    and "net_out_one cid slab m = ((slab', m'), r)"
  shows "gauge_ok slab' m'"
proof -
  have rem: "gauge_ok slab' m'" if "remove_conn cid (slab_put slab cid c') m1 = ((slab', m'), r)"
    and "total_conns m1 = total_conns m - 1" for c' m1
    using gauge_remove [of "slab_put slab cid c'" cid c' m] that slab_put_contract [OF assms(1,2)] assms(3) by simp
  show ?thesis
  proof (cases "stream c")
    case None
    with assms show ?thesis by (simp add: net_out_one_def)
  next
    case (Some s)
    obtain s' w where w: "write_all s (write_buf c) (bytes_written c) = (s', w)"
      by (cases "write_all s (write_buf c) (bytes_written c)")
    show ?thesis
    proof (cases w)
      case (Inl f)
      with assms Some w rem show ?thesis by (cases f) (auto simp: net_out_one_def)
    next
      case (Inr n)
      with assms Some w rem show ?thesis by (auto simp: net_out_one_def Let_def split: if_splits)
    qed
  qed
qed

lemma gauge_stage:
  assumes "slab_wf slab" and "slab_get slab cid = Some c" and "gauge_ok slab m"
    and "stage_of env i cid slab m = ((slab', m'), r)"
  shows "gauge_ok slab' m'"
proof -
  have "parse_one env cid slab m = ((slab', m'), r) \<Longrightarrow> gauge_ok slab' m'"
    using assms(2,3) by (auto simp: parse_one_def Let_def split: sum.splits fault.splits parse_error.splits)
  moreover have "route_one cid slab m = ((slab', m'), r) \<Longrightarrow> gauge_ok slab' m'"
    using assms(2,3) by (auto simp: route_one_def Let_def)
  moreover have "app_one env cid slab m = ((slab', m'), r) \<Longrightarrow> gauge_ok slab' m'"
    using assms(2,3) by (auto simp: app_one_def Let_def)
  moreover have "encode_one cid slab m = ((slab', m'), r) \<Longrightarrow> gauge_ok slab' m'"
    using assms(3) by (auto simp: encode_one_def)
  ultimately show ?thesis
    using assms(4) gauge_net_out [OF assms(1-3)] by (auto simp: stage_of_def split: if_splits)
qed

lemma gauge_insert:
  assumes "slab_wf slab" and "gauge_ok slab m" and "slab_insert slab c = (slab', Inr (Some cid))"
  shows "gauge_ok slab' (inc_total_conns m)"
proof -
  have vac: "0 < vacant_count slab"
    using assms(3) by (auto simp: slab_insert_def vacant_count_def Let_def split: if_splits)
  from cs.insert_fresh [OF assms(1) vac, of c] assms(3) have suc: "vacant_count slab = Suc (vacant_count slab')"
    using vac by auto
  have "slab_capacity slab' = slab_capacity slab"
    using assms(3) by (auto simp: slab_insert_def Let_def split: if_splits)
  then show ?thesis using assms(2) by (simp add: gauge_ok_def suc algebra_simps)
qed

lemma gauge_step:
  assumes inv: "pipeline_inv n p" and step: "pipeline_step env p p'" and "gauge_ok (p_slab p) (p_metrics p)"
  shows "gauge_ok (p_slab p') (p_metrics p')"
  using step
proof cases
  case (accept now s slab' cid)
  with gauge_insert [OF pipeline_invD(1) [OF inv] assms(3)] show ?thesis by simp
next
  case (accept_full now s slab')
  have "\<not> 0 < vacant_count (p_slab p)"
    using cs.insert_fresh [OF pipeline_invD(1) [OF inv], of "conn_new now s"] accept_full by auto
  with cs.insert_full [OF pipeline_invD(1) [OF inv], of "conn_new now s"] accept_full assms(3) show ?thesis by simp
next
  case (process i cid slab' m' r)
  then have "live p cid" using pipeline_invD(7) [OF inv, of cid "AtExec i"] by simp
  then obtain c where "slab_get (p_slab p) cid = Some c" by (auto simp: live_def)
  from gauge_stage [OF pipeline_invD(1) [OF inv] this assms(3)] process show ?thesis by simp
qed (use assms(3) in simp_all)

lemma gauge_reachable:
  assumes "(pipeline_step env)\<^sup>*\<^sup>* (pipeline_init scap qcap) p" and "scap < 2 ^ 64" and "0 < qcap"
  shows "gauge_ok (p_slab p) (p_metrics p)"
  using assms(1)
proof (induction rule: rtranclp_induct)
  case base
  have "total_conns metrics_new = 0" by (simp only: metrics_new_def metrics_collector.simps)
  then show ?case by (simp add: gauge_ok_def pipeline_init_def slab_new_def vacant_count_def Let_def)
next
  case (step y z)
  with pipeline_inv_reachable [OF step.hyps(1) assms(2,3)] show ?case by (blast intro: gauge_step)
qed

lemma live_slots:
  assumes "slab_wf slab"
  shows "card {cid. slab_get slab cid \<noteq> None} + vacant_count slab = slab_capacity slab"
proof -
  let ?free = "set (free_list slab)" and ?n = "slab_capacity slab"
  have free: "?free = {i. i < ?n \<and> slots slab ! i = None}" and dist: "distinct (free_list slab)"
    and len: "length (slots slab) = ?n" using assms by (simp_all add: slab_wf_def)
  have sub: "?free \<subseteq> {..<?n}" using free by blast
  have "{cid. slab_get slab cid \<noteq> None} = ConnId ` ({..<?n} - ?free)" (is "?A = ?B")
  proof
    show "?A \<subseteq> ?B"
    proof
      fix cid assume "cid \<in> ?A"
      then have "conn_index cid \<in> {..<?n} - ?free" using free len by (auto simp: slab_get_def split: if_splits)
      then show "cid \<in> ?B" by (metis conn_id.collapse image_eqI)
    qed
    show "?B \<subseteq> ?A"
    proof
      fix cid assume "cid \<in> ?B"
      then obtain i where "cid = ConnId i" "i < ?n" "i \<notin> ?free" by blast
      with free len show "cid \<in> ?A" by (simp add: slab_get_def)
    qed
  qed
  then have "card ?A = card ({..<?n} - ?free)" by (simp add: card_image inj_on_def)
  also have "\<dots> = ?n - length (free_list slab)"
    using sub by (simp add: card_Diff_subset distinct_card [OF dist])
  finally have "card ?A = ?n - length (free_list slab)" .
  moreover have "length (free_list slab) \<le> ?n"
    using card_mono [OF _ sub] by (simp add: distinct_card [OF dist])
  ultimately show ?thesis by (simp add: vacant_count_def)
qed

section \<open>The gauge of the parse queue\<close>

text \<open>
  The main thread increases the gauge of the parse queue for every connection it queues; the
  multi-core parse stage never decreases it, so it does not count the queue.
\<close>

definition parse_gauge :: "metrics_collector \<Rightarrow> u64 option" where
  "parse_gauge m = map_option current_queue_len (stage (lit ''parse'') m)"

lemma parse_gauge_simps [simp]:
  "parse_gauge (on_stage name inc_errors m) = parse_gauge m" "parse_gauge (inc_total_requests m) = parse_gauge m"
  "parse_gauge (inc_total_conns m) = parse_gauge m" "parse_gauge (dec_total_conns m) = parse_gauge m"
  "parse_gauge (inc_queue_len (lit ''parse'') m) = map_option (\<lambda>n. n + 1) (parse_gauge m)"
  by (simp_all add: parse_gauge_def stage_def on_stage_def inc_errors_def inc_total_requests_def inc_total_conns_def
      dec_total_conns_def inc_queue_len_def stage_inc_queue_len_def hm_get_modify option.map_comp comp_def)

lemma parse_gauge_stage:
  assumes "stage_of env i cid slab m = ((slab', m'), r)"
  shows "parse_gauge m' = parse_gauge m"
proof -
  have rem: "remove_conn cid s1 m1 = ((slab', m'), r) \<Longrightarrow> m' = m1" for s1 m1
    by (auto simp: remove_conn_def split: prod.splits sum.splits)
  show ?thesis
    using assms
    by (auto simp: stage_of_def parse_one_def route_one_def app_one_def encode_one_def net_out_one_def Let_def
        dest!: rem split: if_splits option.splits sum.splits fault.splits parse_error.splits prod.splits)
qed

lemma parse_gauge_never_falls:
  assumes "pipeline_step env p p'"
  shows "parse_gauge (p_metrics p') = parse_gauge (p_metrics p)
    \<or> p_main p \<noteq> MIdle \<and> p_main p' = MIdle
      \<and> parse_gauge (p_metrics p') = map_option (\<lambda>n. n + 1) (parse_gauge (p_metrics p))"
  using assms by cases (auto dest: parse_gauge_stage)

section \<open>Properties\<close>

text \<open>
  C25: The two families of stages agree. Handling a connection in a single-threaded stage is
  \<open>process_one\<close> of the multi-core stage of the same name, followed by the push to the next
  queue, with three exceptions: an incomplete request goes back to the parse queue, a response
  that is not fully written goes back to the output queue, and a connection without a stream is
  removed.
\<close>

theorem stages_agree:
  "route_handle cid l = lift_one (lit ''route'') (lit ''app'') route_one cid l
   \<and> app_handle env cid l = lift_one (lit ''app'') (lit ''net_out'') (app_one env) cid l
   \<and> parse_handle env cid l =
      (if request_incomplete env cid l
       then push_back (lit ''parse'') cid (fst (lift_one (lit ''parse'') (lit ''route'') (parse_one env) cid l))
       else lift_one (lit ''parse'') (lit ''route'') (parse_one env) cid l)
   \<and> net_out_handle cid l =
      (if stream_closed cid l then remove_from cid (on_metrics (dec_queue_len (lit ''net_out'')) l)
       else if write_incomplete cid l
       then push_back (lit ''net_out'') cid (fst (lift_one (lit ''net_out'') [] net_out_one cid l))
       else lift_one (lit ''net_out'') [] net_out_one cid l)"
  using route_handle_lift app_handle_lift parse_handle_lift net_out_handle_lift net_out_handle_closed by auto

text \<open>
  C15: The gauge counts the connections. In every reachable state of the server, however its
  threads interleave and whatever the sockets do, \<open>total_conns\<close> is the number of occupied slots of
  the slab, and so is \<open>active_count\<close>.
\<close>

theorem gauge_counts_connections:
  assumes "(pipeline_step env)\<^sup>*\<^sup>* (pipeline_init scap qcap) p" and "scap < 2 ^ 64" and "0 < qcap"
  shows "unat (total_conns (p_metrics p)) = card {cid. live p cid}
    \<and> active_count (p_slab p) = card {cid. live p cid}"
proof -
  let ?c = "card {cid. live p cid}" and ?v = "vacant_count (p_slab p)"
  note inv = pipeline_inv_reachable [OF assms]
  have sum: "?c + ?v = scap"
    using live_slots [OF pipeline_invD(1) [OF inv]] pipeline_invD(2) [OF inv] by (simp add: live_def)
  have "total_conns (p_metrics p) = of_nat scap - of_nat ?v"
    using gauge_reachable [OF assms] pipeline_invD(2) [OF inv] by (simp add: gauge_ok_def eq_diff_eq)
  also have "\<dots> = of_nat ?c" using sum by (metis add_diff_cancel_right' of_nat_add)
  finally have "unat (total_conns (p_metrics p)) = ?c"
    using sum assms(2) by (simp add: unat_of_nat take_bit_nat_eq_self)
  moreover have "active_count (p_slab p) = ?c"
    using sum assms(2) pipeline_invD(2) [OF inv]
    by (simp add: active_count_def usize_sub_exact vacant_count_def [symmetric])
  ultimately show ?thesis by simp
qed

theorem gauge_counts_connections_witness:
  "\<exists>p. (pipeline_step \<lparr> landing_page = [], header_order = id, unicode_lower = id \<rparr>)\<^sup>*\<^sup>* (pipeline_init 1 2) p \<and> card {cid. live p cid} = 1"
proof -
  let ?env = "\<lparr> landing_page = [], header_order = id, unicode_lower = id \<rparr>"
  let ?s = "\<lparr> rx = [], tx = [], wire = [] \<rparr>"
  let ?slab = "\<lparr> slots = [Some (conn_new 0 ?s)], free_list = [], slab_capacity = 1 \<rparr>"
  let ?p = "(pipeline_init 1 2)\<lparr>p_slab := ?slab, p_metrics := inc_total_conns metrics_new, p_main := MPush (ConnId 0)\<rparr>"
  have m: "p_metrics (pipeline_init 1 2) = metrics_new" and idle: "p_main (pipeline_init 1 2) = MIdle"
    and slab: "p_slab (pipeline_init 1 2) = slab_new 1" by (simp_all add: pipeline_init_def)
  have "slab_insert (p_slab (pipeline_init 1 2)) (conn_new 0 ?s) = (?slab, Inr (Some (ConnId 0)))"
    unfolding slab by (simp add: slab_insert_def slab_new_def Let_def)
  from pipeline_step.accept [OF idle this, of ?env] have "pipeline_step ?env (pipeline_init 1 2) ?p"
    unfolding m .
  then have r: "(pipeline_step ?env)\<^sup>*\<^sup>* (pipeline_init 1 2) ?p" by (rule r_into_rtranclp)
  have "total_conns metrics_new = 0" by (simp only: metrics_new_def metrics_collector.simps)
  then have "card {cid. live ?p cid} = 1" using gauge_counts_connections [OF r] by simp
  with r show ?thesis by blast
qed

end
