(* ===== verification/Pipeline_Data.thy ===== *)
theory Pipeline_Data
  imports Stage_Relations
begin

text \<open>
  What the stages of \<open>ners-core/src/stage.rs\<close> hand to each other through the slab. The executors
  of \<open>executor.rs\<close> pass only identifiers; the data of a connection stay in its slot, and each
  stage trusts what the one before it has left there. The lemmas follow a connection from the
  socket it was accepted with to the bytes written to that socket, in every interleaving of the
  threads: a slot that is used again never carries data of the connection that had it before.
\<close>

section \<open>The socket a slot was filled with\<close>

text \<open>
  A run together with the socket each identifier was last accepted with. The second component is
  only a record of the run: it never influences a step.
\<close>

type_synonym tracked = "pipeline \<times> (conn_id \<rightharpoonup> tcp_stream)"

inductive tracked_step :: "stage_env \<Rightarrow> tracked \<Rightarrow> tracked \<Rightarrow> bool" for env where
  track_accept: "p_main p = MIdle \<Longrightarrow>
    slab_insert (p_slab p) (conn_new now s) = (slab', Inr (Some cid)) \<Longrightarrow>
    tracked_step env (p, g) (p\<lparr>p_slab := slab', p_metrics := inc_total_conns (p_metrics p),
      p_main := MPush cid\<rparr>, g(cid \<mapsto> s))"
| track_other: "pipeline_step env p p' \<Longrightarrow> p_main p' = MIdle \<or> p_main p' = p_main p \<Longrightarrow>
    tracked_step env (p, g) (p', g)"

lemma tracked_untracked: "tracked_step env (p, g) (p', g') \<Longrightarrow> pipeline_step env p p'"
  by (erule tracked_step.cases) (auto intro: accept)

lemma tracked_step_exists:
  assumes "pipeline_step env p p'"
  shows "\<exists>g'. tracked_step env (p, g) (p', g')"
  using assms
proof cases
  case (accept now s slab' cid)
  then show ?thesis using track_accept by blast
qed (use assms in \<open>auto intro!: exI [of _ g] track_other\<close>)

lemma tracked_run:
  "(tracked_step env)\<^sup>*\<^sup>* (p, g) (p', g') \<Longrightarrow> (pipeline_step env)\<^sup>*\<^sup>* p p'"
  by (induction rule: rtranclp_induct2) (auto intro: rtranclp.rtrancl_into_rtrancl dest: tracked_untracked)

text \<open>Every run can be tracked.\<close>

lemma run_tracked:
  "(pipeline_step env)\<^sup>*\<^sup>* p p' \<Longrightarrow> \<exists>g'. (tracked_step env)\<^sup>*\<^sup>* (p, g) (p', g')"
proof (induction rule: rtranclp_induct)
  case (step y z)
  then show ?case using tracked_step_exists by (meson rtranclp.rtrancl_into_rtrancl)
qed auto

section \<open>What a connection looks like between two stages\<close>

text \<open>
  \<open>conn_after env s0 k c\<close>: the state of a connection accepted with socket \<open>s0\<close> after its first
  \<open>k\<close> stages.
\<close>

definition parsed_path :: "stage_env \<Rightarrow> tcp_stream \<Rightarrow> str option" where
  "parsed_path env s0 =
     (case http_parse (unicode_lower env) (available (rx s0)) of
        Inr (request, _) \<Rightarrow> Some (rq_path request)
      | Inl _ \<Rightarrow> None)"

definition same_output :: "tcp_stream \<Rightarrow> conn_state \<Rightarrow> bool" where
  "same_output s0 c \<longleftrightarrow>
     (case stream c of None \<Rightarrow> False | Some s \<Rightarrow> tx s = tx s0 \<and> wire s = wire s0) \<and> bytes_written c = 0"

definition conn_after :: "stage_env \<Rightarrow> tcp_stream \<Rightarrow> nat \<Rightarrow> conn_state \<Rightarrow> bool" where
  "conn_after env s0 k c \<longleftrightarrow> same_output s0 c
     \<and> (if k = 0 then c = conn_new (created_at c) s0
        else parsed_path env s0 \<noteq> None \<and> request_path c = parsed_path env s0 \<and> read_buf c = []
          \<and> (if k = 1 then lifecycle c = Routed \<and> write_buf c = []
             else route c = Some (route_of (parsed_path env s0))
               \<and> (if k = 2 then lifecycle c = Processing \<and> write_buf c = []
                  else lifecycle c = Sending
                    \<and> write_buf c = to_bytes (header_order env) (response_for env (the (parsed_path env s0))))))"

text \<open>The stages a connection has behind it at a place.\<close>

definition stages_done :: "pipeline \<Rightarrow> place \<Rightarrow> nat" where
  "stages_done p l =
     (case l of
        AtMain \<Rightarrow> 0
      | AtQueue i \<Rightarrow> i
      | AtExec i \<Rightarrow> (case p_execs p i of EPush _ \<Rightarrow> i + 1 | _ \<Rightarrow> i))"

definition data_at :: "stage_env \<Rightarrow> tracked \<Rightarrow> conn_id \<Rightarrow> nat \<Rightarrow> bool" where
  "data_at env t cid k \<longleftrightarrow>
     (\<exists>c s0. slab_get (p_slab (fst t)) cid = Some c \<and> snd t cid = Some s0 \<and> conn_after env s0 k c)"

definition data_inv :: "stage_env \<Rightarrow> tracked \<Rightarrow> bool" where
  "data_inv env t \<longleftrightarrow> (\<forall>l. \<forall>cid \<in> set (ids_at (fst t) l). data_at env t cid (stages_done (fst t) l))"

lemma data_invD: "data_inv env (p, g) \<Longrightarrow> cid \<in> set (ids_at p l) \<Longrightarrow> data_at env (p, g) cid (stages_done p l)"
  by (auto simp: data_inv_def)

lemma data_at_cong:
  "slab_get (p_slab p') cid = slab_get (p_slab p) cid \<Longrightarrow> g' cid = g cid \<Longrightarrow>
   data_at env (p', g') cid k = data_at env (p, g) cid k"
  by (simp add: data_at_def)

lemma conn_after_new: "conn_after env s 0 (conn_new now s)"
  by (simp add: conn_after_def same_output_def conn_new_def)

lemma parsed_path_Some:
  "http_parse (unicode_lower env) (available (rx s0)) = Inr (request, n) \<Longrightarrow> parsed_path env s0 = Some (rq_path request)"
  by (simp add: parsed_path_def)

text \<open>What each stage passes on.\<close>

lemma parse_one_data:
  assumes "slab_get slab cid = Some c" and "conn_after env s0 0 c"
    and "parse_one env cid slab m = ((slab', m'), Inr (Some j))"
  shows "\<exists>c'. slab_get slab' cid = Some c' \<and> conn_after env s0 1 c'"
proof -
  obtain s' buf r where rd: "read_all s0 [] = (s', buf, r)" by (cases "read_all s0 []")
  from read_all_available [OF this] have s': "buf = available (rx s0)" "tx s' = tx s0" "wire s' = wire s0"
    by simp_all
  have c: "c = conn_new (created_at c) s0" using assms(2) by (simp add: conn_after_def)
  have "read_into c = c\<lparr>stream := Some s', read_buf := available (rx s0)\<rparr>"
    by (subst (1 2) c) (simp add: read_into_def rd s' conn_new_def)
  moreover have "bytes_written c = 0" "write_buf c = []" by (subst c, simp add: conn_new_def)+
  ultimately show ?thesis
    using assms(1,3) s'
    by (auto simp: parse_one_def Let_def slab_get_put conn_after_def same_output_def parsed_path_Some
        split: sum.splits fault.splits parse_error.splits)
qed

lemma route_one_data:
  assumes "slab_get slab cid = Some c" and "conn_after env s0 1 c"
    and "route_one cid slab m = ((slab', m'), Inr (Some j))"
  shows "\<exists>c'. slab_get slab' cid = Some c' \<and> conn_after env s0 2 c'"
  using assms by (auto simp: route_one_def Let_def slab_get_put conn_after_def same_output_def)

lemma app_one_data:
  assumes "slab_get slab cid = Some c" and "conn_after env s0 2 c"
    and "app_one env cid slab m = ((slab', m'), Inr (Some j))"
  shows "\<exists>c'. slab_get slab' cid = Some c' \<and> conn_after env s0 3 c'"
proof -
  from assms(2) obtain path where path: "parsed_path env s0 = Some path"
    by (auto simp: conn_after_def)
  then have "route c = Some (route_of (Some path))" using assms(2) by (simp add: conn_after_def)
  then have "run_handler env c = respond env (response_for env path) c"
    by (simp add: run_handler_def route_of_def response_for_def handle_hello_def handle_json_def
        handle_not_found_def)
  with assms path show ?thesis
    by (auto simp: app_one_def Let_def slab_get_put conn_after_def same_output_def respond_def)
qed

lemma stage_data:
  assumes "slab_get slab cid = Some c" and "conn_after env s0 i c" and "i < 4"
    and "stage_of env i cid slab m = ((slab', m'), Inr (Some j))"
  shows "\<exists>c'. slab_get slab' cid = Some c' \<and> conn_after env s0 (i + 1) c'"
proof -
  consider "i = 0" | "i = 1" | "i = 2" | "i = 3" using assms(3) by linarith
  then show ?thesis
  proof cases
    case 1 with assms parse_one_data show ?thesis by (simp add: stage_of_def)
  next
    case 2 with assms route_one_data [of slab cid c env s0] show ?thesis by (simp add: stage_of_def numeral_2_eq_2)
  next
    case 3 with assms app_one_data [of slab cid c env s0] show ?thesis by (simp add: stage_of_def)
  next
    case 4 with assms show ?thesis by (auto simp: stage_of_def encode_one_def conn_after_def)
  qed
qed

section \<open>Every step keeps the data\<close>

text \<open>
  A step that leaves the slab alone, when every identifier is afterwards where it was or at a
  place with as many stages behind it.
\<close>

lemma data_moved:
  assumes "data_inv env (p, g)" and "p_slab p' = p_slab p"
    and "\<And>l x. x \<in> set (ids_at p' l) \<Longrightarrow> \<exists>k. x \<in> set (ids_at p k) \<and> stages_done p k = stages_done p' l"
  shows "data_inv env (p', g)"
  unfolding data_inv_def
proof (intro allI ballI)
  fix l x assume "x \<in> set (ids_at (fst (p', g)) l)"
  with assms(3) obtain k where k: "x \<in> set (ids_at p k)" "stages_done p k = stages_done p' l" by auto
  from data_invD [OF assms(1) k(1)] k(2) assms(2)
  show "data_at env (p', g) x (stages_done (fst (p', g)) l)" by (simp add: data_at_def)
qed

lemma stages_done_simps [simp]:
  "stages_done p AtMain = 0" "stages_done p (AtQueue i) = i"
  "p_execs p i = EHold cid \<Longrightarrow> stages_done p (AtExec i) = i"
  "p_execs p i = EPush cid \<Longrightarrow> stages_done p (AtExec i) = i + 1"
  by (simp_all add: stages_done_def)

lemma data_pushed:
  assumes inv: "pipeline_inv n p" and data: "data_inv env (p, g)"
    and src: "cid \<in> set (ids_at p src)" "stages_done p src = k"
    and push: "ring_push (p_queues p k) cid = (q, r)"
    and p': "p_slab p' = p_slab p" "p_queues p' = (p_queues p)(k := q)"
      "\<And>l x. (\<And>i. l \<noteq> AtQueue i) \<Longrightarrow> x \<in> set (ids_at p' l) \<Longrightarrow>
        x \<in> set (ids_at p l) \<and> stages_done p' l = stages_done p l"
  shows "data_inv env (p', g)"
proof (rule data_moved [OF data p'(1)])
  fix l x assume x: "x \<in> set (ids_at p' l)"
  show "\<exists>j. x \<in> set (ids_at p j) \<and> stages_done p j = stages_done p' l"
  proof (cases "\<exists>i. l = AtQueue i")
    case False
    with p'(3) [of l x] x show ?thesis by metis
  next
    case True
    then obtain i where l: "l = AtQueue i" by blast
    have "live p cid" using pipeline_invD(7) [OF inv src(1)] .
    from push_contents [OF pipeline_invD(4) [OF inv] live_index [OF inv this] push]
    have "set (ring_contents q) \<subseteq> insert cid (set (ring_contents (p_queues p k)))" by auto
    with x l p'(2) have "x \<in> set (ids_at p (AtQueue i)) \<or> i = k \<and> x = cid" by (auto split: if_splits)
    then show ?thesis
    proof
      assume "x \<in> set (ids_at p (AtQueue i))"
      then show ?thesis using l by (metis stages_done_simps(2))
    next
      assume "i = k \<and> x = cid"
      then show ?thesis using l src by (metis stages_done_simps(2))
    qed
  qed
qed

lemma data_processed:
  assumes inv: "pipeline_inv n p" and data: "data_inv env (p, g)" and i: "i < stage_count"
    and hold: "p_execs p i = EHold cid"
    and proc: "stage_of env i cid (p_slab p) (p_metrics p) = ((slab', m'), r)"
  shows "data_inv env (p\<lparr>p_slab := slab', p_metrics := m', p_execs := (p_execs p)(i := after_process i r)\<rparr>, g)"
    (is "data_inv env (?p, g)")
  unfolding data_inv_def
proof (intro allI ballI)
  fix l x assume x: "x \<in> set (ids_at (fst (?p, g)) l)"
  have held: "cid \<in> set (ids_at p (AtExec i))" using hold by simp
  from data_invD [OF data held] hold obtain c s0 where
    c: "slab_get (p_slab p) cid = Some c" "g cid = Some s0" "conn_after env s0 i c"
    by (auto simp: data_at_def)
  note contract = stage_contract_of [of env i] and wf = pipeline_invD(1) [OF inv]
  show "data_at env (?p, g) x (stages_done (fst (?p, g)) l)"
  proof (cases "l = AtExec i")
    case False
    then have l: "ids_at ?p l = ids_at p l" "stages_done ?p l = stages_done p l"
      by (cases l; simp add: stages_done_def)+
    with x have at: "x \<in> set (ids_at p l)" by simp
    with only_at [OF inv held, of l] False have "x \<noteq> cid" by blast
    from stage_contract.keeps_others [OF contract wf c(1) proc this] data_invD [OF data at] l
    show ?thesis by (simp add: data_at_def)
  next
    case True
    with x obtain j where j: "r = Inr (Some j)" "i < 4" "x = j"
      by (auto simp: after_process_def stage_count_def split: sum.splits option.splits if_splits)
    with stage_contract.passes_on [OF contract wf c(1), of "p_metrics p" slab' m' j] proc have "x = cid" by simp
    moreover from stage_data [OF c(1,3) j(2), of "p_metrics p" slab' m' j] proc j(1) obtain c' where
      "slab_get slab' cid = Some c'" "conn_after env s0 (i + 1) c'" by auto
    ultimately show ?thesis
      using c(2) j True by (auto simp: data_at_def after_process_def stage_count_def stages_done_def)
  qed
qed

lemma data_step:
  assumes inv: "pipeline_inv n p" and data: "data_inv env (p, g)" and step: "pipeline_step env p p'"
    and other: "p_main p' = MIdle \<or> p_main p' = p_main p"
  shows "data_inv env (p', g)"
  using step
proof cases
  case (accept_full now s slab')
  have "\<not> 0 < vacant_count (p_slab p)"
    using cs.insert_fresh [OF pipeline_invD(1) [OF inv], of "conn_new now s"] accept_full by auto
  with cs.insert_full [OF pipeline_invD(1) [OF inv], of "conn_new now s"] accept_full
  have "slab' = p_slab p" by simp
  with accept_full data show ?thesis by simp
next
  case (queue_accepted cid q u)
  show ?thesis
    by (rule data_pushed [OF inv data, where src = AtMain and k = 0 and cid = cid and q = q and r = "Inr u"])
      (use queue_accepted in \<open>auto simp: stages_done_def split: place.splits\<close>)
next
  case (drop_accepted cid q e)
  show ?thesis
    by (rule data_pushed [OF inv data, where src = AtMain and k = 0 and cid = cid and q = q])
      (use drop_accepted in \<open>auto simp: stages_done_def split: place.splits\<close>)
next
  case (take i q cid)
  from pop_contents [OF pipeline_invD(4) [OF inv] take(4)]
  have q: "set (ids_at p (AtQueue i)) = insert cid (set (ring_contents q))" by simp
  show ?thesis
  proof (rule data_moved [OF data])
    fix l x assume x: "x \<in> set (ids_at p' l)"
    show "\<exists>k. x \<in> set (ids_at p k) \<and> stages_done p k = stages_done p' l"
    proof (cases "l = AtExec i \<or> l = AtQueue i")
      case True
      then have "x \<in> set (ids_at p (AtQueue i))" "stages_done p' l = i"
        unfolding q using x take(1) by (auto simp: stages_done_def)
      then show ?thesis by (metis stages_done_simps(2))
    next
      case False
      then have "ids_at p' l = ids_at p l" "stages_done p' l = stages_done p l"
        unfolding take(1) by (cases l; simp add: stages_done_def)+
      with x show ?thesis by metis
    qed
  qed (use take in simp)
next
  case (poll i q)
  with pop_contents [OF pipeline_invD(4) [OF inv] poll(4)] data show ?thesis by simp
next
  case (process i cid slab' m' r)
  with data_processed [OF inv data] show ?thesis by simp
next
  case (pass i cid q u)
  show ?thesis
    by (rule data_pushed [OF inv data, where src = "AtExec i" and k = "i + 1" and cid = cid and q = q])
      (use pass in \<open>auto simp: stages_done_def split: place.splits\<close>)
next
  case (pass_full i cid q e)
  show ?thesis
    by (rule data_pushed [OF inv data, where src = "AtExec i" and k = "i + 1" and cid = cid and q = q])
      (use pass_full in \<open>auto simp: stages_done_def split: place.splits\<close>)
qed (use other in simp_all)

lemma data_accept:
  assumes inv: "pipeline_inv n p" and data: "data_inv env (p, g)" and idle: "p_main p = MIdle"
    and ins: "slab_insert (p_slab p) (conn_new now s) = (slab', Inr (Some cid))"
  shows "data_inv env (p\<lparr>p_slab := slab', p_metrics := m, p_main := MPush cid\<rparr>, g(cid \<mapsto> s))"
    (is "data_inv env (?p, _)")
  unfolding data_inv_def
proof (intro allI ballI)
  fix l x assume x: "x \<in> set (ids_at (fst (?p, g(cid \<mapsto> s))) l)"
  have vac: "0 < vacant_count (p_slab p)"
    using ins by (auto simp: slab_insert_def vacant_count_def Let_def split: if_splits)
  from cs.insert_fresh [OF pipeline_invD(1) [OF inv] vac, of "conn_new now s"] ins
  have fresh: "slab_get (p_slab p) cid = None"
    and get: "\<forall>j. slab_get slab' j = (if j = cid then Some (conn_new now s) else slab_get (p_slab p) j)"
    by auto
  show "data_at env (?p, g(cid \<mapsto> s)) x (stages_done (fst (?p, g(cid \<mapsto> s))) l)"
  proof (cases "l = AtMain")
    case True
    with x get show ?thesis by (simp add: data_at_def conn_after_new)
  next
    case False
    then have l: "ids_at ?p l = ids_at p l" "stages_done ?p l = stages_done p l"
      by (cases l; simp add: stages_done_def)+
    with x have at: "x \<in> set (ids_at p l)" by simp
    with pipeline_invD(7) [OF inv this] fresh have "x \<noteq> cid" by (auto simp: live_def)
    with data_invD [OF data at] l get show ?thesis by (simp add: data_at_def)
  qed
qed

lemma data_inv_reachable:
  assumes "(tracked_step env)\<^sup>*\<^sup>* (pipeline_init scap qcap, Map.empty) (p, g)"
    and "scap < 2 ^ 64" and "0 < qcap"
  shows "data_inv env (p, g)"
  using assms(1)
proof (induction rule: rtranclp_induct2)
  case refl
  have "ids_at (pipeline_init scap qcap) l = []" for l
    by (cases l) (simp_all add: pipeline_init_def)
  then show ?case by (simp add: data_inv_def)
next
  case (step p g p' g')
  note inv = pipeline_inv_reachable [OF tracked_run [OF step.hyps(1)] assms(2,3)]
  from step.hyps(2) show ?case
  proof cases
    case (track_accept now s slab' cid)
    show ?thesis
      unfolding track_accept(1,2) by (rule data_accept [OF inv step.IH track_accept(3,4)])
  next
    case track_other
    with data_step [OF inv step.IH] show ?thesis by simp
  qed
qed

section \<open>Which threads can panic\<close>

text \<open>
  Only parsing runs code that can panic on what a client sends. The output stage would panic on a
  connection with more bytes written than buffered, or on a slot that is not occupied; the data
  and the identifiers of the pipeline exclude both.
\<close>

lemma stage_no_panic:
  assumes wf: "slab_wf slab" and c: "slab_get slab cid = Some c" "conn_after env s0 i c" and "0 < i"
    and st: "stage_of env i cid slab m = ((slab', m'), r)"
  shows "r \<noteq> Inl f"
proof -
  have rem: "r = Inr None" if "remove_conn cid (slab_put slab cid c') m1 = ((slab', m'), r)" for c' m1
    using remove_conn_contract [of "slab_put slab cid c'" cid c' m1] that slab_put_contract [OF wf c(1)] by auto
  have "net_out_one cid slab m = ((slab', m'), r) \<Longrightarrow> r = Inr None"
  proof -
    assume no: "net_out_one cid slab m = ((slab', m'), r)"
    obtain s where s: "stream c = Some s" "bytes_written c = 0"
      using c(2) by (auto simp: conn_after_def same_output_def split: option.splits)
    obtain s' w where w: "write_all s (write_buf c) 0 = (s', w)" by (cases "write_all s (write_buf c) 0")
    show ?thesis
    proof (cases w)
      case (Inl e)
      with write_all_wire [OF w] obtain u where "e = Error u" by (cases e) auto
      with no c(1) s w Inl rem show ?thesis by (auto simp: net_out_one_def)
    next
      case (Inr k)
      with no c(1) s w rem show ?thesis by (auto simp: net_out_one_def Let_def split: if_splits)
    qed
  qed
  moreover have "r = Inr (Some cid)" if "route_one cid slab m = ((slab', m'), r)"
    using that c(1) by (simp add: route_one_def Let_def)
  moreover have "r = Inr (Some cid)" if "app_one env cid slab m = ((slab', m'), r)"
    using that c(1) by (simp add: app_one_def Let_def)
  moreover have "r = Inr (Some cid)" if "encode_one cid slab m = ((slab', m'), r)"
    using that by (simp add: encode_one_def)
  ultimately show ?thesis using st assms(4) by (auto simp: stage_of_def split: if_splits)
qed

lemma dead_is_parse_step:
  assumes inv: "pipeline_inv n p" and data: "data_inv env (p, g)" and step: "pipeline_step env p p'"
    and alive: "\<forall>i. 0 < i \<longrightarrow> p_execs p i \<noteq> EDead"
  shows "\<forall>i. 0 < i \<longrightarrow> p_execs p' i \<noteq> EDead"
  using step
proof cases
  case (process i cid slab' m' r)
  have "after_process i r \<noteq> EDead" if "0 < i"
  proof -
    from process(3) data_invD [OF data, of cid "AtExec i"] obtain c s0 where
      "slab_get (p_slab p) cid = Some c" "conn_after env s0 i c" by (auto simp: data_at_def)
    from stage_no_panic [OF pipeline_invD(1) [OF inv] this that process(4)] show ?thesis
      by (auto simp: after_process_def split: sum.splits option.splits)
  qed
  with process alive show ?thesis by simp
qed (use alive in auto)

lemma dead_is_parse:
  assumes "(tracked_step env)\<^sup>*\<^sup>* (pipeline_init scap qcap, Map.empty) (p, g)"
    and "scap < 2 ^ 64" and "0 < qcap"
  shows "\<forall>i. 0 < i \<longrightarrow> p_execs p i \<noteq> EDead"
  using assms(1)
proof (induction rule: rtranclp_induct2)
  case refl
  show ?case by (simp add: pipeline_init_def)
next
  case (step p g p' g')
  show ?case
    by (rule dead_is_parse_step [OF pipeline_inv_reachable [OF tracked_run [OF step.hyps(1)] assms(2,3)]
        data_inv_reachable [OF step.hyps(1) assms(2,3)] tracked_untracked [OF step.hyps(2)] step.IH])
qed

section \<open>A connection alone in the pipeline\<close>

text \<open>One thread holds a connection, all other threads are idle and all queues are empty.\<close>

definition solitary :: "nat \<Rightarrow> conn_id \<Rightarrow> pipeline \<Rightarrow> bool" where
  "solitary i cid p \<longleftrightarrow> p_main p = MIdle \<and> p_execs p = (\<lambda>_. EIdle)(i := EHold cid)
     \<and> (\<forall>j. ring_inv (p_queues p j) \<and> ring_contents (p_queues p j) = [] \<and> 0 < ring_room (p_queues p j))"

lemma solitary_moves:
  assumes sol: "solitary i cid p" and i: "i < 4" and ok: "id_ok cid"
    and st: "stage_of env i cid (p_slab p) (p_metrics p) = ((slab', m'), Inr (Some cid))"
  shows "\<exists>p'. (\<forall>g. (tracked_step env)\<^sup>*\<^sup>* (p, g) (p', g)) \<and> solitary (i + 1) cid p' \<and> p_slab p' = slab' \<and> p_metrics p' = m'"
proof -
  let ?q = "p_queues p (i + 1)"
  have q: "ring_inv ?q" "ring_contents ?q = []" "0 < ring_room ?q" using sol by (simp_all add: solitary_def)
  have "length (ring_contents ?q) < ring_room ?q" by (simp only: q(2,3) list.size)
  from rq.push_room [OF q(1) ok this] q obtain q1 where
    q1: "ring_push ?q cid = (q1, Inr ())" "ring_inv q1" "ring_contents q1 = [cid]" "ring_room q1 = ring_room ?q"
    by auto
  from rq.pop_some [OF q1(2,3)] obtain q2 where
    q2: "ring_pop q1 = (q2, Inr (Some cid))" "ring_inv q2" "ring_contents q2 = []" "ring_room q2 = ring_room q1"
    by auto
  let ?p1 = "p\<lparr>p_slab := slab', p_metrics := m', p_execs := (p_execs p)(i := EPush cid)\<rparr>"
  let ?p2 = "?p1\<lparr>p_queues := (p_queues ?p1)(i + 1 := q1), p_execs := (p_execs ?p1)(i := EIdle)\<rparr>"
  let ?p3 = "?p2\<lparr>p_queues := (p_queues ?p2)(i + 1 := q2), p_execs := (p_execs ?p2)(i + 1 := EHold cid)\<rparr>"
  have "pipeline_step env p (p\<lparr>p_slab := slab', p_metrics := m', p_execs := (p_execs p)(i := after_process i (Inr (Some cid)))\<rparr>)"
    by (rule process [OF _ _ st]) (use sol i in \<open>simp_all add: solitary_def stage_count_def\<close>)
  then have 1: "pipeline_step env p ?p1" using i by (simp add: after_process_def stage_count_def)
  have 2: "pipeline_step env ?p1 ?p2"
    by (rule pass [where cid = cid]) (use i q1 in \<open>simp_all add: stage_count_def\<close>)
  have 3: "pipeline_step env ?p2 ?p3"
    by (rule take [where cid = cid]) (use i sol q2 in \<open>simp_all add: solitary_def stage_count_def\<close>)
  have "tracked_step env (p, g) (?p1, g)" "tracked_step env (?p1, g) (?p2, g)"
    "tracked_step env (?p2, g) (?p3, g)" for g
    by (rule track_other [OF 1], simp) (rule track_other [OF 2], simp, rule track_other [OF 3], simp)
  then have "(tracked_step env)\<^sup>*\<^sup>* (p, g) (?p3, g)" for g
    by (meson converse_rtranclp_into_rtranclp rtranclp.rtrancl_refl)
  moreover have "solitary (i + 1) cid ?p3" using sol q2 q1(4) by (auto simp: solitary_def)
  ultimately show ?thesis by (intro exI [of _ ?p3]) simp
qed

lemma solitary_run:
  assumes "solitary i cid p" and "i + k \<le> 4" and ok: "id_ok cid"
    and "pipeline_inv n p"
    and "run_stages env i k cid (p_slab p) (p_metrics p) = ((slab', m'), Inr (Some cid))"
  shows "\<exists>p'. (\<forall>g. (tracked_step env)\<^sup>*\<^sup>* (p, g) (p', g)) \<and> solitary (i + k) cid p' \<and> p_slab p' = slab' \<and> p_metrics p' = m'"
  using assms(1,2,4,5)
proof (induction k arbitrary: i p)
  case 0
  then show ?case by (intro exI [of _ p]) simp
next
  case (Suc k)
  from Suc.prems(4) obtain slab1 m1 j where
    1: "stage_of env i cid (p_slab p) (p_metrics p) = ((slab1, m1), Inr (Some j))"
      "run_stages env (Suc i) k j slab1 m1 = ((slab', m'), Inr (Some cid))"
    by (auto split: prod.splits sum.splits option.splits)
  have "cid \<in> set (ids_at p (AtExec i))" using Suc.prems(1) by (simp add: solitary_def)
  from pipeline_invD(7) [OF Suc.prems(3) this] obtain c where "slab_get (p_slab p) cid = Some c"
    by (auto simp: live_def)
  from stage_contract.passes_on [OF stage_contract_of pipeline_invD(1) [OF Suc.prems(3)] this 1(1)]
  have j: "j = cid" by simp
  from solitary_moves [OF Suc.prems(1) _ ok, of env slab1 m1] 1(1) j Suc.prems(2) obtain p1 where
    p1: "\<And>g. (tracked_step env)\<^sup>*\<^sup>* (p, g) (p1, g)" "solitary (Suc i) cid p1" "p_slab p1 = slab1" "p_metrics p1 = m1"
    by auto
  have inv1: "pipeline_inv n p1"
  proof -
    have "(pipeline_step env)\<^sup>*\<^sup>* p p1" using tracked_run [OF p1(1)] .
    then show ?thesis
      by (induction rule: rtranclp_induct) (use Suc.prems(3) pipeline_inv_step in blast)+
  qed
  from Suc.IH [OF p1(2) _ inv1] Suc.prems(2) 1(2) j p1(3,4) obtain p2 where
    "\<And>g. (tracked_step env)\<^sup>*\<^sup>* (p1, g) (p2, g)" "solitary (Suc i + k) cid p2" "p_slab p2 = slab'" "p_metrics p2 = m'"
    by auto
  with p1(1) show ?case by (intro exI [of _ p2]) (auto intro: rtranclp_trans)
qed

text \<open>A server with nothing to do, and what becomes of the next connection.\<close>

definition quiet :: "pipeline \<Rightarrow> bool" where
  "quiet p \<longleftrightarrow> p_main p = MIdle \<and> p_execs p = (\<lambda>_. EIdle)
     \<and> (\<forall>j. ring_inv (p_queues p j) \<and> ring_contents (p_queues p j) = [] \<and> 0 < ring_room (p_queues p j))"

lemma quiet_init:
  assumes "2 \<le> qcap"
  shows "quiet (pipeline_init scap qcap)"
  using assms ring_inv_new [of qcap] by (simp add: quiet_def pipeline_init_def) (simp add: ring_room_def ring_new_def)

lemma quiet_accepts:
  assumes quiet: "quiet p" and inv: "pipeline_inv n p" and vac: "0 < vacant_count (p_slab p)"
  shows "\<exists>cid p'. (tracked_step env)\<^sup>*\<^sup>* (p, g) (p', g(cid \<mapsto> s)) \<and> solitary 0 cid p' \<and> id_ok cid
    \<and> slab_get (p_slab p) cid = None
    \<and> (\<forall>j. slab_get (p_slab p') j = (if j = cid then Some (conn_new now s) else slab_get (p_slab p) j))
    \<and> p_metrics p' = inc_queue_len (lit ''parse'') (inc_total_conns (p_metrics p))"
proof -
  from cs.insert_fresh [OF pipeline_invD(1) [OF inv] vac, of "conn_new now s"] obtain slab' cid where
    ins: "slab_insert (p_slab p) (conn_new now s) = (slab', Inr (Some cid))" "slab_get (p_slab p) cid = None"
      "\<forall>j. slab_get slab' j = (if j = cid then Some (conn_new now s) else slab_get (p_slab p) j)" by blast
  let ?p1 = "p\<lparr>p_slab := slab', p_metrics := inc_total_conns (p_metrics p), p_main := MPush cid\<rparr>"
  have main: "p_main p = MIdle" using quiet by (simp add: quiet_def)
  have 1: "tracked_step env (p, g) (?p1, g(cid \<mapsto> s))" by (rule track_accept [OF main ins(1)])
  note inv1 = pipeline_inv_step [OF inv tracked_untracked [OF 1]]
  have ok: "id_ok cid" using live_index [OF inv1] ins(3) by (simp add: live_def)
  let ?q = "p_queues p 0"
  have q: "ring_inv ?q" "ring_contents ?q = []" "0 < ring_room ?q" using quiet by (simp_all add: quiet_def)
  have "length (ring_contents ?q) < ring_room ?q" by (simp only: q(2,3) list.size)
  from rq.push_room [OF q(1) ok this] q obtain q1 where
    q1: "ring_push ?q cid = (q1, Inr ())" "ring_inv q1" "ring_contents q1 = [cid]" "ring_room q1 = ring_room ?q"
    by auto
  from rq.pop_some [OF q1(2,3)] obtain q2 where
    q2: "ring_pop q1 = (q2, Inr (Some cid))" "ring_inv q2" "ring_contents q2 = []" "ring_room q2 = ring_room q1"
    by auto
  let ?p2 = "?p1\<lparr>p_queues := (p_queues ?p1)(0 := q1),
    p_metrics := inc_queue_len (lit ''parse'') (p_metrics ?p1), p_main := MIdle\<rparr>"
  let ?p3 = "?p2\<lparr>p_queues := (p_queues ?p2)(0 := q2), p_execs := (p_execs ?p2)(0 := EHold cid)\<rparr>"
  have 2: "pipeline_step env ?p1 ?p2" by (rule queue_accepted) (use q1 in simp_all)
  have 3: "pipeline_step env ?p2 ?p3"
    by (rule take) (use q2 quiet in \<open>simp_all add: quiet_def stage_count_def\<close>)
  have "tracked_step env (?p1, h) (?p2, h)" "tracked_step env (?p2, h) (?p3, h)" for h
    by (rule track_other [OF 2], simp) (rule track_other [OF 3], simp)
  with 1 have "(tracked_step env)\<^sup>*\<^sup>* (p, g) (?p3, g(cid \<mapsto> s))"
    by (meson converse_rtranclp_into_rtranclp rtranclp.rtrancl_refl)
  moreover have "solitary 0 cid ?p3" using quiet q2 q1(4) by (auto simp: solitary_def quiet_def)
  ultimately show ?thesis
    using ins ok by (intro exI [of _ cid] exI [of _ ?p3]) simp
qed

lemma solitary_ends:
  assumes sol: "solitary 4 cid p"
    and st: "stage_of env 4 cid (p_slab p) (p_metrics p) = ((slab', m'), Inr None)"
  shows "\<exists>p'. tracked_step env (p, g) (p', g) \<and> quiet p' \<and> p_slab p' = slab' \<and> p_metrics p' = m'"
proof -
  let ?p = "p\<lparr>p_slab := slab', p_metrics := m', p_execs := (p_execs p)(4 := after_process 4 (Inr None))\<rparr>"
  have "pipeline_step env p ?p"
    by (rule process [OF _ _ st]) (use sol in \<open>simp_all add: solitary_def stage_count_def\<close>)
  from track_other [OF this] have "tracked_step env (p, g) (?p, g)" by simp
  moreover have "quiet ?p" using sol by (auto simp: quiet_def solitary_def after_process_def)
  ultimately show ?thesis by (intro exI [of _ ?p]) simp
qed

text \<open>From quiet to quiet, with the metrics.\<close>

lemma quiet_answers_core:
  assumes "quiet p" and "pipeline_inv n p" and "0 < vacant_count (p_slab p)"
    and "available (rx s) = request_head m path v hs @ body"
    and "token m" "token path" "token v" "\<forall>h \<in> set hs. header_wf h" "hs \<noteq> []"
    and "valid_utf8 body" and "content_length (header_map hs) = length body"
    and "length (request_head m path v hs @ body) < 2 ^ 64"
    and "tx s = WriteOk k # r" and "length (to_bytes (header_order env) (response_for env path)) \<le> k"
  shows "\<exists>cid p1 c1 s1 s2 p2 slab0 slab4 m4.
    (tracked_step env)\<^sup>*\<^sup>* (p, g) (p1, g(cid \<mapsto> s)) \<and> slab_get (p_slab p) cid = None
    \<and> p_execs p1 4 = EHold cid \<and> slab_get (p_slab p1) cid = Some c1 \<and> stream c1 = Some s1
    \<and> write_all s1 (write_buf c1) (bytes_written c1)
        = (s2, Inr (length (to_bytes (header_order env) (response_for env path))))
    \<and> wire s2 = wire s @ to_bytes (header_order env) (response_for env path)
    \<and> tracked_step env (p1, g(cid \<mapsto> s)) (p2, g(cid \<mapsto> s)) \<and> quiet p2 \<and> pipeline_inv n p2
    \<and> slab_get (p_slab p2) = slab_get (p_slab p) \<and> vacant_count (p_slab p2) = vacant_count (p_slab p)
    \<and> run_stages env 0 4 cid slab0 (inc_queue_len (lit ''parse'') (inc_total_conns (p_metrics p)))
        = ((slab4, m4), Inr (Some cid))
    \<and> p_metrics p2 = dec_total_conns m4"
proof -
  from quiet_accepts [OF assms(1-3), of env g s 0] obtain cid q where
    q: "(tracked_step env)\<^sup>*\<^sup>* (p, g) (q, g(cid \<mapsto> s))" "solitary 0 cid q" "id_ok cid"
      "slab_get (p_slab p) cid = None"
      "\<forall>j. slab_get (p_slab q) j = (if j = cid then Some (conn_new 0 s) else slab_get (p_slab p) j)"
      "p_metrics q = inc_queue_len (lit ''parse'') (inc_total_conns (p_metrics p))" by blast
  have keep: "pipeline_inv n y" if "(tracked_step env)\<^sup>*\<^sup>* (x, h) (y, h')" "pipeline_inv n x" for x y h h'
    using tracked_run [OF that(1)] that(2)
    by (induction rule: rtranclp_induct) (auto intro: pipeline_inv_step)
  note invq = keep [OF q(1) assms(2)]
  have "slab_get (p_slab q) cid = Some (conn_new 0 s)" using q(5) by simp
  from request_answered_core [where metrics = "p_metrics q", OF pipeline_invD(1) [OF invq] this assms(4-14)]
  obtain slab4 m4 c4 s4 s5 slab5 where
    4: "run_stages env 0 4 cid (p_slab q) (p_metrics q) = ((slab4, m4), Inr (Some cid))"
      "slab_get slab4 cid = Some c4" "stream c4 = Some s4"
      "write_all s4 (write_buf c4) (bytes_written c4)
        = (s5, Inr (length (to_bytes (header_order env) (response_for env path))))"
      "wire s5 = wire s @ to_bytes (header_order env) (response_for env path)"
      "net_out_one cid slab4 m4 = ((slab5, dec_total_conns m4), Inr None)"
      "\<forall>j. slab_get slab5 j = (if j = cid then None else slab_get (p_slab q) j)" by blast
  from solitary_run [OF q(2) _ q(3) invq 4(1)] obtain p1 where
    p1: "(tracked_step env)\<^sup>*\<^sup>* (q, g(cid \<mapsto> s)) (p1, g(cid \<mapsto> s))" "solitary 4 cid p1" "p_slab p1 = slab4" "p_metrics p1 = m4"
    by auto
  have "stage_of env 4 cid (p_slab p1) (p_metrics p1) = ((slab5, dec_total_conns m4), Inr None)"
    using 4(6) p1(3,4) by (simp add: stage_of_def)
  from solitary_ends [OF p1(2) this, of "g(cid \<mapsto> s)"] obtain p2 where
    p2: "tracked_step env (p1, g(cid \<mapsto> s)) (p2, g(cid \<mapsto> s))" "quiet p2" "p_slab p2 = slab5"
      "p_metrics p2 = dec_total_conns m4" by blast
  have run: "(tracked_step env)\<^sup>*\<^sup>* (p, g) (p1, g(cid \<mapsto> s))" using q(1) p1(1) by (rule rtranclp_trans)
  have inv2: "pipeline_inv n p2" by (rule keep [OF rtranclp.rtrancl_into_rtrancl [OF run p2(1)] assms(2)])
  have get: "slab_get (p_slab p2) = slab_get (p_slab p)" using 4(7) q(4,5) p2(3) by (auto intro!: ext)
  have "vacant_count (p_slab p2) = vacant_count (p_slab p)"
    using live_slots [OF pipeline_invD(1) [OF inv2]] live_slots [OF pipeline_invD(1) [OF assms(2)]]
      pipeline_invD(2) [OF inv2] pipeline_invD(2) [OF assms(2)] get by simp
  moreover have "p_execs p1 4 = EHold cid" using p1(2) by (simp add: solitary_def)
  moreover have "slab_get (p_slab p1) cid = Some c4" using p1(3) 4(2) by simp
  moreover note 4(1) [unfolded q(6)]
  ultimately show ?thesis using run q(4) 4(3-5) p2(1,2,4) inv2 get by blast
qed

text \<open>A small request with a body, for the witnesses.\<close>

lemma simple_request_parses:
  "\<exists>req n. http_parse id (request_head [71] [47] [49] [(lit ''Content-Length'', [0x32])] @ [104, 105]) = Inr (req, n)
    \<and> rq_path req = [47]"
proof -
  have "length (request_head [71] [47] [49] [(lit ''Content-Length'', [0x32])]) = 28"
    by (simp add: request_head_def request_lines_def header_line_def lit_def)
  moreover have "\<forall>h \<in> set [(lit ''Content-Length'', [0x32])]. header_wf h" using length_header_wf by simp
  ultimately show ?thesis
    using http_parse_request [where low = id and body = "[104, 105]", OF token_simple]
    by (simp add: length_header_map valid_utf8_ascii_Cons)
qed

section \<open>Properties\<close>

text \<open>
  C1: Every response is the right one, however the threads interleave. In every state the server
  can reach, a connection that has got to the output stage came in with some socket; a request
  parses from what that socket had received, its slot holds exactly the response of the route the
  code has for that request's path, nothing of which has been written; and writing it never panics
  and puts a prefix of exactly this response on that same socket. No connection is ever sent bytes of
  another connection's response, although slots and buffers are used again and again. The code has
  two routes: a request for any path but \<open>/\<close> and \<open>/api/test\<close> is sent the reply 404, also one for
  \<open>/health\<close>, which the README and the health checks of the container promise, and for \<open>/metrics\<close>.
\<close>

theorem responses_right:
  assumes "(tracked_step env)\<^sup>*\<^sup>* (pipeline_init slab_cap queue_cap, Map.empty) (p, g)"
    and "slab_cap < 2 ^ 64" and "0 < queue_cap" and "p_execs p 4 = EHold cid"
  shows "\<exists>c s s0 request len.
    slab_get (p_slab p) cid = Some c \<and> stream c = Some s \<and> g cid = Some s0
    \<and> http_parse (unicode_lower env) (available (rx s0)) = Inr (request, len)
    \<and> write_buf c = to_bytes (header_order env) (response_for env (rq_path request))
    \<and> (rq_path request \<notin> {lit ''/'', lit ''/api/test''} \<longrightarrow>
         write_buf c = to_bytes (header_order env) response_not_found \<and> rs_status response_not_found = 404)
    \<and> bytes_written c = 0 \<and> tx s = tx s0
    \<and> (case write_all s (write_buf c) (bytes_written c) of
         (s', r) \<Rightarrow> r \<noteq> Inl Panic
           \<and> (\<exists>n. wire s' = wire s0 @ take n (to_bytes (header_order env) (response_for env (rq_path request)))))"
proof -
  have "cid \<in> set (ids_at p (AtExec 4))" using assms(4) by simp
  from data_invD [OF data_inv_reachable [OF assms(1-3)] this] assms(4) obtain c s0 where
    c: "slab_get (p_slab p) cid = Some c" "g cid = Some s0" "conn_after env s0 4 c"
    by (auto simp: data_at_def)
  from c(3) obtain s where s: "stream c = Some s" "tx s = tx s0" "wire s = wire s0" "bytes_written c = 0"
    by (auto simp: conn_after_def same_output_def split: option.splits)
  from c(3) obtain request len where
    r: "http_parse (unicode_lower env) (available (rx s0)) = Inr (request, len)"
      "write_buf c = to_bytes (header_order env) (response_for env (rq_path request))"
    by (auto simp: conn_after_def parsed_path_def split: sum.splits)
  obtain s' w where w: "write_all s (write_buf c) (bytes_written c) = (s', w)"
    by (cases "write_all s (write_buf c) (bytes_written c)")
  have "w \<noteq> Inl Panic \<and> (\<exists>n. wire s' = wire s0 @ take n (write_buf c))"
    using write_all_wire [OF w] unfolding s(3,4) by auto
  then have wr: "case write_all s (write_buf c) (bytes_written c) of (s', r) \<Rightarrow> r \<noteq> Inl Panic
      \<and> (\<exists>n. wire s' = wire s0 @ take n (to_bytes (header_order env) (response_for env (rq_path request))))"
    unfolding w unfolding r(2) by simp
  have other: "rq_path request \<notin> {lit ''/'', lit ''/api/test''} \<longrightarrow>
      write_buf c = to_bytes (header_order env) response_not_found \<and> rs_status response_not_found = 404"
    using r(2) by (simp add: response_not_found_other health_is_not_found)
  show ?thesis
    by (intro exI conjI, rule c(1), rule s(1), rule c(2), rule r(1), rule r(2), rule other, rule s(4), rule s(2), rule wr)
qed

theorem responses_right_witness:
  "\<exists>p g cid c. (tracked_step \<lparr> landing_page = [60], header_order = id, unicode_lower = id \<rparr>)\<^sup>*\<^sup>*
      (pipeline_init 1 2, Map.empty) (p, g)
    \<and> p_execs p 4 = EHold cid \<and> slab_get (p_slab p) cid = Some c
    \<and> g cid = Some \<lparr> rx = [ReadOk (request_head [71] [47] [49] [(lit ''Content-Length'', [0x32])] @ [104, 105])],
        tx = [], wire = [] \<rparr>
    \<and> bytes_written c = 0"
proof -
  let ?env = "\<lparr> landing_page = [60], header_order = id, unicode_lower = id \<rparr>"
  let ?hs = "[(lit ''Content-Length'', [0x32])]"
  let ?s = "\<lparr> rx = [ReadOk (request_head [71] [47] [49] ?hs @ [104, 105])], tx = [], wire = [] \<rparr>"
  have inv0: "pipeline_inv 1 (pipeline_init 1 2)" by (rule pipeline_inv_init) simp_all
  have "0 < vacant_count (p_slab (pipeline_init 1 2))"
    by (simp add: pipeline_init_def slab_new_def vacant_count_def Let_def)
  from quiet_accepts [OF quiet_init inv0 this, of ?env Map.empty ?s 0] obtain cid p1 where
    p1: "(tracked_step ?env)\<^sup>*\<^sup>* (pipeline_init 1 2, Map.empty) (p1, [cid \<mapsto> ?s])" "solitary 0 cid p1" "id_ok cid"
      "slab_get (p_slab p1) cid = Some (conn_new 0 ?s)"
    by auto
  obtain req n where "http_parse (unicode_lower ?env) (read_buf (conn_new 0 ?s) @ available (rx ?s)) = Inr (req, n)"
    using simple_request_parses by (auto simp: conn_new_def)
  from first_four_stages [where m = "p_metrics p1", OF p1(4) _ this] obtain slab4 m4 where
    "run_stages ?env 0 4 cid (p_slab p1) (p_metrics p1) = ((slab4, m4), Inr (Some cid))"
    by (auto simp: conn_new_def)
  from solitary_run [OF p1(2) _ p1(3) pipeline_inv_reachable [OF tracked_run [OF p1(1)]] this]
  obtain p where p: "(tracked_step ?env)\<^sup>*\<^sup>* (p1, [cid \<mapsto> ?s]) (p, [cid \<mapsto> ?s])" "solitary 4 cid p" by auto
  have run: "(tracked_step ?env)\<^sup>*\<^sup>* (pipeline_init 1 2, Map.empty) (p, [cid \<mapsto> ?s])"
    using p1(1) p(1) by simp
  have hold: "p_execs p 4 = EHold cid" using p(2) by (simp add: solitary_def)
  from responses_right [OF run _ _ hold] obtain c where c: "slab_get (p_slab p) cid = Some c" "bytes_written c = 0"
    by auto
  show ?thesis by (intro exI conjI, rule run, rule hold, rule c(1), simp, rule c(2))
qed

text \<open>
  C12: Only the parse thread can be killed by a client. In every state the server can reach, the
  route, app, encode and output executors are alive: they never find a freed slot, the output
  stage never slices past the end of a buffer, and no remove fails.
\<close>

theorem only_parse_dies:
  assumes "(pipeline_step env)\<^sup>*\<^sup>* (pipeline_init slab_cap queue_cap) p"
    and "slab_cap < 2 ^ 64" and "0 < queue_cap"
  shows "p_execs p (Suc i) \<noteq> EDead"
proof -
  from run_tracked [OF assms(1), of Map.empty] obtain g where
    "(tracked_step env)\<^sup>*\<^sup>* (pipeline_init slab_cap queue_cap, Map.empty) (p, g)" by blast
  from dead_is_parse [OF this assms(2,3)] show ?thesis by simp
qed

theorem only_parse_dies_witness:
  "\<exists>p. (pipeline_step \<lparr> landing_page = [], header_order = id, unicode_lower = id \<rparr>)\<^sup>*\<^sup>* (pipeline_init 1 2) p
    \<and> p_execs p 0 = EHold (ConnId 0) \<and> p_execs p 4 \<noteq> EDead"
proof -
  let ?env = "\<lparr> landing_page = [], header_order = id, unicode_lower = id \<rparr>"
  obtain p where "(pipeline_step ?env)\<^sup>*\<^sup>* (pipeline_init 1 2) p" "p_execs p 0 = EHold (ConnId 0)"
    using held_reachable by blast
  moreover have "p_execs p (Suc 3) \<noteq> EDead" by (rule only_parse_dies [OF calculation(1)]) simp_all
  then have "p_execs p 4 \<noteq> EDead" by simp
  ultimately show ?thesis by blast
qed

end
