(* ===== verification/Pipeline_Drain.thy ===== *)
theory Pipeline_Drain
  imports Pipeline_Data
begin

text \<open>
  The executors finish: \<open>run_loop\<close> of \<open>ners-core/src/executor.rs\<close> and the accept loop of
  \<open>main.rs\<close> only ever move a connection forward. Every connection in the pipeline has a bounded
  number of steps before it; a step that is not an accept either changes nothing (an empty poll,
  an accept with a full slab) or uses one of them up. So the threads cannot be busy for ever
  without new connections, and when nothing is left to do all queues are empty and all threads
  idle, except for the queue of a parse thread that has panicked.
\<close>

section \<open>The work left\<close>

text \<open>
  From queue \<open>i\<close> a connection is taken, processed and passed on, three steps for each stage to
  come; the main thread has one more step before.
\<close>

definition queue_work :: "nat \<Rightarrow> nat" where
  "queue_work i = 3 * (stage_count - i)"

fun exec_work :: "nat \<Rightarrow> exec_pc \<Rightarrow> nat" where
  "exec_work i (EHold _) = queue_work i - 1"
| "exec_work i (EPush _) = queue_work i - 2"
| "exec_work i _ = 0"

fun main_work :: "main_pc \<Rightarrow> nat" where
  "main_work MIdle = 0"
| "main_work (MPush _) = queue_work 0 + 1"

definition stage_work :: "pipeline \<Rightarrow> nat \<Rightarrow> nat" where
  "stage_work p i = queue_work i * length (ring_contents (p_queues p i)) + exec_work i (p_execs p i)"

definition work :: "pipeline \<Rightarrow> nat" where
  "work p = main_work (p_main p) + (\<Sum>i < stage_count. stage_work p i)"

text \<open>A step that does something and is not the arrival of a connection.\<close>

definition drain_step :: "stage_env \<Rightarrow> pipeline \<Rightarrow> pipeline \<Rightarrow> bool" where
  "drain_step env p p' \<longleftrightarrow> pipeline_step env p p' \<and> p' \<noteq> p \<and> \<not> (p_main p = MIdle \<and> p_main p' \<noteq> MIdle)"

lemma work_change:
  assumes "\<And>k. k < stage_count \<Longrightarrow> k \<noteq> i \<Longrightarrow> stage_work p' k = stage_work p k" and "i < stage_count"
  shows "work p' + stage_work p i + main_work (p_main p) = work p + stage_work p' i + main_work (p_main p')"
proof -
  have "(\<Sum>k \<in> {..<stage_count} - {i}. stage_work p' k) = (\<Sum>k \<in> {..<stage_count} - {i}. stage_work p k)"
    by (rule sum.cong) (use assms(1) in auto)
  then show ?thesis
    using sum.remove [of "{..<stage_count}" i "stage_work p'"] sum.remove [of "{..<stage_count}" i "stage_work p"]
      assms(2) by (simp add: work_def)
qed

lemma work_main: "(\<And>k. stage_work p' k = stage_work p k) \<Longrightarrow>
    work p' + main_work (p_main p) = work p + main_work (p_main p')"
  by (simp add: work_def)

lemma queue_work_next: "i < stage_count \<Longrightarrow> queue_work i = queue_work (i + 1) + 3"
  by (simp add: queue_work_def)

lemma after_process_work:
  assumes "i < stage_count"
  shows "exec_work i (after_process i r) < exec_work i (EHold cid)"
  using queue_work_next [OF assms]
  by (cases r) (auto simp: after_process_def split: option.split)

text \<open>
  The push of an identifier to queue \<open>k\<close>: the queue grows by at most one.
\<close>

lemma push_length:
  assumes "pipeline_inv n p" and "cid \<in> set (ids_at p l)" and "ring_push (p_queues p k) cid = (q, r)"
  shows "length (ring_contents q) \<le> length (ring_contents (p_queues p k)) + 1"
proof -
  have "id_ok cid" using live_index [OF assms(1) pipeline_invD(7) [OF assms(1,2)]] .
  from push_contents [OF pipeline_invD(4) [OF assms(1)] this assms(3)] show ?thesis
    by (elim conjE disjE) (simp_all del: length_ring_contents)
qed

lemma work_push:
  assumes inv: "pipeline_inv n p" and i: "i < stage_count" and at: "p_execs p i = EPush cid"
    and push: "ring_push (p_queues p (i + 1)) cid = (q, r)"
    and p': "p' = p\<lparr>p_queues := (p_queues p)(i + 1 := q), p_execs := (p_execs p)(i := EIdle)\<rparr>"
  shows "work p' < work p"
proof -
  let ?m = "p\<lparr>p_execs := (p_execs p)(i := EIdle)\<rparr>"
  note nx = queue_work_next [OF i]
  have 1: "work ?m + exec_work i (EPush cid) = work p"
    using work_change [of i ?m p] i at by (simp add: stage_work_def del: length_ring_contents)
  have len: "length (ring_contents q) \<le> length (ring_contents (p_queues p (i + 1))) + 1"
    by (rule push_length [OF inv _ push, of "AtExec i"]) (use at in simp)
  have "work p' \<le> work ?m + queue_work (i + 1)"
  proof (cases "i + 1 < stage_count")
    case True
    have "stage_work p' (i + 1) \<le> stage_work ?m (i + 1) + queue_work (i + 1)"
    proof -
      have "queue_work (i + 1) * length (ring_contents q) \<le> queue_work (i + 1) * (length (ring_contents (p_queues p (i + 1))) + 1)"
        using len by (rule mult_le_mono2)
      then show ?thesis by (simp add: stage_work_def p' del: length_ring_contents)
    qed
    moreover have "work p' + stage_work ?m (i + 1) = work ?m + stage_work p' (i + 1)"
      using work_change [of "i + 1" p' ?m] True by (simp add: stage_work_def p' del: length_ring_contents)
    ultimately show ?thesis by linarith
  next
    case False
    then have "stage_work p' k = stage_work ?m k" if "k < stage_count" for k
      using that by (simp add: stage_work_def p' del: length_ring_contents)
    then have "work p' = work ?m" by (simp add: work_def p')
    then show ?thesis by simp
  qed
  with 1 nx show ?thesis by simp
qed

lemma work_main_push:
  assumes inv: "pipeline_inv n p" and at: "p_main p = MPush cid" and push: "ring_push (p_queues p 0) cid = (q, r)"
    and p': "p_queues p' = (p_queues p)(0 := q)" "p_execs p' = p_execs p" "p_main p' = MIdle"
  shows "work p' < work p"
proof -
  have "length (ring_contents q) \<le> length (ring_contents (p_queues p 0)) + 1"
    by (rule push_length [OF inv _ push, of AtMain]) (use at in simp)
  then have "queue_work 0 * length (ring_contents q) \<le> queue_work 0 * (length (ring_contents (p_queues p 0)) + 1)"
    by (rule mult_le_mono2)
  then have "stage_work p' 0 \<le> stage_work p 0 + queue_work 0"
    by (simp add: stage_work_def p' del: length_ring_contents)
  moreover have "work p' + stage_work p 0 + main_work (p_main p) = work p + stage_work p' 0 + main_work (p_main p')"
    by (rule work_change) (simp_all add: stage_work_def p' stage_count_def del: length_ring_contents)
  ultimately show ?thesis by (simp add: at p')
qed

text \<open>Every step stutters, accepts a connection, or uses up work.\<close>

lemma step_work:
  assumes inv: "pipeline_inv n p" and step: "pipeline_step env p p'"
  shows "p' = p \<or> p_main p = MIdle \<and> p_main p' \<noteq> MIdle \<and> work p' = work p + queue_work 0 + 1 \<or> work p' < work p"
  using step
proof cases
  case (accept now s slab' cid)
  then have "work p' = work p + queue_work 0 + 1"
    using work_main [of p' p] by (simp add: stage_work_def del: length_ring_contents)
  with accept show ?thesis by simp
next
  case (accept_full now s slab')
  have "\<not> 0 < vacant_count (p_slab p)"
    using cs.insert_fresh [OF pipeline_invD(1) [OF inv], of "conn_new now s"] accept_full by auto
  with cs.insert_full [OF pipeline_invD(1) [OF inv], of "conn_new now s"] accept_full
  have "slab' = p_slab p" by simp
  with accept_full show ?thesis by simp
next
  case (queue_accepted cid q u)
  then show ?thesis by (intro disjI2 work_main_push [OF inv queue_accepted(2,3)]) simp_all
next
  case (drop_accepted cid q e)
  then show ?thesis by (intro disjI2 work_main_push [OF inv drop_accepted(2,3)]) simp_all
next
  case (take i q cid)
  from pop_contents [OF pipeline_invD(4) [OF inv] take(4)]
  have "length (ring_contents (p_queues p i)) = length (ring_contents q) + 1"
    by (simp del: length_ring_contents)
  then have "stage_work p i = stage_work p' i + 1"
    using take queue_work_next [OF take(2)] by (simp add: stage_work_def del: length_ring_contents)
  moreover have "work p' + stage_work p i + main_work (p_main p) = work p + stage_work p' i + main_work (p_main p')"
    by (rule work_change) (use take in \<open>simp_all add: stage_work_def del: length_ring_contents\<close>)
  ultimately show ?thesis using take by simp
next
  case (poll i q)
  with pop_contents [OF pipeline_invD(4) [OF inv] poll(4)] show ?thesis by simp
next
  case (process i cid slab' m' r)
  have "stage_work p' i < stage_work p i"
    using after_process_work [OF process(2), of r cid] process(1,3) by (simp add: stage_work_def del: length_ring_contents)
  moreover have "work p' + stage_work p i + main_work (p_main p) = work p + stage_work p' i + main_work (p_main p')"
    by (rule work_change) (use process in \<open>simp_all add: stage_work_def del: length_ring_contents\<close>)
  ultimately show ?thesis using process by simp
next
  case (pass i cid q u)
  with work_push [OF inv pass(2-4,1)] show ?thesis by simp
next
  case (pass_full i cid q e)
  with work_push [OF inv pass_full(2-4,1)] show ?thesis by simp
qed

section \<open>How much work there can be\<close>

text \<open>
  Every identifier in the pipeline is in one place and occupies a slot, and has at most sixteen
  steps before it.
\<close>

definition ids_of_stage :: "pipeline \<Rightarrow> nat \<Rightarrow> conn_id set" where
  "ids_of_stage p i = set (ids_at p (AtQueue i)) \<union> set (ids_at p (AtExec i))"

lemma stage_work_bound:
  assumes inv: "pipeline_inv n p"
  shows "stage_work p i \<le> 16 * card (ids_of_stage p i)"
proof -
  let ?q = "ids_at p (AtQueue i)" and ?e = "ids_at p (AtExec i)"
  have "set ?q \<inter> set ?e = {}" using pipeline_invD(6) [OF inv, of _ "AtQueue i" "AtExec i"] by blast
  then have "card (ids_of_stage p i) = card (set ?q) + card (set ?e)"
    unfolding ids_of_stage_def by (intro card_Un_disjoint) simp_all
  then have c: "card (ids_of_stage p i) = length ?q + length ?e"
    by (simp only: distinct_card [OF pipeline_invD(5) [OF inv]])
  have w: "queue_work i \<le> 15" by (simp add: queue_work_def stage_count_def)
  then have "exec_work i (p_execs p i) \<le> 16 * length ?e" by (cases "p_execs p i") simp_all
  moreover have "queue_work i * length ?q \<le> 16 * length ?q" using w by (intro mult_le_mono1) simp
  ultimately show ?thesis unfolding stage_work_def c ids_at.simps(2) by (simp only: distrib_left)
qed

lemma finite_live:
  assumes inv: "pipeline_inv n p"
  shows "finite {cid. slab_get (p_slab p) cid \<noteq> None}"
proof (rule finite_subset)
  show "{cid. slab_get (p_slab p) cid \<noteq> None} \<subseteq> ConnId ` {..<n}"
  proof
    fix cid assume "cid \<in> {cid. slab_get (p_slab p) cid \<noteq> None}"
    then obtain c where "slab_get (p_slab p) cid = Some c" by blast
    from slab_get_live [OF this] have "conn_index cid < n"
      using pipeline_invD(1,2) [OF inv] by (simp add: slab_wf_def)
    then show "cid \<in> ConnId ` {..<n}" by (cases cid) auto
  qed
qed simp

lemma work_bound:
  assumes inv: "pipeline_inv n p"
  shows "work p \<le> 16 * n"
proof -
  let ?live = "{cid. slab_get (p_slab p) cid \<noteq> None}"
  let ?main = "set (ids_at p AtMain)"
  have once: "k = l" if "x \<in> set (ids_at p k)" "x \<in> set (ids_at p l)" for x k l
    using pipeline_invD(6) [OF inv that] .
  have fin: "finite (ids_of_stage p i)" for i by (simp add: ids_of_stage_def del: ids_at.simps)
  have disj: "ids_of_stage p i \<inter> ids_of_stage p j = {}" if "i \<noteq> j" for i j
    using once that unfolding ids_of_stage_def by blast
  have main: "?main \<inter> ids_of_stage p i = {}" for i
    using once unfolding ids_of_stage_def by blast
  have "?main \<union> (\<Union>i < stage_count. ids_of_stage p i) \<subseteq> ?live"
    using pipeline_invD(7) [OF inv] unfolding ids_of_stage_def live_def by blast
  moreover note finite_live [OF inv]
  ultimately have "card (?main \<union> (\<Union>i < stage_count. ids_of_stage p i)) \<le> card ?live"
    by (intro card_mono)
  also have "card ?live \<le> n"
    using live_slots [OF pipeline_invD(1) [OF inv]] pipeline_invD(2) [OF inv] by linarith
  also have "card (?main \<union> (\<Union>i < stage_count. ids_of_stage p i)) = card ?main + (\<Sum>i < stage_count. card (ids_of_stage p i))"
  proof -
    have "card (\<Union>i < stage_count. ids_of_stage p i) = (\<Sum>i < stage_count. card (ids_of_stage p i))"
      by (rule card_UN_disjoint) (use fin disj in auto)
    moreover have "card (?main \<union> (\<Union>i < stage_count. ids_of_stage p i)) = card ?main + card (\<Union>i < stage_count. ids_of_stage p i)"
      by (rule card_Un_disjoint) (use fin main in blast)+
    ultimately show ?thesis by simp
  qed
  finally have total: "card ?main + (\<Sum>i < stage_count. card (ids_of_stage p i)) \<le> n" .
  have "main_work (p_main p) \<le> 16 * card ?main"
    by (cases "p_main p") (simp_all add: queue_work_def stage_count_def)
  moreover have "(\<Sum>i < stage_count. stage_work p i) \<le> (\<Sum>i < stage_count. 16 * card (ids_of_stage p i))"
    by (rule sum_mono) (rule stage_work_bound [OF inv])
  moreover have "(\<Sum>i < stage_count. 16 * card (ids_of_stage p i)) = 16 * (\<Sum>i < stage_count. card (ids_of_stage p i))"
    by (simp add: sum_distrib_left)
  ultimately show ?thesis using total unfolding work_def by linarith
qed

section \<open>Progress\<close>

text \<open>A live thread with something to do can do it.\<close>

lemma main_moves: "pipeline_step env p p' \<Longrightarrow> p_main p' = MIdle \<Longrightarrow> \<exists>p'. pipeline_step env p p' \<and> p_main p' = MIdle"
  by blast

lemma exec_moves:
  "pipeline_step env p p' \<Longrightarrow> p_execs p' i \<noteq> p_execs p i \<Longrightarrow> p_main p' = p_main p \<Longrightarrow>
   \<exists>p'. pipeline_step env p p' \<and> p_execs p' i \<noteq> p_execs p i \<and> p_main p' = p_main p"
  by blast

lemma main_can_move:
  assumes inv: "pipeline_inv n p" and at: "p_main p = MPush cid"
  shows "\<exists>p'. pipeline_step env p p' \<and> p_main p' = MIdle"
proof -
  have "id_ok cid" using live_index [OF inv pipeline_invD(7) [OF inv, of cid AtMain]] at by simp
  moreover obtain q r where push: "ring_push (p_queues p 0) cid = (q, r)" by (cases "ring_push (p_queues p 0) cid")
  ultimately consider u where "r = Inr u" | "r = Inl (Error cid)"
    using push_contents [OF pipeline_invD(4) [OF inv]] by blast
  then show ?thesis
  proof cases
    case 1
    with push have "pipeline_step env p (p\<lparr>p_queues := (p_queues p)(0 := q),
        p_metrics := inc_queue_len (lit ''parse'') (p_metrics p), p_main := MIdle\<rparr>)"
      by (intro queue_accepted [where cid = cid] at) simp
    then show ?thesis by (rule main_moves) simp
  next
    case 2
    with push have "pipeline_step env p (p\<lparr>p_queues := (p_queues p)(0 := q), p_main := MIdle\<rparr>)"
      by (intro drop_accepted [where cid = cid and e = cid] at) simp
    then show ?thesis by (rule main_moves) simp
  qed
qed

lemma exec_can_move:
  assumes inv: "pipeline_inv n p" and i: "i < stage_count" and alive: "p_execs p i \<noteq> EDead"
    and busy: "exec_ids (p_execs p i) \<noteq> [] \<or> ring_contents (p_queues p i) \<noteq> []"
  shows "\<exists>p'. pipeline_step env p p' \<and> p_execs p' i \<noteq> p_execs p i \<and> p_main p' = p_main p"
proof (cases "p_execs p i")
  case EIdle
  then obtain cid cids where "ring_contents (p_queues p i) = cid # cids"
    using busy by (cases "ring_contents (p_queues p i)") auto
  from rq.pop_some [OF pipeline_invD(4) [OF inv] this] obtain q where
    "ring_pop (p_queues p i) = (q, Inr (Some cid))" by blast
  from exec_moves [OF take [OF i EIdle this, where env = env], of i] EIdle show ?thesis by simp
next
  case (EHold cid)
  obtain slab' m' r where "stage_of env i cid (p_slab p) (p_metrics p) = ((slab', m'), r)"
    by (cases "stage_of env i cid (p_slab p) (p_metrics p)") auto
  moreover have "after_process i r \<noteq> EHold cid"
    by (auto simp: after_process_def split: sum.split option.split)
  ultimately show ?thesis using exec_moves [OF process [OF i EHold], of env slab' m' r i] EHold by simp
next
  case (EPush cid)
  have "id_ok cid" using live_index [OF inv pipeline_invD(7) [OF inv, of cid "AtExec i"]] EPush by simp
  moreover obtain q r where push: "ring_push (p_queues p (i + 1)) cid = (q, r)"
    by (cases "ring_push (p_queues p (i + 1)) cid")
  ultimately consider u where "r = Inr u" | "r = Inl (Error cid)"
    using push_contents [OF pipeline_invD(4) [OF inv]] by blast
  then have "pipeline_step env p (p\<lparr>p_queues := (p_queues p)(i + 1 := q), p_execs := (p_execs p)(i := EIdle)\<rparr>)"
    by cases (use push pass [OF i EPush] pass_full [OF i EPush] in blast)+
  from exec_moves [OF this, of i] EPush show ?thesis by simp
qed (use alive in simp)

lemma main_can_step: "pipeline_inv n p \<Longrightarrow> p_main p = MPush cid \<Longrightarrow> \<exists>p'. drain_step env p p'"
  using main_can_move [of n p cid env] by (force simp: drain_step_def)

lemma exec_can_step:
  "pipeline_inv n p \<Longrightarrow> i < stage_count \<Longrightarrow> p_execs p i \<noteq> EDead \<Longrightarrow>
   exec_ids (p_execs p i) \<noteq> [] \<or> ring_contents (p_queues p i) \<noteq> [] \<Longrightarrow> \<exists>p'. drain_step env p p'"
  using exec_can_move [of n p i env] by (force simp: drain_step_def)

lemma drain_run:
  assumes "pipeline_inv n p" and "(drain_step env ^^ k) p p'"
  shows "pipeline_inv n p' \<and> (pipeline_step env)\<^sup>*\<^sup>* p p' \<and> k + work p' \<le> work p"
  using assms(2)
proof (induction k arbitrary: p')
  case (Suc k)
  then obtain q where q: "(drain_step env ^^ k) p q" "drain_step env q p'" by auto
  from Suc.IH [OF q(1)] have q': "pipeline_inv n q" "(pipeline_step env)\<^sup>*\<^sup>* p q" "k + work q \<le> work p" by simp_all
  have st: "pipeline_step env q p'" and "work p' < work q"
    using q(2) step_work [OF q'(1), of env p'] by (auto simp: drain_step_def)
  with q' pipeline_inv_step [OF q'(1) st] show ?case by auto
qed (use assms(1) in simp)

text \<open>A state in which nobody can do anything.\<close>

definition stuck :: "stage_env \<Rightarrow> pipeline \<Rightarrow> bool" where
  "stuck env p \<longleftrightarrow> (\<forall>p'. \<not> drain_step env p p')"

lemma stuck_is_empty:
  assumes inv: "pipeline_inv n p" and alive: "\<And>i. 0 < i \<Longrightarrow> p_execs p i \<noteq> EDead" and stuck: "stuck env p"
  shows "p_main p = MIdle \<and> (\<forall>i < stage_count. exec_ids (p_execs p i) = []
    \<and> (ring_contents (p_queues p i) = [] \<or> i = 0 \<and> p_execs p 0 = EDead))"
proof -
  have no: "\<not> (\<exists>p'. drain_step env p p')" using stuck by (simp add: stuck_def)
  have "exec_ids (p_execs p i) = [] \<and> (ring_contents (p_queues p i) = [] \<or> i = 0 \<and> p_execs p 0 = EDead)"
    if i: "i < stage_count" for i
  proof (cases "p_execs p i = EDead")
    case True
    with alive [of i] show ?thesis by (cases "i = 0") simp_all
  next
    case False
    with exec_can_step [OF inv i] no show ?thesis by blast
  qed
  moreover have "p_main p = MIdle" using main_can_step [OF inv] no by (cases "p_main p") blast+
  ultimately show ?thesis by blast
qed

section \<open>Properties\<close>

text \<open>
  C6: The server drains. From every state it can reach, the threads take at most sixteen steps
  for each slot of the slab, however they interleave, without a new connection; and when none of
  them can do anything any more, nobody holds a connection and all queues are empty, except that
  the queue of the parse stage stays as it is when its thread has panicked.
\<close>

theorem pipeline_drains:
  assumes "(pipeline_step env)\<^sup>*\<^sup>* (pipeline_init slab_cap queue_cap) p"
    and "slab_cap < 2 ^ 64" and "0 < queue_cap" and "(drain_step env ^^ k) p p'"
  shows "k \<le> 16 * slab_cap
    \<and> (stuck env p' \<longrightarrow> p_main p' = MIdle
        \<and> (\<forall>i < stage_count. exec_ids (p_execs p' i) = []
            \<and> (ring_contents (p_queues p' i) = [] \<or> i = 0 \<and> p_execs p' 0 = EDead)))"
proof -
  note inv = pipeline_inv_reachable [OF assms(1-3)]
  from drain_run [OF inv assms(4)] have p': "pipeline_inv slab_cap p'" "(pipeline_step env)\<^sup>*\<^sup>* p p'" "k \<le> work p"
    by simp_all
  from run_tracked [OF rtranclp_trans [OF assms(1) p'(2)], of Map.empty] obtain g where
    "(tracked_step env)\<^sup>*\<^sup>* (pipeline_init slab_cap queue_cap, Map.empty) (p', g)" by blast
  from dead_is_parse [OF this assms(2,3)] have "\<And>i. 0 < i \<Longrightarrow> p_execs p' i \<noteq> EDead" by blast
  from stuck_is_empty [OF p'(1) this] p'(3) work_bound [OF inv] show ?thesis by (meson order_trans)
qed

text \<open>From every state some run of such steps ends where nobody can do anything.\<close>

lemma drain_to_stuck:
  assumes inv: "pipeline_inv n p"
  shows "\<exists>k p'. (drain_step env ^^ k) p p' \<and> stuck env p'"
proof -
  define K where "K = {k. \<exists>p'. (drain_step env ^^ k) p p'}"
  have "K \<subseteq> {..work p}"
    using drain_run [OF inv, of _ env] by (fastforce simp: K_def)
  then have fin: "finite K" by (rule finite_subset) simp
  have "0 \<in> K" by (auto simp: K_def)
  then have "Max K \<in> K" using fin by (intro Max_in) auto
  then obtain p' where p': "(drain_step env ^^ Max K) p p'" by (auto simp: K_def)
  have "\<not> drain_step env p' q" for q
  proof
    assume "drain_step env p' q"
    with p' have "Suc (Max K) \<in> K" by (auto simp: K_def)
    with Max_ge [OF fin this] show False by simp
  qed
  with p' show ?thesis by (auto simp: stuck_def)
qed

theorem pipeline_drains_witness:
  "\<exists>k p p'. (drain_step \<lparr> landing_page = [], header_order = id, unicode_lower = id \<rparr> ^^ k) p p'
    \<and> p_execs p 0 = EHold (ConnId 0) \<and> k \<le> 16 * 1 \<and> p_main p' = MIdle"
proof -
  let ?env = "\<lparr> landing_page = [], header_order = id, unicode_lower = id \<rparr>"
  obtain p where p: "(pipeline_step ?env)\<^sup>*\<^sup>* (pipeline_init 1 2) p" "p_execs p 0 = EHold (ConnId 0)"
    using held_reachable by blast
  have inv: "pipeline_inv 1 p" by (rule pipeline_inv_reachable [OF p(1)]) simp_all
  from drain_to_stuck [OF inv] obtain k p' where k: "(drain_step ?env ^^ k) p p'" "stuck ?env p'" by blast
  have "k \<le> 16 * 1 \<and> (stuck ?env p' \<longrightarrow> p_main p' = MIdle
      \<and> (\<forall>i < stage_count. exec_ids (p_execs p' i) = []
        \<and> (ring_contents (p_queues p' i) = [] \<or> i = 0 \<and> p_execs p' 0 = EDead)))"
    by (rule pipeline_drains [OF p(1) _ _ k(1)]) simp_all
  with k p(2) show ?thesis by blast
qed

end
