(* ===== verification/Single_Round.thy ===== *)
theory Single_Round
  imports Pipeline_Data
begin

text \<open>
  The six single-threaded stages of \<open>ners-core/src/stage.rs\<close> together: each as an object with the
  queues it was built with, over a slab, metrics and queues they share. The lemmas take a batch
  of connections through each stage, and all of them through one round.
\<close>

section \<open>Stages as objects\<close>

text \<open>
  The queues are shared (\<open>Arc\<close>), so an object holds which queues it has, and a call works on the
  lane that these make with the shared slab and metrics. A stage without an input or an output
  queue never touches that part of the lane.
\<close>

record single_server =
  ss_slab :: conn_slab
  ss_metrics :: metrics_collector
  ss_queues :: "nat \<Rightarrow> ring_queue"

record single_stage =
  st_name :: str
  st_input :: "nat option"
  st_output :: "nat option"
  st_process :: "lane \<Rightarrow> lane \<times> (unit, unit) result"

definition queue_at :: "nat option \<Rightarrow> single_server \<Rightarrow> ring_queue" where
  "queue_at i srv = (case i of None \<Rightarrow> ring_new 1 | Some k \<Rightarrow> ss_queues srv k)"

definition lane_of :: "single_stage \<Rightarrow> single_server \<Rightarrow> lane" where
  "lane_of st srv =
     \<lparr> l_slab = ss_slab srv, l_metrics = ss_metrics srv, l_in = queue_at (st_input st) srv,
       l_out = queue_at (st_output st) srv \<rparr>"

definition put_queue :: "nat option \<Rightarrow> ring_queue \<Rightarrow> single_server \<Rightarrow> single_server" where
  "put_queue i q srv = (case i of None \<Rightarrow> srv | Some k \<Rightarrow> srv\<lparr>ss_queues := (ss_queues srv)(k := q)\<rparr>)"

definition put_lane :: "single_stage \<Rightarrow> lane \<Rightarrow> single_server \<Rightarrow> single_server" where
  "put_lane st l srv =
     put_queue (st_output st) (l_out l) (put_queue (st_input st) (l_in l)
       (srv\<lparr>ss_slab := l_slab l, ss_metrics := l_metrics l\<rparr>))"

text \<open>The constructors: what \<open>new\<close> stores and what \<open>name\<close> and \<open>process\<close> are.\<close>

definition parse_stage_new :: "stage_env \<Rightarrow> nat \<Rightarrow> nat \<Rightarrow> single_stage" where
  "parse_stage_new env input output =
     \<lparr> st_name = lit ''parse'', st_input = Some input, st_output = Some output, st_process = parse_stage env \<rparr>"

definition route_stage_new :: "nat \<Rightarrow> nat \<Rightarrow> single_stage" where
  "route_stage_new input output =
     \<lparr> st_name = lit ''route'', st_input = Some input, st_output = Some output, st_process = route_stage \<rparr>"

definition app_stage_new :: "stage_env \<Rightarrow> nat \<Rightarrow> nat \<Rightarrow> single_stage" where
  "app_stage_new env input output =
     \<lparr> st_name = lit ''app'', st_input = Some input, st_output = Some output, st_process = app_stage env \<rparr>"

definition encode_stage_new :: "nat \<Rightarrow> nat \<Rightarrow> single_stage" where
  "encode_stage_new input output =
     \<lparr> st_name = lit ''encode'', st_input = Some input, st_output = Some output, st_process = encode_stage \<rparr>"

definition net_out_stage_new :: "nat \<Rightarrow> single_stage" where
  "net_out_stage_new input =
     \<lparr> st_name = lit ''net_out'', st_input = Some input, st_output = None, st_process = net_out_stage \<rparr>"

text \<open>The input stage is an object with its listener; what is left of it is returned.\<close>

definition net_in_stage_new ::
    "instant \<Rightarrow> (io_error + tcp_stream) list \<Rightarrow> nat \<Rightarrow> single_stage" where
  "net_in_stage_new now listener parse_queue =
     \<lparr> st_name = lit ''net_in'', st_input = None, st_output = Some parse_queue,
       st_process = (\<lambda>l. snd (net_in_stage now listener l)) \<rparr>"

definition call_process :: "single_stage \<Rightarrow> single_server \<Rightarrow> single_server \<times> (unit, unit) result" where
  "call_process st srv =
     (case st_process st (lane_of st srv) of (l, r) \<Rightarrow> (put_lane st l srv, r))"

text \<open>Calling \<open>process\<close> of one stage after the other, until one panics.\<close>

fun call_all :: "single_stage list \<Rightarrow> single_server \<Rightarrow> single_server \<times> (unit, unit) result" where
  "call_all [] srv = (srv, Inr ())"
| "call_all (st # sts) srv =
     (case call_process st srv of
        (srv', Inr _) \<Rightarrow> call_all sts srv'
      | (srv', Inl e) \<Rightarrow> (srv', Inl e))"

section \<open>A batch of connections through a stage\<close>

text \<open>
  What the stages have in common: given a live connection that is ready for the stage, and room
  in the output queue, handling it gives the connection its result (\<open>None\<close>: it is removed),
  touches no other, and passes it on unless the stage is the last one.
\<close>

definition batch_effect :: "conn_id \<Rightarrow> conn_state option \<Rightarrow> bool \<Rightarrow> lane \<Rightarrow> lane \<Rightarrow> bool" where
  "batch_effect cid c' passes l l' \<longleftrightarrow>
     slab_wf (l_slab l') \<and> slab_capacity (l_slab l') = slab_capacity (l_slab l)
     \<and> (\<forall>j. slab_get (l_slab l') j = (if j = cid then c' else slab_get (l_slab l) j))
     \<and> l_in l' = l_in l \<and> ring_inv (l_out l') \<and> ring_room (l_out l') = ring_room (l_out l)
     \<and> ring_contents (l_out l') = ring_contents (l_out l) @ (if passes then [cid] else [])"

locale batch_stage =
  fixes handle :: "conn_id \<Rightarrow> lane \<Rightarrow> lane \<times> (unit, unit) result"
    and ready :: "conn_state \<Rightarrow> bool"
    and result :: "conn_state \<Rightarrow> conn_state option"
    and passes :: bool
    and count :: "metrics_collector \<Rightarrow> metrics_collector"
  assumes handles: "slab_wf (l_slab l) \<Longrightarrow> slab_get (l_slab l) cid = Some c \<Longrightarrow> ready c \<Longrightarrow>
      id_ok cid \<Longrightarrow> ring_inv (l_out l) \<Longrightarrow> passes \<longrightarrow> length (ring_contents (l_out l)) < ring_room (l_out l) \<Longrightarrow>
      \<exists>l'. handle cid l = (l', Inr ())
        \<and> batch_effect cid (result c) passes l l' \<and> l_metrics l' = count (l_metrics l)"
begin

lemma batch:
  assumes "slab_wf (l_slab l)" and "ring_inv (l_in l)" and "ring_contents (l_in l) = cids" and "ring_inv (l_out l)"
    and "passes \<longrightarrow> length (ring_contents (l_out l)) + length cids \<le> ring_room (l_out l)"
    and "distinct cids" and "length cids \<le> n"
    and "\<forall>cid \<in> set cids. \<exists>c. slab_get (l_slab l) cid = Some c \<and> ready c"
  shows "\<exists>l'. stage_loop n handle l = (l', Inr ()) \<and> slab_wf (l_slab l') \<and> slab_capacity (l_slab l') = slab_capacity (l_slab l)
    \<and> (\<forall>j. slab_get (l_slab l') j
          = (if j \<in> set cids then Option.bind (slab_get (l_slab l) j) result else slab_get (l_slab l) j))
    \<and> ring_inv (l_in l') \<and> ring_room (l_in l') = ring_room (l_in l) \<and> ring_contents (l_in l') = []
    \<and> ring_inv (l_out l') \<and> ring_room (l_out l') = ring_room (l_out l)
    \<and> ring_contents (l_out l') = ring_contents (l_out l) @ (if passes then cids else [])
    \<and> l_metrics l' = (count ^^ length cids) (l_metrics l)"
  using assms
proof (induction cids arbitrary: n l)
  case Nil
  from rq.pop_none [OF Nil.prems(2,3)] have pop: "ring_pop (l_in l) = (l_in l, Inr None)" .
  then have "stage_loop n handle l = (l, Inr ())" by (cases n) simp_all
  with Nil.prems show ?case by (intro exI [of _ l]) simp
next
  case (Cons cid cids)
  then obtain k where n: "n = Suc k" "length cids \<le> k" by (cases n) auto
  from rq.pop_some [OF Cons.prems(2,3)] obtain q where
    q: "ring_pop (l_in l) = (q, Inr (Some cid))" "ring_inv q" "ring_contents q = cids" "ring_room q = ring_room (l_in l)"
    by blast
  have "cid = ConnId (conn_index cid)" "conn_index cid \<in> set (ring_words (l_in l))"
    using Cons.prems(3) unfolding ring_contents_def by auto
  then have ok: "id_ok cid" using Cons.prems(2) unfolding ring_inv_def id_ok_def by metis
  from Cons.prems(8) obtain c where c: "slab_get (l_slab l) cid = Some c" "ready c" by auto
  let ?l = "l\<lparr>l_in := q\<rparr>"
  have "passes \<longrightarrow> length (ring_contents (l_out ?l)) < ring_room (l_out ?l)" using Cons.prems(5) by auto
  from handles [of ?l cid c, OF _ _ c(2) ok _ this] Cons.prems(1,4) c(1) obtain l1 where
    1: "handle cid ?l = (l1, Inr ())" "slab_wf (l_slab l1)" "slab_capacity (l_slab l1) = slab_capacity (l_slab l)"
      "\<forall>j. slab_get (l_slab l1) j = (if j = cid then result c else slab_get (l_slab l) j)"
      "l_in l1 = q" "ring_inv (l_out l1)" "ring_room (l_out l1) = ring_room (l_out l)"
      "ring_contents (l_out l1) = ring_contents (l_out l) @ (if passes then [cid] else [])"
      "l_metrics l1 = count (l_metrics l)"
    by (auto simp: batch_effect_def)
  have "\<forall>x \<in> set cids. \<exists>c. slab_get (l_slab l1) x = Some c \<and> ready c" using Cons.prems(6,8) 1(4) by auto
  moreover have "passes \<longrightarrow> length (ring_contents (l_out l1)) + length cids \<le> ring_room (l_out l1)"
    using Cons.prems(5) 1(7,8) by auto
  ultimately obtain l' where
    l': "stage_loop k handle l1 = (l', Inr ())" "slab_wf (l_slab l')" "slab_capacity (l_slab l') = slab_capacity (l_slab l1)"
      "\<forall>j. slab_get (l_slab l') j
          = (if j \<in> set cids then Option.bind (slab_get (l_slab l1) j) result else slab_get (l_slab l1) j)"
      "ring_inv (l_in l')" "ring_room (l_in l') = ring_room (l_in l1)" "ring_contents (l_in l') = []"
      "ring_inv (l_out l')" "ring_room (l_out l') = ring_room (l_out l1)"
      "ring_contents (l_out l') = ring_contents (l_out l1) @ (if passes then cids else [])"
      "l_metrics l' = (count ^^ length cids) (l_metrics l1)"
    using Cons.IH [of l1 k] Cons.prems(6) 1(2,5,6) q(2,3) n(2) by auto
  have "stage_loop n handle l = (l', Inr ())" using l'(1) by (simp add: n(1) q(1) 1(1))
  moreover have "slab_get (l_slab l') j = (if j \<in> set (cid # cids) then Option.bind (slab_get (l_slab l) j) result
      else slab_get (l_slab l) j)" for j
    using l'(4) 1(4) c(1) Cons.prems(6) by auto
  moreover have "l_metrics l' = (count ^^ length (cid # cids)) (l_metrics l)"
    using l'(11) 1(9) by (simp add: funpow_swap1)
  ultimately show ?case using l' 1 q(4) by (intro exI [of _ l']) auto
qed

end

section \<open>The five stages\<close>

definition parse_ready :: "stage_env \<Rightarrow> conn_state \<Rightarrow> bool" where
  "parse_ready env c \<longleftrightarrow> (case http_parse (unicode_lower env) (read_buf (read_into c)) of Inr _ \<Rightarrow> True | Inl _ \<Rightarrow> False)"

definition parse_result :: "stage_env \<Rightarrow> conn_state \<Rightarrow> conn_state option" where
  "parse_result env c =
     (case http_parse (unicode_lower env) (read_buf (read_into c)) of
        Inr (request, _) \<Rightarrow> Some ((read_into c)\<lparr>request_method := Some (rq_method request),
          request_path := Some (rq_path request), lifecycle := Routed, read_buf := []\<rparr>)
      | Inl _ \<Rightarrow> None)"

definition route_result :: "conn_state \<Rightarrow> conn_state option" where
  "route_result c = Some (c\<lparr>route := Some (route_of (request_path c)), lifecycle := Processing\<rparr>)"

definition app_result :: "stage_env \<Rightarrow> conn_state \<Rightarrow> conn_state option" where
  "app_result env c = Some ((run_handler env c)\<lparr>lifecycle := Sending\<rparr>)"

definition out_ready :: "conn_state \<Rightarrow> bool" where
  "out_ready c \<longleftrightarrow>
     (case stream c of
        None \<Rightarrow> False
      | Some s \<Rightarrow> snd (write_all s (write_buf c) 0) = Inr (length (write_buf c)))
     \<and> bytes_written c = 0"

abbreviation (input) moved :: "str \<Rightarrow> str \<Rightarrow> metrics_collector \<Rightarrow> metrics_collector" where
  "moved from to m \<equiv> inc_queue_len to (dec_queue_len from m)"

lemma push_out_room:
  assumes "ring_inv (l_out l)" and "id_ok cid" and "length (ring_contents (l_out l)) < ring_room (l_out l)"
  shows "\<exists>q. push_out name cid l = (l\<lparr>l_out := q, l_metrics := inc_queue_len name (l_metrics l)\<rparr>, Inr ())
    \<and> ring_push (l_out l) cid = (q, Inr ())
    \<and> ring_inv q \<and> ring_room q = ring_room (l_out l) \<and> ring_contents q = ring_contents (l_out l) @ [cid]"
proof -
  from rq.push_room [OF assms] obtain q where "ring_push (l_out l) cid = (q, Inr ())" "ring_inv q"
    "ring_contents q = ring_contents (l_out l) @ [cid]" "ring_room q = ring_room (l_out l)" by blast
  then show ?thesis by (intro exI [of _ q]) (simp add: push_out_def on_metrics_def)
qed

text \<open>A stage that changes the connection and passes it on.\<close>

lemma handles_push:
  assumes "slab_wf (l_slab l)" and "slab_get (l_slab l) cid = Some c" and "id_ok cid" and "ring_inv (l_out l)"
    and "length (ring_contents (l_out l)) < ring_room (l_out l)"
    and "handle cid l = push_out name cid (l\<lparr>l_slab := slab_put (l_slab l) cid c', l_metrics := m\<rparr>)"
  shows "\<exists>l'. handle cid l = (l', Inr ())
        \<and> batch_effect cid (Some c') True l l' \<and> l_metrics l' = inc_queue_len name m"
proof -
  let ?l = "l\<lparr>l_slab := slab_put (l_slab l) cid c', l_metrics := m\<rparr>"
  from push_out_room [of ?l cid name] assms(3-5) obtain q where
    "push_out name cid ?l = (?l\<lparr>l_out := q, l_metrics := inc_queue_len name (l_metrics ?l)\<rparr>, Inr ())"
    "ring_inv q" "ring_room q = ring_room (l_out l)" "ring_contents q = ring_contents (l_out l) @ [cid]"
    by auto
  with assms(6) slab_put_contract [OF assms(1,2)] show ?thesis by (auto simp: batch_effect_def)
qed

interpretation parse_batch: batch_stage "parse_handle env" "parse_ready env" "parse_result env" True
  "moved (lit ''parse'') (lit ''route'')" for env
proof
  fix l :: lane and cid c
  assume a: "slab_wf (l_slab l)" "slab_get (l_slab l) cid = Some c" "parse_ready env c" "id_ok cid" "ring_inv (l_out l)"
    "True \<longrightarrow> length (ring_contents (l_out l)) < ring_room (l_out l)"
  from a(3) obtain request n where
    p: "http_parse (unicode_lower env) (read_buf (read_into c)) = Inr (request, n)"
    by (auto simp: parse_ready_def split: sum.splits)
  let ?c = "(read_into c)\<lparr>request_method := Some (rq_method request),
    request_path := Some (rq_path request), lifecycle := Routed, read_buf := []\<rparr>"
  have "parse_handle env cid l = push_out (lit ''route'') cid
      (l\<lparr>l_slab := slab_put (l_slab l) cid ?c, l_metrics := dec_queue_len (lit ''parse'') (l_metrics l)\<rparr>)"
    using a(2) p by (simp add: parse_handle_def put_conn_def on_metrics_def Let_def lane_update_swap)
  from handles_push [where handle = "parse_handle env", OF a(1,2,4,5) _ this] a(6)
  show "\<exists>l'. parse_handle env cid l = (l', Inr ())
        \<and> batch_effect cid (parse_result env c) True l l' \<and> l_metrics l' = moved (lit ''parse'') (lit ''route'') (l_metrics l)"
    by (simp add: parse_result_def p)
qed

interpretation route_batch: batch_stage route_handle "\<lambda>_. True" route_result True
  "moved (lit ''route'') (lit ''app'')"
proof
  fix l :: lane and cid c
  assume a: "slab_wf (l_slab l)" "slab_get (l_slab l) cid = Some c" True "id_ok cid" "ring_inv (l_out l)"
    "True \<longrightarrow> length (ring_contents (l_out l)) < ring_room (l_out l)"
  have "route_handle cid l = push_out (lit ''app'') cid
      (l\<lparr>l_slab := slab_put (l_slab l) cid (c\<lparr>route := Some (route_of (request_path c)), lifecycle := Processing\<rparr>),
         l_metrics := dec_queue_len (lit ''route'') (l_metrics l)\<rparr>)"
    using a(2) by (simp add: route_handle_def put_conn_def on_metrics_def Let_def lane_update_swap)
  from handles_push [where handle = "route_handle", OF a(1,2,4,5) _ this] a(6)
  show "\<exists>l'. route_handle cid l = (l', Inr ())
        \<and> batch_effect cid (route_result c) True l l' \<and> l_metrics l' = moved (lit ''route'') (lit ''app'') (l_metrics l)"
    by (simp add: route_result_def)
qed

interpretation app_batch: batch_stage "app_handle env" "\<lambda>_. True" "app_result env" True
  "\<lambda>m. inc_queue_len (lit ''net_out'') (inc_total_requests (dec_queue_len (lit ''app'') m))" for env
proof
  fix l :: lane and cid c
  assume a: "slab_wf (l_slab l)" "slab_get (l_slab l) cid = Some c" True "id_ok cid" "ring_inv (l_out l)"
    "True \<longrightarrow> length (ring_contents (l_out l)) < ring_room (l_out l)"
  have "app_handle env cid l = push_out (lit ''net_out'') cid
      (l\<lparr>l_slab := slab_put (l_slab l) cid ((run_handler env c)\<lparr>lifecycle := Sending\<rparr>),
         l_metrics := inc_total_requests (dec_queue_len (lit ''app'') (l_metrics l))\<rparr>)"
    using a(2) by (simp add: app_handle_def put_conn_def on_metrics_def Let_def)
  from handles_push [where handle = "app_handle env", OF a(1,2,4,5) _ this] a(6)
  show "\<exists>l'. app_handle env cid l = (l', Inr ())
        \<and> batch_effect cid (app_result env c) True l l' \<and> l_metrics l' = inc_queue_len (lit ''net_out'') (inc_total_requests (dec_queue_len (lit ''app'') (l_metrics l)))"
    by (simp add: app_result_def)
qed

interpretation encode_batch: batch_stage encode_handle "\<lambda>_. True" Some True id
proof
  fix l :: lane and cid c
  assume a: "slab_wf (l_slab l)" "slab_get (l_slab l) cid = Some c" True "id_ok cid" "ring_inv (l_out l)"
    "True \<longrightarrow> length (ring_contents (l_out l)) < ring_room (l_out l)"
  from rq.push_room [OF a(5,4)] a(6) obtain q where
    "ring_push (l_out l) cid = (q, Inr ())" "ring_inv q" "ring_contents q = ring_contents (l_out l) @ [cid]"
    "ring_room q = ring_room (l_out l)" by auto
  then show "\<exists>l'. encode_handle cid l = (l', Inr ())
        \<and> batch_effect cid (Some c) True l l' \<and> l_metrics l' = id (l_metrics l)"
    using a(1,2) by (intro exI [of _ "l\<lparr>l_out := q\<rparr>"]) (simp add: encode_handle_def batch_effect_def)
qed

interpretation net_out_batch: batch_stage net_out_handle out_ready "\<lambda>_. None" False
  "\<lambda>m. dec_total_conns (dec_queue_len (lit ''net_out'') m)"
proof
  fix l :: lane and cid c
  assume a: "slab_wf (l_slab l)" "slab_get (l_slab l) cid = Some c" "out_ready c" "id_ok cid" "ring_inv (l_out l)"
    "False \<longrightarrow> length (ring_contents (l_out l)) < ring_room (l_out l)"
  from a(3) obtain s where s: "stream c = Some s" "snd (write_all s (write_buf c) 0) = Inr (length (write_buf c))"
    "bytes_written c = 0"
    by (auto simp: out_ready_def split: option.splits)
  from write_all_whole [OF s(2)] obtain s' where
    w: "write_all s (write_buf c) 0 = (s', Inr (length (write_buf c)))" by blast
  let ?c = "c\<lparr>stream := Some s', bytes_written := length (write_buf c), lifecycle := LcClosed\<rparr>"
  from slab_put_contract [where c' = ?c, OF a(1,2)] have
    p: "slab_wf (slab_put (l_slab l) cid ?c)" "slab_get (slab_put (l_slab l) cid ?c) cid = Some ?c" by simp_all
  from remove_conn_contract [OF p, of "l_metrics l"] obtain slab' where
    rem: "remove_conn cid (slab_put (l_slab l) cid ?c) (l_metrics l) = ((slab', l_metrics l), Inr None)" "slab_wf slab'"
      "slab_capacity slab' = slab_capacity (l_slab l)"
      "\<forall>j. slab_get slab' j = (if j = cid then None else slab_get (slab_put (l_slab l) cid ?c) j)" by auto
  from rem(1) have "slab_remove (slab_put (l_slab l) cid ?c) cid = (slab', Inr ())"
    by (auto simp: remove_conn_def split: prod.splits sum.splits)
  then have "net_out_handle cid l = (l\<lparr>l_slab := slab',
      l_metrics := dec_total_conns (dec_queue_len (lit ''net_out'') (l_metrics l))\<rparr>, Inr ())"
    using a(2) s(1,3) w
    by (simp add: net_out_handle_def remove_from_def put_conn_def on_metrics_def Let_def)
  then show "\<exists>l'. net_out_handle cid l = (l', Inr ())
        \<and> batch_effect cid (None) False l l' \<and> l_metrics l' = dec_total_conns (dec_queue_len (lit ''net_out'') (l_metrics l))"
    using rem(2-4) a(5) slab_put_contract(2) [OF a(1,2)] by (simp add: batch_effect_def)
qed

section \<open>A batch accepted\<close>

lemma accept_all_ready: "accept_all (map Inr ss) = ([], ss)"
  by (induction ss) simp_all

lemma net_in_batch:
  assumes "slab_wf (l_slab l)" and "slab_capacity (l_slab l) < 2 ^ 64" and "ring_inv (l_out l)"
    and "length (ring_contents (l_out l)) + length ss \<le> ring_room (l_out l)"
    and "length ss \<le> vacant_count (l_slab l)"
  shows "\<exists>l' cids. net_in_loop now ss l = (l', Inr ()) \<and> length cids = length ss \<and> distinct cids
    \<and> slab_wf (l_slab l') \<and> slab_capacity (l_slab l') = slab_capacity (l_slab l)
    \<and> (\<forall>cid \<in> set cids. slab_get (l_slab l) cid = None)
    \<and> (\<forall>j. slab_get (l_slab l') j = (case map_of (zip cids ss) j of
          None \<Rightarrow> slab_get (l_slab l) j | Some s \<Rightarrow> Some (conn_new now s)))
    \<and> l_in l' = l_in l \<and> ring_inv (l_out l') \<and> ring_room (l_out l') = ring_room (l_out l)
    \<and> ring_contents (l_out l') = ring_contents (l_out l) @ cids
    \<and> l_metrics l' = ((\<lambda>m. inc_queue_len (lit ''parse'') (inc_total_conns m)) ^^ length ss) (l_metrics l)"
  using assms
proof (induction ss arbitrary: l)
  case Nil
  then show ?case by (intro exI [of _ l] exI [of _ "[]"]) simp
next
  case (Cons s ss)
  then have vac: "0 < vacant_count (l_slab l)" by simp
  from cs.insert_fresh [OF Cons.prems(1) vac, of "conn_new now s"] obtain slab cid where
    ins: "slab_insert (l_slab l) (conn_new now s) = (slab, Inr (Some cid))" "slab_get (l_slab l) cid = None" "slab_wf slab"
      "vacant_count slab = vacant_count (l_slab l) - 1"
      "\<forall>j. slab_get slab j = (if j = cid then Some (conn_new now s) else slab_get (l_slab l) j)" by blast
  have cap: "slab_capacity slab = slab_capacity (l_slab l)"
    using ins(1) by (auto simp: slab_insert_def Let_def split: if_splits)
  have "slab_get slab cid = Some (conn_new now s)" using ins(5) by simp
  from slab_get_live [OF this] have "conn_index cid < slab_capacity (l_slab l)"
    using ins(3) cap by (simp add: slab_wf_def)
  then have ok: "id_ok cid" using Cons.prems(2) by (simp add: id_ok_def USIZE_MAX_def)
  let ?l = "on_metrics inc_total_conns (l\<lparr>l_slab := slab\<rparr>)"
  have "ring_inv (l_out ?l)" "length (ring_contents (l_out ?l)) < ring_room (l_out ?l)"
    using Cons.prems(3,4) by (simp_all add: on_metrics_def)
  from push_out_room [OF this(1) ok this(2), of "lit ''parse''"] obtain q where
    q: "push_out (lit ''parse'') cid ?l = (?l\<lparr>l_out := q, l_metrics := inc_queue_len (lit ''parse'') (l_metrics ?l)\<rparr>, Inr ())"
      "ring_inv q" "ring_room q = ring_room (l_out l)" "ring_contents q = ring_contents (l_out l) @ [cid]"
    by (auto simp: on_metrics_def)
  define l1 where "l1 = ?l\<lparr>l_out := q, l_metrics := inc_queue_len (lit ''parse'') (l_metrics ?l)\<rparr>"
  have f: "l_slab l1 = slab" "l_in l1 = l_in l" "l_out l1 = q"
    "l_metrics l1 = inc_queue_len (lit ''parse'') (inc_total_conns (l_metrics l))"
    by (simp_all add: l1_def on_metrics_def)
  have "slab_wf (l_slab l1)" "slab_capacity (l_slab l1) < 2 ^ 64" "ring_inv (l_out l1)"
    "length (ring_contents (l_out l1)) + length ss \<le> ring_room (l_out l1)" "length ss \<le> vacant_count (l_slab l1)"
    using ins cap q Cons.prems by (simp_all add: f)
  from Cons.IH [OF this] obtain l' cids where
    l': "net_in_loop now ss l1 = (l', Inr ())" "length cids = length ss" "distinct cids" "slab_wf (l_slab l')"
      "slab_capacity (l_slab l') = slab_capacity slab" "\<forall>x \<in> set cids. slab_get slab x = None"
      "\<forall>j. slab_get (l_slab l') j = (case map_of (zip cids ss) j of
          None \<Rightarrow> slab_get slab j | Some s \<Rightarrow> Some (conn_new now s))"
      "l_in l' = l_in l" "ring_inv (l_out l')" "ring_room (l_out l') = ring_room q"
      "ring_contents (l_out l') = ring_contents q @ cids"
      "l_metrics l' = ((\<lambda>m. inc_queue_len (lit ''parse'') (inc_total_conns m)) ^^ length ss) (l_metrics l1)"
    unfolding f by blast
  have new: "cid \<notin> set cids" using l'(6) ins(5) by auto
  have "map_of (zip cids ss) cid = None" using new l'(2) by (auto simp: map_of_eq_None_iff dest: set_zip_leftD)
  then have get: "slab_get (l_slab l') j = (case map_of (zip (cid # cids) (s # ss)) j of
      None \<Rightarrow> slab_get (l_slab l) j | Some s \<Rightarrow> Some (conn_new now s))" for j
    using l'(7) ins(5) by (auto split: option.split)
  have "slab_get (l_slab l) x = None" if "x \<in> set cids" for x
    using l'(6) ins(5) that by (metis option.distinct(1))
  moreover have "net_in_loop now (s # ss) l = (l', Inr ())" using l'(1) by (simp add: ins(1) q(1) l1_def)
  moreover have "l_metrics l' = ((\<lambda>m. inc_queue_len (lit ''parse'') (inc_total_conns m)) ^^ length (s # ss)) (l_metrics l)"
    using l'(12) by (simp add: f funpow_Suc_right del: funpow.simps)
  ultimately show ?case
    using l' q cap new ins(2) get by (intro exI [of _ l'] exI [of _ "cid # cids"]) (simp del: zip_Cons_Cons map_of.simps)
qed

section \<open>A batch through the objects\<close>

text \<open>All queued connections are in queue \<open>i\<close>, at most as many as one call handles.\<close>

definition batch_at :: "nat \<Rightarrow> conn_id list \<Rightarrow> nat \<Rightarrow> single_server \<Rightarrow> bool" where
  "batch_at i cids n srv \<longleftrightarrow> slab_wf (ss_slab srv) \<and> distinct cids \<and> length cids \<le> n \<and> n \<le> 100
     \<and> (\<forall>j. ring_inv (ss_queues srv j) \<and> n \<le> ring_room (ss_queues srv j)
          \<and> ring_contents (ss_queues srv j) = (if j = i then cids else []))"

lemma lane_of_fields [simp]:
  "l_slab (lane_of st srv) = ss_slab srv" "l_metrics (lane_of st srv) = ss_metrics srv"
  "l_in (lane_of st srv) = queue_at (st_input st) srv" "l_out (lane_of st srv) = queue_at (st_output st) srv"
  by (simp_all add: lane_of_def)

context batch_stage
begin

lemma call_batch:
  assumes at: "batch_at i cids n srv" and st: "st_process st = stage_loop 100 handle" "st_input st = Some i"
    "st_output st = (if passes then Some k else None)" "i \<noteq> k"
    and ready: "\<forall>cid \<in> set cids. \<exists>c. slab_get (ss_slab srv) cid = Some c \<and> ready c"
  shows "\<exists>srv'. call_process st srv = (srv', Inr ())
    \<and> batch_at k (if passes then cids else []) n srv' \<and> slab_capacity (ss_slab srv') = slab_capacity (ss_slab srv)
    \<and> (\<forall>j. slab_get (ss_slab srv') j
          = (if j \<in> set cids then Option.bind (slab_get (ss_slab srv) j) result else slab_get (ss_slab srv) j))
    \<and> ss_metrics srv' = (count ^^ length cids) (ss_metrics srv)"
proof -
  let ?l = "lane_of st srv"
  have pre: "slab_wf (l_slab ?l)" "ring_inv (l_in ?l)" "ring_contents (l_in ?l) = cids" "distinct cids" "length cids \<le> 100"
    "\<forall>cid \<in> set cids. \<exists>c. slab_get (l_slab ?l) cid = Some c \<and> ready c"
    using at st ready by (simp_all add: batch_at_def queue_at_def)
  have "passes \<Longrightarrow> ring_contents (ss_queues srv k) = [] \<and> length cids \<le> ring_room (ss_queues srv k)"
    using at st(4) unfolding batch_at_def by (metis order_trans)
  then have room: "passes \<longrightarrow> length (ring_contents (l_out ?l)) + length cids \<le> ring_room (l_out ?l)"
    using st(3) by (auto simp: queue_at_def simp del: length_ring_contents)
  have out: "ring_inv (l_out ?l)"
    using at st(3) ring_inv_new [of 1] by (simp add: batch_at_def queue_at_def)
  from batch [OF pre(1-3) out room pre(4,5,6)] obtain l' where
    l': "stage_loop 100 handle ?l = (l', Inr ())" "slab_wf (l_slab l')" "slab_capacity (l_slab l') = slab_capacity (ss_slab srv)"
      "\<forall>j. slab_get (l_slab l') j
          = (if j \<in> set cids then Option.bind (slab_get (ss_slab srv) j) result else slab_get (ss_slab srv) j)"
      "ring_inv (l_in l')" "ring_room (l_in l') = ring_room (l_in ?l)" "ring_contents (l_in l') = []"
      "ring_inv (l_out l')" "ring_room (l_out l') = ring_room (l_out ?l)"
      "ring_contents (l_out l') = ring_contents (l_out ?l) @ (if passes then cids else [])"
      "l_metrics l' = (count ^^ length cids) (ss_metrics srv)"
    by auto
  have "batch_at k (if passes then cids else []) n (put_lane st l' srv)"
    using at l' st
    by (auto simp: batch_at_def put_lane_def put_queue_def queue_at_def simp del: length_ring_contents)
  moreover have "call_process st srv = (put_lane st l' srv, Inr ())"
    by (simp add: call_process_def st(1) l'(1))
  ultimately show ?thesis
    using l' st(2,3) by (intro exI [of _ "put_lane st l' srv"]) (auto simp: put_lane_def put_queue_def)
qed

end

section \<open>What the stages do to a new connection\<close>

text \<open>
  A socket that holds a complete request: the parser accepts what can be read from it without
  waiting. The response the code gives to this request, and whether the socket takes all of it while
  the output stage is writing; it need not, and a long response rarely fits into a socket's buffer.
\<close>

definition complete_request :: "stage_env \<Rightarrow> tcp_stream \<Rightarrow> bool" where
  "complete_request env s \<longleftrightarrow>
     (case http_parse (unicode_lower env) (available (rx s)) of Inl _ \<Rightarrow> False | Inr _ \<Rightarrow> True)"

definition answer_for :: "stage_env \<Rightarrow> tcp_stream \<Rightarrow> bytes" where
  "answer_for env s = to_bytes (header_order env) (response_for env (the (parsed_path env s)))"

definition takes_response :: "stage_env \<Rightarrow> tcp_stream \<Rightarrow> bool" where
  "takes_response env s \<longleftrightarrow> snd (write_all s (answer_for env s) 0) = Inr (length (answer_for env s))"

text \<open>Waiting to be written: the whole answer, on the socket the connection came with.\<close>

definition answered :: "stage_env \<Rightarrow> tcp_stream \<Rightarrow> conn_state \<Rightarrow> bool" where
  "answered env s c \<longleftrightarrow> write_buf c = answer_for env s
     \<and> (case stream c of
          None \<Rightarrow> False
        | Some s1 \<Rightarrow> (case write_all s1 (write_buf c) (bytes_written c) of
            (s2, r) \<Rightarrow> r = Inr (length (answer_for env s)) \<and> wire s2 = wire s @ answer_for env s))"

lemma read_new:
  "read_buf (read_into (conn_new now s)) = available (rx s)
   \<and> (\<exists>s1. read_into (conn_new now s) = (conn_new now s)\<lparr>stream := Some s1, read_buf := available (rx s)\<rparr>
        \<and> tx s1 = tx s \<and> wire s1 = wire s)"
proof -
  obtain s1 buf r where rd: "read_all s [] = (s1, buf, r)" by (cases "read_all s []")
  from read_all_available [OF this] have "buf = available (rx s)" "tx s1 = tx s" "wire s1 = wire s" by simp_all
  with rd show ?thesis by (simp add: read_into_def conn_new_def)
qed

lemma stages_answer:
  assumes "complete_request env s" and "takes_response env s"
  shows "parse_ready env (conn_new now s)
    \<and> (\<exists>c. Option.bind (Option.bind (parse_result env (conn_new now s)) route_result) (app_result env) = Some c
        \<and> out_ready c \<and> answered env s c)"
proof -
  from assms(1) obtain request n where
    p: "http_parse (unicode_lower env) (available (rx s)) = Inr (request, n)"
    by (auto simp: complete_request_def split: sum.splits)
  from read_new [of now s] obtain s1 where
    rd: "read_buf (read_into (conn_new now s)) = available (rx s)"
      "read_into (conn_new now s) = (conn_new now s)\<lparr>stream := Some s1, read_buf := available (rx s)\<rparr>"
      "tx s1 = tx s" "wire s1 = wire s" by blast
  have fields: "stream (read_into (conn_new now s)) = Some s1" "write_buf (read_into (conn_new now s)) = []"
    "bytes_written (read_into (conn_new now s)) = 0"
    unfolding rd(2) by (simp_all add: conn_new_def)
  have path: "parsed_path env s = Some (rq_path request)" by (rule parsed_path_Some [OF p])
  let ?resp = "to_bytes (header_order env) (response_for env (rq_path request))"
  let ?c1 = "(read_into (conn_new now s))\<lparr>request_method := Some (rq_method request),
    request_path := Some (rq_path request), lifecycle := Routed, read_buf := []\<rparr>"
  let ?c2 = "?c1\<lparr>route := Some (route_of (Some (rq_path request))), lifecycle := Processing\<rparr>"
  let ?c3 = "(run_handler env ?c2)\<lparr>lifecycle := Sending\<rparr>"
  have "parse_result env (conn_new now s) = Some ?c1" using p rd(1) by (simp add: parse_result_def)
  moreover have "route_result ?c1 = Some ?c2" by (simp add: route_result_def)
  moreover have "app_result env ?c2 = Some ?c3" by (simp add: app_result_def)
  moreover have "stream ?c3 = Some s1" "write_buf ?c3 = ?resp" "bytes_written ?c3 = 0"
    unfolding run_handler_response by (simp_all add: respond_def fields)
  moreover have "snd (write_all s1 ?resp 0) = Inr (length ?resp)"
    using write_all_outcome [OF rd(3), of ?resp 0] assms(2) by (simp add: takes_response_def answer_for_def path)
  moreover from write_all_whole [OF this] rd(4) obtain s2 where
    "write_all s1 ?resp 0 = (s2, Inr (length ?resp))" "wire s2 = wire s @ ?resp" by auto
  moreover have "parse_ready env (conn_new now s)" using p rd(1) by (simp add: parse_ready_def)
  ultimately show ?thesis
    by (simp add: out_ready_def answered_def answer_for_def path)
qed

section \<open>The metrics of a round\<close>

definition queue_gauge :: "str \<Rightarrow> metrics_collector \<Rightarrow> u64 option" where
  "queue_gauge name m = map_option current_queue_len (stage name m)"

lemma queue_gauge_ops:
  "queue_gauge name (inc_queue_len x m) = map_option (\<lambda>n. n + (if name = x then 1 else 0)) (queue_gauge name m)"
  "queue_gauge name (dec_queue_len x m) = map_option (\<lambda>n. n - (if name = x then 1 else 0)) (queue_gauge name m)"
  "queue_gauge name (inc_total_requests m) = queue_gauge name m"
  "queue_gauge name (inc_total_conns m) = queue_gauge name m" "queue_gauge name (dec_total_conns m) = queue_gauge name m"
  by (auto simp: queue_gauge_def stage_def inc_queue_len_def dec_queue_len_def on_stage_def hm_get_modify
      stage_inc_queue_len_def stage_dec_queue_len_def inc_total_requests_def inc_total_conns_def dec_total_conns_def
      option.map_comp comp_def)

lemma total_requests_simps [simp]:
  "total_requests (inc_queue_len x m) = total_requests m" "total_requests (dec_queue_len x m) = total_requests m"
  "total_requests (inc_total_conns m) = total_requests m" "total_requests (dec_total_conns m) = total_requests m"
  "total_requests (inc_total_requests m) = total_requests m + 1" "total_conns (dec_queue_len x m) = total_conns m"
  by (simp_all add: inc_queue_len_def dec_queue_len_def on_stage_def inc_total_conns_def dec_total_conns_def
      inc_total_requests_def)

text \<open>A count that is repeated \<open>n\<close> times.\<close>

lemma counted:
  fixes a b c :: u64
  assumes "\<And>m. queue_gauge name (f m) = map_option (\<lambda>x. x + a) (queue_gauge name m)"
    and "\<And>m. total_requests (f m) = total_requests m + b" and "\<And>m. total_conns (f m) = total_conns m + c"
  shows "queue_gauge name ((f ^^ n) m) = map_option (\<lambda>x. x + of_nat n * a) (queue_gauge name m)
    \<and> total_requests ((f ^^ n) m) = total_requests m + of_nat n * b
    \<and> total_conns ((f ^^ n) m) = total_conns m + of_nat n * c"
proof (induction n)
  case 0
  show ?case by (cases "queue_gauge name m") simp_all
next
  case (Suc n)
  then show ?case by (cases "queue_gauge name m") (simp_all add: assms algebra_simps)
qed

section \<open>A round\<close>

text \<open>A server with nothing queued, and room for \<open>n\<close> more connections everywhere.\<close>

definition idle_server :: "nat \<Rightarrow> single_server \<Rightarrow> bool" where
  "idle_server n srv \<longleftrightarrow> slab_wf (ss_slab srv) \<and> slab_capacity (ss_slab srv) < 2 ^ 64
     \<and> n \<le> vacant_count (ss_slab srv) \<and> n \<le> 100
     \<and> (\<forall>j. ring_inv (ss_queues srv j) \<and> n \<le> ring_room (ss_queues srv j) \<and> ring_contents (ss_queues srv j) = [])"

lemma net_in_call:
  assumes idle: "idle_server n srv" and n: "length ss = n"
  shows "\<exists>srv' cids. call_process (net_in_stage_new now (map Inr ss) k) srv = (srv', Inr ())
    \<and> batch_at k cids n srv' \<and> length cids = n \<and> slab_capacity (ss_slab srv') = slab_capacity (ss_slab srv)
    \<and> (\<forall>cid \<in> set cids. slab_get (ss_slab srv) cid = None)
    \<and> (\<forall>j. slab_get (ss_slab srv') j = (case map_of (zip cids ss) j of
          None \<Rightarrow> slab_get (ss_slab srv) j | Some s \<Rightarrow> Some (conn_new now s)))
    \<and> ss_metrics srv' = ((\<lambda>m. inc_queue_len (lit ''parse'') (inc_total_conns m)) ^^ n) (ss_metrics srv)"
proof -
  let ?st = "net_in_stage_new now (map Inr ss) k"
  let ?l = "lane_of ?st srv"
  have pre: "slab_wf (l_slab ?l)" "slab_capacity (l_slab ?l) < 2 ^ 64" "ring_inv (l_out ?l)"
    "length (ring_contents (l_out ?l)) + length ss \<le> ring_room (l_out ?l)" "length ss \<le> vacant_count (l_slab ?l)"
    using idle n by (simp_all add: idle_server_def net_in_stage_new_def queue_at_def del: length_ring_contents)
  from net_in_batch [OF pre, of now] obtain l' cids where
    l': "net_in_loop now ss ?l = (l', Inr ())" "length cids = length ss" "distinct cids" "slab_wf (l_slab l')"
      "slab_capacity (l_slab l') = slab_capacity (ss_slab srv)" "\<forall>cid \<in> set cids. slab_get (ss_slab srv) cid = None"
      "\<forall>j. slab_get (l_slab l') j = (case map_of (zip cids ss) j of
          None \<Rightarrow> slab_get (ss_slab srv) j | Some s \<Rightarrow> Some (conn_new now s))"
      "ring_inv (l_out l')" "ring_room (l_out l') = ring_room (l_out ?l)"
      "ring_contents (l_out l') = ring_contents (l_out ?l) @ cids"
      "l_metrics l' = ((\<lambda>m. inc_queue_len (lit ''parse'') (inc_total_conns m)) ^^ length ss) (ss_metrics srv)"
    unfolding lane_of_fields by blast
  have "call_process ?st srv = (put_lane ?st l' srv, Inr ())"
    using l'(1) by (simp add: call_process_def net_in_stage_new_def net_in_stage_def accept_all_ready)
  moreover have "batch_at k cids n (put_lane ?st l' srv)"
    using idle l' n
    by (auto simp: batch_at_def idle_server_def put_lane_def put_queue_def net_in_stage_new_def queue_at_def
        simp del: length_ring_contents)
  ultimately show ?thesis
    using l' n by (intro exI [of _ "put_lane ?st l' srv"] exI [of _ cids])
      (simp add: put_lane_def put_queue_def net_in_stage_new_def)
qed

text \<open>The calls of the other stages.\<close>

definition batch_call :: "single_stage \<Rightarrow> conn_id list \<Rightarrow> (conn_state \<Rightarrow> conn_state option)
    \<Rightarrow> (metrics_collector \<Rightarrow> metrics_collector) \<Rightarrow> single_server \<Rightarrow> single_server \<Rightarrow> bool" where
  "batch_call st cids result counts srv srv' \<longleftrightarrow> call_process st srv = (srv', Inr ())
     \<and> (\<forall>j. slab_get (ss_slab srv') j
          = (if j \<in> set cids then Option.bind (slab_get (ss_slab srv) j) result else slab_get (ss_slab srv) j))
     \<and> ss_metrics srv' = (counts ^^ length cids) (ss_metrics srv)"

lemma stages_are_loops:
  "parse_stage env = stage_loop 100 (parse_handle env)" "route_stage = stage_loop 100 route_handle"
  "app_stage env = stage_loop 100 (app_handle env)" "encode_stage = stage_loop 100 encode_handle"
  "net_out_stage = stage_loop 100 net_out_handle"
  by (simp_all add: fun_eq_iff parse_stage_def route_stage_def app_stage_def encode_stage_def net_out_stage_def)

lemma parse_call:
  assumes "batch_at i cids n srv" and "i \<noteq> k"
    and "\<forall>cid \<in> set cids. \<exists>c. slab_get (ss_slab srv) cid = Some c \<and> parse_ready env c"
  shows "\<exists>srv'. batch_call (parse_stage_new env i k) cids (parse_result env) (moved (lit ''parse'') (lit ''route'')) srv srv'
    \<and> batch_at k cids n srv'"
  using parse_batch.call_batch [OF assms(1), of "parse_stage_new env i k" env k] assms(2,3)
  by (auto simp: parse_stage_new_def stages_are_loops batch_call_def)

lemma route_call:
  assumes "batch_at i cids n srv" and "i \<noteq> k" and "\<forall>cid \<in> set cids. slab_get (ss_slab srv) cid \<noteq> None"
  shows "\<exists>srv'. batch_call (route_stage_new i k) cids route_result (moved (lit ''route'') (lit ''app'')) srv srv'
    \<and> batch_at k cids n srv'"
  using route_batch.call_batch [OF assms(1), of "route_stage_new i k" k] assms(2,3)
  by (auto simp: route_stage_new_def stages_are_loops batch_call_def)

lemma app_call:
  assumes "batch_at i cids n srv" and "i \<noteq> k" and "\<forall>cid \<in> set cids. slab_get (ss_slab srv) cid \<noteq> None"
  shows "\<exists>srv'. batch_call (app_stage_new env i k) cids (app_result env)
      (\<lambda>m. inc_queue_len (lit ''net_out'') (inc_total_requests (dec_queue_len (lit ''app'') m))) srv srv'
    \<and> batch_at k cids n srv'"
  using app_batch.call_batch [OF assms(1), of "app_stage_new env i k" env k] assms(2,3)
  by (auto simp: app_stage_new_def stages_are_loops batch_call_def)

lemma encode_call:
  assumes "batch_at i cids n srv" and "i \<noteq> k" and "\<forall>cid \<in> set cids. slab_get (ss_slab srv) cid \<noteq> None"
  shows "\<exists>srv'. batch_call (encode_stage_new i k) cids Some id srv srv' \<and> batch_at k cids n srv'"
  using encode_batch.call_batch [OF assms(1), of "encode_stage_new i k" k] assms(2,3)
  by (auto simp: encode_stage_new_def stages_are_loops batch_call_def)

lemma net_out_call:
  assumes "batch_at i cids n srv"
    and "\<forall>cid \<in> set cids. \<exists>c. slab_get (ss_slab srv) cid = Some c \<and> out_ready c"
  shows "\<exists>srv'. batch_call (net_out_stage_new i) cids (\<lambda>_. None)
      (\<lambda>m. dec_total_conns (dec_queue_len (lit ''net_out'') m)) srv srv'
    \<and> (\<forall>j. ring_contents (ss_queues srv' j) = [])"
proof -
  from net_out_batch.call_batch [OF assms(1), of "net_out_stage_new i" "Suc i"] assms(2) obtain srv' where
    "batch_call (net_out_stage_new i) cids (\<lambda>_. None) (\<lambda>m. dec_total_conns (dec_queue_len (lit ''net_out'') m)) srv srv'"
    "batch_at (Suc i) [] n srv'"
    by (auto simp: net_out_stage_new_def stages_are_loops batch_call_def)
  then show ?thesis by (intro exI [of _ srv']) (simp add: batch_at_def)
qed

text \<open>The five counts of a connection cancel out, except that one request is counted.\<close>

lemma round_counts:
  fixes m :: metrics_collector
  assumes "m0 = ((\<lambda>m. inc_queue_len (lit ''parse'') (inc_total_conns m)) ^^ n) m"
    and "m1 = (moved (lit ''parse'') (lit ''route'') ^^ n) m0"
    and "m2 = (moved (lit ''route'') (lit ''app'') ^^ n) m1"
    and "m3 = ((\<lambda>m. inc_queue_len (lit ''net_out'') (inc_total_requests (dec_queue_len (lit ''app'') m))) ^^ n) m2"
    and "m4 = ((\<lambda>m. dec_total_conns (dec_queue_len (lit ''net_out'') m)) ^^ n) m3"
  shows "queue_gauge name m4 = queue_gauge name m \<and> total_requests m4 = total_requests m + of_nat n
    \<and> total_conns m4 = total_conns m"
proof -
  define a :: "string \<Rightarrow> u64" where "a x = (if name = lit x then 1 else 0)" for x
  note gauge = queue_gauge_ops option.map_comp comp_def a_def [symmetric]
  have 0: "queue_gauge name m0 = map_option (\<lambda>x. x + of_nat n * a ''parse'') (queue_gauge name m)
      \<and> total_requests m0 = total_requests m + of_nat n * 0 \<and> total_conns m0 = total_conns m + of_nat n * 1"
    unfolding assms(1) by (rule counted) (simp_all add: gauge)
  have 1: "queue_gauge name m1 = map_option (\<lambda>x. x + of_nat n * (a ''route'' - a ''parse'')) (queue_gauge name m0)
      \<and> total_requests m1 = total_requests m0 + of_nat n * 0 \<and> total_conns m1 = total_conns m0 + of_nat n * 0"
    unfolding assms(2) by (rule counted) (simp_all add: gauge algebra_simps)
  have 2: "queue_gauge name m2 = map_option (\<lambda>x. x + of_nat n * (a ''app'' - a ''route'')) (queue_gauge name m1)
      \<and> total_requests m2 = total_requests m1 + of_nat n * 0 \<and> total_conns m2 = total_conns m1 + of_nat n * 0"
    unfolding assms(3) by (rule counted) (simp_all add: gauge algebra_simps)
  have 3: "queue_gauge name m3 = map_option (\<lambda>x. x + of_nat n * (a ''net_out'' - a ''app'')) (queue_gauge name m2)
      \<and> total_requests m3 = total_requests m2 + of_nat n * 1 \<and> total_conns m3 = total_conns m2 + of_nat n * 0"
    unfolding assms(4) by (rule counted) (simp_all add: gauge algebra_simps)
  have 4: "queue_gauge name m4 = map_option (\<lambda>x. x + of_nat n * (- a ''net_out'')) (queue_gauge name m3)
      \<and> total_requests m4 = total_requests m3 + of_nat n * 0 \<and> total_conns m4 = total_conns m3 + of_nat n * (- 1)"
    unfolding assms(5) by (rule counted) (simp_all add: gauge algebra_simps)
  have "queue_gauge name m4 = map_option (\<lambda>x. x) (queue_gauge name m)"
    using 0 1 2 3 4 by (simp add: option.map_comp comp_def algebra_simps)
  with 0 1 2 3 4 show ?thesis by (simp add: option.map_ident)
qed

text \<open>A batch of new connections through the four stages in the middle.\<close>

lemma middle_calls:
  assumes at: "batch_at 0 cids n srv0" and len: "length cids = length ss"
    and new: "\<And>i. i < length ss \<Longrightarrow> slab_get (ss_slab srv0) (cids ! i) = Some (conn_new now (ss ! i))"
    and complete: "\<forall>s \<in> set ss. complete_request env s \<and> takes_response env s"
  shows "\<exists>srv5. call_all [parse_stage_new env 0 1, route_stage_new 1 2, app_stage_new env 2 3, encode_stage_new 3 4] srv0
      = (srv5, Inr ()) \<and> batch_at 4 cids n srv5
    \<and> (\<forall>i < length ss. \<exists>c. slab_get (ss_slab srv5) (cids ! i) = Some c \<and> out_ready c \<and> answered env (ss ! i) c)
    \<and> (\<forall>j. j \<notin> set cids \<longrightarrow> slab_get (ss_slab srv5) j = slab_get (ss_slab srv0) j)
    \<and> ss_metrics srv5 = ((\<lambda>m. inc_queue_len (lit ''net_out'') (inc_total_requests (dec_queue_len (lit ''app'') m))) ^^ length ss)
        ((moved (lit ''route'') (lit ''app'') ^^ length ss)
          ((moved (lit ''parse'') (lit ''route'') ^^ length ss) (ss_metrics srv0)))"
proof -
  let ?n = "length ss"
  have all: "\<forall>cid \<in> set cids. P cid" if "\<And>i. i < ?n \<Longrightarrow> P (cids ! i)" for P :: "conn_id \<Rightarrow> bool"
    using that len by (metis in_set_conv_nth)
  have answer: "parse_ready env (conn_new now (ss ! i))"
    "\<exists>c. Option.bind (Option.bind (parse_result env (conn_new now (ss ! i))) route_result) (app_result env) = Some c
      \<and> out_ready c \<and> answered env (ss ! i) c" if "i < ?n" for i
    using stages_answer [of env "ss ! i" now] complete that by simp_all
  have r0: "\<forall>cid \<in> set cids. \<exists>c. slab_get (ss_slab srv0) cid = Some c \<and> parse_ready env c"
    by (rule all) (use new answer(1) in blast)
  from parse_call [OF at _ r0, of 1] obtain srv1 where
    1: "batch_call (parse_stage_new env 0 1) cids (parse_result env) (moved (lit ''parse'') (lit ''route'')) srv0 srv1"
      "batch_at 1 cids n srv1" by auto
  have g1: "slab_get (ss_slab srv1) (cids ! i) = parse_result env (conn_new now (ss ! i))" if "i < ?n" for i
    using 1(1) new that len by (simp add: batch_call_def)
  have l1: "\<forall>cid \<in> set cids. slab_get (ss_slab srv1) cid \<noteq> None"
    by (rule all) (use g1 answer(2) in \<open>fastforce simp: bind_eq_Some_conv\<close>)
  from route_call [OF 1(2) _ l1, of 2] obtain srv2 where
    2: "batch_call (route_stage_new 1 2) cids route_result (moved (lit ''route'') (lit ''app'')) srv1 srv2"
      "batch_at 2 cids n srv2" by auto
  have g2: "slab_get (ss_slab srv2) (cids ! i) = Option.bind (parse_result env (conn_new now (ss ! i))) route_result" if "i < ?n" for i
    using 2(1) g1 [OF that] that len by (simp add: batch_call_def)
  have l2: "\<forall>cid \<in> set cids. slab_get (ss_slab srv2) cid \<noteq> None"
    by (rule all) (use g2 answer(2) in \<open>fastforce simp: bind_eq_Some_conv\<close>)
  from app_call [OF 2(2) _ l2, of 3 env] obtain srv3 where
    3: "batch_call (app_stage_new env 2 3) cids (app_result env)
      (\<lambda>m. inc_queue_len (lit ''net_out'') (inc_total_requests (dec_queue_len (lit ''app'') m))) srv2 srv3"
      "batch_at 3 cids n srv3" by auto
  have g3: "\<exists>c. slab_get (ss_slab srv3) (cids ! i) = Some c \<and> out_ready c \<and> answered env (ss ! i) c" if "i < ?n" for i
    using 3(1) g2 [OF that] answer(2) [OF that] that len by (simp add: batch_call_def)
  have l3: "\<forall>cid \<in> set cids. slab_get (ss_slab srv3) cid \<noteq> None" by (rule all) (use g3 in auto)
  from encode_call [OF 3(2) _ l3, of 4] obtain srv5 where
    4: "batch_call (encode_stage_new 3 4) cids Some id srv3 srv5" "batch_at 4 cids n srv5" by auto
  from 1(1) 2(1) 3(1) 4 g3 len show ?thesis by (intro exI [of _ srv5]) (simp add: batch_call_def)
qed

text \<open>A client with a complete request that takes the response, for the witnesses.\<close>

lemma one_request_complete:
  fixes env s
  defines "env \<equiv> \<lparr> landing_page = [60], header_order = id, unicode_lower = id \<rparr>"
  defines "s \<equiv> \<lparr> rx = [ReadOk (request_head [71] [47] [49] [(lit ''Content-Length'', [0x32])] @ [104, 105])],
      tx = [WriteOk (length (to_bytes id (response_for env [47])))], wire = [] \<rparr>"
  shows "complete_request env s \<and> takes_response env s"
proof -
  have lower: "unicode_lower env = id" by (simp add: env_def)
  have av: "available (rx s) = request_head [71] [47] [49] [(lit ''Content-Length'', [0x32])] @ [104, 105]"
    by (simp add: s_def)
  from simple_request_parses obtain req n where
    "http_parse (unicode_lower env) (available (rx s)) = Inr (req, n)" "rq_path req = [47]"
    unfolding lower av by blast
  then have "complete_request env s" and "answer_for env s = to_bytes id (response_for env [47])"
    by (simp_all add: complete_request_def answer_for_def parsed_path_def) (simp add: env_def)
  moreover from this(2) have "snd (write_all s (answer_for env s) 0) = Inr (length (answer_for env s))"
    using remaining_written [of "answer_for env s" s] by (fastforce simp: to_bytes_def s_def)
  ultimately show ?thesis by (simp add: takes_response_def)
qed

section \<open>Properties\<close>

text \<open>
  C8: On an idle server, one round of the single-threaded stages answers up to a hundred connections
  whose sockets take the whole response. The server has nothing queued, and a slot and a place in
  every queue for each pending connection (\<open>idle_server\<close>); every pending connection has a complete
  request (\<open>complete_request\<close>), and its socket takes all of its response while the output stage is
  writing (\<open>takes_response\<close>), which is a premise on the network. Then one call of \<open>process\<close> per
  stage, in order, accepts them all, leads each to the output queue with exactly the response the
  code gives to its own request (404 for all paths but \<open>/\<close> and \<open>/api/test\<close>, \<open>/health\<close> included)
  waiting for its own socket, and writes it; afterwards every queue is empty, every slot is as it
  was, one request per connection has been counted, and the gauges of all queues and of the
  connections are back at what they were.
\<close>

theorem single_round_answers:
  assumes idle: "idle_server (length ss) srv"
    and complete: "\<forall>s \<in> set ss. complete_request env s \<and> takes_response env s"
  shows "\<exists>srv5 cids srv6.
    call_all [net_in_stage_new now (map Inr ss) 0, parse_stage_new env 0 1, route_stage_new 1 2,
      app_stage_new env 2 3, encode_stage_new 3 4] srv = (srv5, Inr ())
    \<and> length cids = length ss \<and> ring_contents (ss_queues srv5 4) = cids
    \<and> (\<forall>i < length ss. slab_get (ss_slab srv) (cids ! i) = None
        \<and> (\<exists>c. slab_get (ss_slab srv5) (cids ! i) = Some c \<and> answered env (ss ! i) c))
    \<and> call_process (net_out_stage_new 4) srv5 = (srv6, Inr ())
    \<and> (\<forall>j. ring_contents (ss_queues srv6 j) = []) \<and> slab_get (ss_slab srv6) = slab_get (ss_slab srv)
    \<and> (\<forall>name. queue_gauge name (ss_metrics srv6) = queue_gauge name (ss_metrics srv))
    \<and> total_requests (ss_metrics srv6) = total_requests (ss_metrics srv) + of_nat (length ss)
    \<and> total_conns (ss_metrics srv6) = total_conns (ss_metrics srv)"
proof -
  let ?n = "length ss"
  from net_in_call [OF idle refl] obtain srv0 cids where
    0: "call_process (net_in_stage_new now (map Inr ss) 0) srv = (srv0, Inr ())" "batch_at 0 cids ?n srv0"
      "length cids = ?n" "\<forall>cid \<in> set cids. slab_get (ss_slab srv) cid = None"
      "\<forall>j. slab_get (ss_slab srv0) j = (case map_of (zip cids ss) j of
          None \<Rightarrow> slab_get (ss_slab srv) j | Some s \<Rightarrow> Some (conn_new now s))"
      "ss_metrics srv0 = ((\<lambda>m. inc_queue_len (lit ''parse'') (inc_total_conns m)) ^^ ?n) (ss_metrics srv)"
    by blast
  have dist: "distinct cids" using 0(2) by (simp add: batch_at_def)
  have new: "slab_get (ss_slab srv0) (cids ! i) = Some (conn_new now (ss ! i))" if "i < ?n" for i
    using 0(3,5) that map_of_zip_nth [OF 0(3) dist] by simp
  from middle_calls [OF 0(2,3) new complete] obtain srv5 where
    5: "call_all [parse_stage_new env 0 1, route_stage_new 1 2, app_stage_new env 2 3, encode_stage_new 3 4] srv0
        = (srv5, Inr ())" "batch_at 4 cids ?n srv5"
      "\<And>i. i < ?n \<Longrightarrow> \<exists>c. slab_get (ss_slab srv5) (cids ! i) = Some c \<and> out_ready c \<and> answered env (ss ! i) c"
      "\<And>j. j \<notin> set cids \<Longrightarrow> slab_get (ss_slab srv5) j = slab_get (ss_slab srv0) j"
      "ss_metrics srv5 = ((\<lambda>m. inc_queue_len (lit ''net_out'') (inc_total_requests (dec_queue_len (lit ''app'') m))) ^^ ?n)
        ((moved (lit ''route'') (lit ''app'') ^^ ?n) ((moved (lit ''parse'') (lit ''route'') ^^ ?n) (ss_metrics srv0)))"
    by blast
  have "\<forall>cid \<in> set cids. \<exists>c. slab_get (ss_slab srv5) cid = Some c \<and> out_ready c"
    using 0(3) 5(3) by (metis in_set_conv_nth)
  from net_out_call [OF 5(2) this] obtain srv6 where
    6: "batch_call (net_out_stage_new 4) cids (\<lambda>_. None) (\<lambda>m. dec_total_conns (dec_queue_len (lit ''net_out'') m)) srv5 srv6"
      "\<forall>j. ring_contents (ss_queues srv6 j) = []" by auto
  have "slab_get (ss_slab srv6) j = slab_get (ss_slab srv) j" for j
  proof (cases "j \<in> set cids")
    case True
    with 6(1) 0(4) show ?thesis by (simp add: batch_call_def bind_eq_None_conv)
  next
    case False
    then have "map_of (zip cids ss) j = None" using 0(3) by (auto simp: map_of_eq_None_iff dest: set_zip_leftD)
    with False 0(5) 5(4) 6(1) show ?thesis by (simp add: batch_call_def)
  qed
  then have same: "slab_get (ss_slab srv6) = slab_get (ss_slab srv)" by (rule ext)
  have "ss_metrics srv6 = ((\<lambda>m. dec_total_conns (dec_queue_len (lit ''net_out'') m)) ^^ ?n) (ss_metrics srv5)"
    using 6(1) 0(3) by (simp add: batch_call_def)
  note counts = round_counts [OF 0(6) refl refl 5(5) this]
  have "call_all [net_in_stage_new now (map Inr ss) 0, parse_stage_new env 0 1, route_stage_new 1 2,
      app_stage_new env 2 3, encode_stage_new 3 4] srv = (srv5, Inr ())"
    using 0(1) 5(1) by simp
  moreover have "ring_contents (ss_queues srv5 4) = cids" using 5(2) by (simp add: batch_at_def)
  moreover have "slab_get (ss_slab srv) (cids ! i) = None" if "i < ?n" for i using 0(3,4) that by simp
  moreover have "call_process (net_out_stage_new 4) srv5 = (srv6, Inr ())" using 6(1) by (simp add: batch_call_def)
  ultimately show ?thesis using 0(3) 5(3) 6(2) same counts by blast
qed

theorem single_round_answers_witness:
  "(let env = \<lparr> landing_page = [60], header_order = id, unicode_lower = id \<rparr>;
        s = \<lparr> rx = [ReadOk (request_head [71] [47] [49] [(lit ''Content-Length'', [0x32])] @ [104, 105])],
              tx = [WriteOk (length (to_bytes id (response_for env [47])))], wire = [] \<rparr>;
        srv = \<lparr> ss_slab = slab_new 1, ss_metrics = metrics_new, ss_queues = (\<lambda>_. ring_new 2) \<rparr>
    in \<exists>srv5 srv6. call_all [net_in_stage_new 0 (map Inr [s]) 0, parse_stage_new env 0 1, route_stage_new 1 2,
        app_stage_new env 2 3, encode_stage_new 3 4] srv = (srv5, Inr ())
      \<and> call_process (net_out_stage_new 4) srv5 = (srv6, Inr ())
      \<and> total_requests (ss_metrics srv6) = total_requests metrics_new + 1)"
proof -
  let ?env = "\<lparr> landing_page = [60], header_order = id, unicode_lower = id \<rparr>"
  let ?hs = "[(lit ''Content-Length'', [0x32])]"
  let ?s = "\<lparr> rx = [ReadOk (request_head [71] [47] [49] ?hs @ [104, 105])],
    tx = [WriteOk (length (to_bytes id (response_for ?env [47])))], wire = [] \<rparr>"
  let ?srv = "\<lparr> ss_slab = slab_new 1, ss_metrics = metrics_new, ss_queues = (\<lambda>_. ring_new 2) \<rparr>"
  have "\<forall>s \<in> set [?s]. complete_request ?env s \<and> takes_response ?env s" using one_request_complete by simp
  moreover have "idle_server (length [?s]) ?srv"
  proof -
    have "ring_inv (ring_new 2)" "ring_contents (ring_new 2) = []" "ring_room (ring_new 2) = 1"
      using ring_inv_new [of 2] by (simp_all add: ring_room_def) (simp add: ring_new_def)
    then show ?thesis
      using slab_wf_new [of 1] by (simp add: idle_server_def) (simp add: slab_new_def vacant_count_def Let_def)
  qed
  ultimately obtain srv5 srv6 where
    "call_all [net_in_stage_new 0 (map Inr [?s]) 0, parse_stage_new ?env 0 1, route_stage_new 1 2,
      app_stage_new ?env 2 3, encode_stage_new 3 4] ?srv = (srv5, Inr ())"
    "call_process (net_out_stage_new 4) srv5 = (srv6, Inr ())"
    "total_requests (ss_metrics srv6) = total_requests (ss_metrics ?srv) + of_nat (length [?s])"
    using single_round_answers [of "[?s]" ?srv ?env 0] by blast
  moreover have "total_requests (ss_metrics ?srv) + of_nat (length [?s]) = total_requests metrics_new + 1" by simp
  ultimately show ?thesis unfolding Let_def by metis
qed

end
