(* ===== verification/Executor.thy ===== *)
theory Executor
  imports Pipeline
begin

text \<open>
  Starting and stopping the threads: \<open>ners-core/src/executor.rs\<close> (\<open>run_loop\<close> with its batches, its
  idle counter and its shutdown flag), \<open>ners-core/src/orchestrator.rs\<close> (\<open>spawn_stage\<close>, \<open>shutdown\<close>,
  \<open>join\<close>), \<open>available_cores\<close> of \<open>affinity.rs\<close>, and the shutdown flag of \<open>main.rs\<close>. The data that the
  threads share is the \<open>pipeline\<close>; here each executor has a control state too, and every step of
  this system is a step of the pipeline or none.
\<close>

section \<open>Spawning\<close>

text \<open>\<open>available_parallelism\<close> is an answer of the operating system.\<close>

definition available_cores :: "(unit + usize) \<Rightarrow> usize" where
  "available_cores os = (case os of Inr n \<Rightarrow> n | Inl _ \<Rightarrow> 1)"

record orchestrator_config =
  oc_slab_capacity :: usize
  oc_queue_capacity :: usize
  oc_start_core :: usize

definition oc_default :: orchestrator_config where
  "oc_default = \<lparr> oc_slab_capacity = 10000, oc_queue_capacity = 4096, oc_start_core = 0 \<rparr>"

text \<open>An executor: its stage, core, input and output queue, and its shutdown flag.\<close>

record executor =
  ex_stage :: str
  ex_core :: usize
  ex_input :: usize
  ex_output :: "usize option"
  ex_shutdown :: bool

record orchestrator =
  o_config :: orchestrator_config
  o_queues :: usize
  o_executors :: "executor list"

definition orchestrator_new :: "orchestrator_config \<Rightarrow> orchestrator" where
  "orchestrator_new c = \<lparr> o_config = c, o_queues = 6, o_executors = [] \<rparr>"

text \<open>The thread starts with its flag unset; that the system can start a thread is taken for granted.\<close>

definition executor_spawn :: "str \<Rightarrow> usize \<Rightarrow> usize \<Rightarrow> usize option \<Rightarrow> executor" where
  "executor_spawn name core_id input output =
     \<lparr> ex_stage = name, ex_core = core_id, ex_input = input, ex_output = output, ex_shutdown = False \<rparr>"

text \<open>Indexing the queues panics out of range, and so does the remainder by zero.\<close>

definition spawn_stage :: "(unit + usize) \<Rightarrow> str \<Rightarrow> usize \<Rightarrow> usize option \<Rightarrow> orchestrator
    \<Rightarrow> (unit, orchestrator) result" where
  "spawn_stage os name input output orc =
     (if available_cores os = 0 then Inl Panic
      else if o_queues orc \<le> input then Inl Panic
      else if (case output of None \<Rightarrow> False | Some q \<Rightarrow> o_queues orc \<le> q) then Inl Panic
      else
        let core_id = (oc_start_core (o_config orc) + length (o_executors orc)) mod available_cores os
        in Inr (orc\<lparr>o_executors := o_executors orc @ [executor_spawn name core_id input output]\<rparr>))"

fun spawn_all :: "(unit + usize) \<Rightarrow> (str \<times> usize \<times> usize option) list \<Rightarrow> orchestrator
    \<Rightarrow> (unit, orchestrator) result" where
  "spawn_all os [] orc = Inr orc"
| "spawn_all os ((name, input, output) # ss) orc =
     (case spawn_stage os name input output orc of Inl e \<Rightarrow> Inl e | Inr orc' \<Rightarrow> spawn_all os ss orc')"

text \<open>The five calls in \<open>main\<close>.\<close>

definition main_stages :: "(str \<times> usize \<times> usize option) list" where
  "main_stages =
     [(lit ''parse'', 0, Some 1), (lit ''route'', 1, Some 2), (lit ''app'', 2, Some 3),
      (lit ''encode'', 3, Some 4), (lit ''net_out'', 4, None)]"

section \<open>The loop of an executor\<close>

text \<open>Where a thread is in \<open>run_loop\<close>: the remaining iterations of the batch and the items processed.\<close>

datatype loop_pc =
    LTest
  | LPop nat nat
  | LBusy nat nat \<comment> \<open>holding a connection\<close>
  | LAfter nat
  | LExited
  | LDead

record loop_state =
  loop_pc :: loop_pc
  idle_count :: u32
  shutdown_flag :: bool

datatype idle_action = SleepMicros nat | YieldNow

definition idle_action_of :: "u32 \<Rightarrow> idle_action" where
  "idle_action_of n = (if 1000 < n then SleepMicros 100 else YieldNow)"

text \<open>The idle counter after a batch; \<open>+=\<close> wraps around.\<close>

definition after_batch :: "nat \<Rightarrow> loop_state \<Rightarrow> loop_state" where
  "after_batch processed t =
     t\<lparr>idle_count := (if processed = 0 then idle_count t + 1 else 0), loop_pc := LTest\<rparr>"

record system =
  sys_pipe :: pipeline
  sys_loops :: "nat \<Rightarrow> loop_state"
  main_flag :: bool
  main_left :: bool
  main_done :: bool
  handler_running :: bool

definition set_loop :: "nat \<Rightarrow> loop_pc \<Rightarrow> system \<Rightarrow> system" where
  "set_loop i l s = s\<lparr>sys_loops := (sys_loops s)(i := (sys_loops s i)\<lparr>loop_pc := l\<rparr>)\<rparr>"

definition system_init :: "usize \<Rightarrow> usize \<Rightarrow> system" where
  "system_init slab_cap queue_cap =
     \<lparr> sys_pipe = pipeline_init slab_cap queue_cap,
       sys_loops = (\<lambda>_. \<lparr> loop_pc = LTest, idle_count = 0, shutdown_flag = False \<rparr>),
       main_flag = False, main_left = False, main_done = False, handler_running = True \<rparr>"

definition executor_shutdown :: "nat \<Rightarrow> system \<Rightarrow> system" where
  "executor_shutdown i s = s\<lparr>sys_loops := (sys_loops s)(i := (sys_loops s i)\<lparr>shutdown_flag := True\<rparr>)\<rparr>"

text \<open>\<open>for executor in &self.executors { executor.shutdown() }\<close>.\<close>

definition orchestrator_shutdown :: "system \<Rightarrow> system" where
  "orchestrator_shutdown s = fold executor_shutdown [0..<stage_count] s"

lemma system_init_loops [simp]:
  "loop_pc (sys_loops (system_init a b) i) = LTest" "\<not> shutdown_flag (sys_loops (system_init a b) i)"
  by (simp_all add: system_init_def)

text \<open>Where a thread goes when \<open>process_one\<close> has returned.\<close>

definition after_one :: "nat \<Rightarrow> nat \<Rightarrow> exec_pc \<Rightarrow> loop_pc" where
  "after_one k processed e =
     (case e of EDead \<Rightarrow> LDead | EPush _ \<Rightarrow> LBusy k processed | _ \<Rightarrow> LPop k (processed + 1))"

text \<open>The steps of executor \<open>i\<close>.\<close>

inductive exec_step :: "stage_env \<Rightarrow> nat \<Rightarrow> system \<Rightarrow> system \<Rightarrow> bool" for env i where
  stop: "loop_pc (sys_loops s i) = LTest \<Longrightarrow> shutdown_flag (sys_loops s i) \<Longrightarrow>
    exec_step env i s (set_loop i LExited s)"
| go: "loop_pc (sys_loops s i) = LTest \<Longrightarrow> \<not> shutdown_flag (sys_loops s i) \<Longrightarrow>
    exec_step env i s (set_loop i (LPop 100 0) s)"
| full: "loop_pc (sys_loops s i) = LPop 0 n \<Longrightarrow> exec_step env i s (set_loop i (LAfter n) s)"
| some: "loop_pc (sys_loops s i) = LPop (Suc k) n \<Longrightarrow>
    ring_pop (p_queues (sys_pipe s) i) = (q, Inr (Some cid)) \<Longrightarrow>
    exec_step env i s (set_loop i (LBusy k n) (s\<lparr>sys_pipe := (sys_pipe s)
      \<lparr>p_queues := (p_queues (sys_pipe s))(i := q), p_execs := (p_execs (sys_pipe s))(i := EHold cid)\<rparr>\<rparr>))"
| none: "loop_pc (sys_loops s i) = LPop (Suc k) n \<Longrightarrow>
    ring_pop (p_queues (sys_pipe s) i) = (q, Inr None) \<Longrightarrow>
    exec_step env i s (set_loop i (LAfter n) (s\<lparr>sys_pipe := (sys_pipe s)
      \<lparr>p_queues := (p_queues (sys_pipe s))(i := q)\<rparr>\<rparr>))"
| one: "loop_pc (sys_loops s i) = LBusy k n \<Longrightarrow> p_execs (sys_pipe s) i = EHold cid \<Longrightarrow>
    stage_of env i cid (p_slab (sys_pipe s)) (p_metrics (sys_pipe s)) = ((slab', m'), r) \<Longrightarrow>
    exec_step env i s (set_loop i (after_one k n (after_process i r)) (s\<lparr>sys_pipe := (sys_pipe s)
      \<lparr>p_slab := slab', p_metrics := m', p_execs := (p_execs (sys_pipe s))(i := after_process i r)\<rparr>\<rparr>))"
| push: "loop_pc (sys_loops s i) = LBusy k n \<Longrightarrow> p_execs (sys_pipe s) i = EPush cid \<Longrightarrow>
    ring_push (p_queues (sys_pipe s) (i + 1)) cid = (q, r) \<Longrightarrow> r \<noteq> Inl Panic \<Longrightarrow>
    exec_step env i s (set_loop i (LPop k (n + 1)) (s\<lparr>sys_pipe := (sys_pipe s)
      \<lparr>p_queues := (p_queues (sys_pipe s))(i + 1 := q), p_execs := (p_execs (sys_pipe s))(i := EIdle)\<rparr>\<rparr>))"
| idle: "loop_pc (sys_loops s i) = LAfter n \<Longrightarrow>
    exec_step env i s (s\<lparr>sys_loops := (sys_loops s)(i := after_batch n (sys_loops s i))\<rparr>)"

text \<open>
  The steps of the main thread: it accepts connections and queues them; at the top of its loop it
  leaves when its flag is set, shuts the executors down, and ends when it has joined them all; the
  panic of a thread is an error that \<open>join\<close> ignores. The thread that \<open>ctrlc_handler\<close> starts reads
  the flag and ends when it is set.
\<close>

inductive main_step :: "system \<Rightarrow> system \<Rightarrow> bool" where
  accept: "\<not> main_left s \<Longrightarrow> p_main (sys_pipe s) = MIdle \<Longrightarrow>
    slab_insert (p_slab (sys_pipe s)) (conn_new now sock) = (slab', Inr (Some cid)) \<Longrightarrow>
    main_step s (s\<lparr>sys_pipe := (sys_pipe s)\<lparr>p_slab := slab',
      p_metrics := inc_total_conns (p_metrics (sys_pipe s)), p_main := MPush cid\<rparr>\<rparr>)"
| accept_full: "\<not> main_left s \<Longrightarrow> p_main (sys_pipe s) = MIdle \<Longrightarrow>
    slab_insert (p_slab (sys_pipe s)) (conn_new now sock) = (slab', Inr None) \<Longrightarrow>
    main_step s (s\<lparr>sys_pipe := (sys_pipe s)\<lparr>p_slab := slab'\<rparr>\<rparr>)"
| queue_accepted: "p_main (sys_pipe s) = MPush cid \<Longrightarrow>
    ring_push (p_queues (sys_pipe s) 0) cid = (q, Inr u) \<Longrightarrow>
    main_step s (s\<lparr>sys_pipe := (sys_pipe s)\<lparr>p_queues := (p_queues (sys_pipe s))(0 := q),
      p_metrics := inc_queue_len (lit ''parse'') (p_metrics (sys_pipe s)), p_main := MIdle\<rparr>\<rparr>)"
| drop_accepted: "p_main (sys_pipe s) = MPush cid \<Longrightarrow>
    ring_push (p_queues (sys_pipe s) 0) cid = (q, Inl (Error e)) \<Longrightarrow>
    main_step s (s\<lparr>sys_pipe := (sys_pipe s)\<lparr>p_queues := (p_queues (sys_pipe s))(0 := q), p_main := MIdle\<rparr>\<rparr>)"
| leave_loop: "\<not> main_left s \<Longrightarrow> main_flag s \<Longrightarrow> p_main (sys_pipe s) = MIdle \<Longrightarrow>
    main_step s (orchestrator_shutdown (s\<lparr>main_left := True\<rparr>))"
| join_all: "main_left s \<Longrightarrow> \<forall>i < stage_count. loop_pc (sys_loops s i) \<in> {LExited, LDead} \<Longrightarrow>
    main_step s (s\<lparr>main_done := True\<rparr>)"

inductive handler_step :: "system \<Rightarrow> system \<Rightarrow> bool" where
  check: "handler_running s \<Longrightarrow> handler_step s (s\<lparr>handler_running := \<not> main_flag s\<rparr>)"

inductive system_step :: "stage_env \<Rightarrow> system \<Rightarrow> system \<Rightarrow> bool" for env where
  executor: "i < stage_count \<Longrightarrow> exec_step env i s s' \<Longrightarrow> system_step env s s'"
| main: "main_step s s' \<Longrightarrow> system_step env s s'"
| handler: "handler_step s s' \<Longrightarrow> system_step env s s'"

inductive_cases exec_stepE: "exec_step env i s s'"
inductive_cases main_stepE: "main_step s s'"
inductive_cases handler_stepE: "handler_step s s'"
inductive_cases system_stepE: "system_step env s s'"

section \<open>Refinement\<close>

text \<open>The control states fit the pipeline: a thread is busy exactly when it holds a connection.\<close>

definition loop_ok :: "loop_pc \<Rightarrow> exec_pc \<Rightarrow> bool" where
  "loop_ok l e =
     (case l of
        LBusy k n \<Rightarrow> k < 100 \<and> exec_ids e \<noteq> []
      | LPop k n \<Rightarrow> k \<le> 100 \<and> e = EIdle
      | LDead \<Rightarrow> e = EDead
      | _ \<Rightarrow> e = EIdle)"

definition system_ok :: "usize \<Rightarrow> system \<Rightarrow> bool" where
  "system_ok cap s \<longleftrightarrow> pipeline_inv cap (sys_pipe s)
     \<and> (\<forall>i. loop_ok (loop_pc (sys_loops s i)) (p_execs (sys_pipe s) i))"

lemma set_loop_simps [simp]:
  "sys_pipe (set_loop i l s) = sys_pipe s" "loop_pc (sys_loops (set_loop i l s) j) = (if j = i then l else loop_pc (sys_loops s j))"
  "shutdown_flag (sys_loops (set_loop i l s) j) = shutdown_flag (sys_loops s j)" "main_flag (set_loop i l s) = main_flag s"
  "main_left (set_loop i l s) = main_left s" "main_done (set_loop i l s) = main_done s" "handler_running (set_loop i l s) = handler_running s"
  by (simp_all add: set_loop_def)

lemma after_batch_simps [simp]:
  "loop_pc (after_batch n t) = LTest" "shutdown_flag (after_batch n t) = shutdown_flag t"
  by (simp_all add: after_batch_def)

lemma fold_shutdown:
  "sys_pipe (fold executor_shutdown is s) = sys_pipe s
   \<and> loop_pc (sys_loops (fold executor_shutdown is s) i) = loop_pc (sys_loops s i)
   \<and> shutdown_flag (sys_loops (fold executor_shutdown is s) i) = (i \<in> set is \<or> shutdown_flag (sys_loops s i))"
  by (induction "is" arbitrary: s) (auto simp: executor_shutdown_def)

lemma orchestrator_shutdown_simps [simp]:
  "sys_pipe (orchestrator_shutdown s) = sys_pipe s"
  "loop_pc (sys_loops (orchestrator_shutdown s) i) = loop_pc (sys_loops s i)"
  "i < stage_count \<Longrightarrow> shutdown_flag (sys_loops (orchestrator_shutdown s) i)"
  by (simp_all add: orchestrator_shutdown_def fold_shutdown)

lemma exec_step_pipeline:
  assumes "i < stage_count" and "exec_step env i s s'" and "loop_ok (loop_pc (sys_loops s i)) (p_execs (sys_pipe s) i)"
  shows "pipeline_step env (sys_pipe s) (sys_pipe s') \<or> sys_pipe s' = sys_pipe s"
  using assms(2)
proof cases
  case (some k n q cid)
  then show ?thesis using assms(1,3) by (auto simp: loop_ok_def intro: pipeline_step.take)
next
  case (none k n q)
  then show ?thesis using assms(1,3) by (auto simp: loop_ok_def intro: pipeline_step.poll)
next
  case (one k n cid slab' m' r)
  then show ?thesis using assms(1) by (auto intro: pipeline_step.process)
next
  case (push k n cid q r)
  then have p: "sys_pipe s' = (sys_pipe s)\<lparr>p_queues := (p_queues (sys_pipe s))(i + 1 := q),
      p_execs := (p_execs (sys_pipe s))(i := EIdle)\<rparr>" by simp
  consider u where "r = Inr u" | e where "r = Inl (Error e)"
    using push(5) by (cases r) (auto, metis fault.exhaust)
  then show ?thesis
  proof cases
    case 1
    with pipeline_step.pass [OF assms(1) push(3)] push(4) show ?thesis unfolding p by blast
  next
    case 2
    with pipeline_step.pass_full [OF assms(1) push(3)] push(4) show ?thesis unfolding p by blast
  qed
qed auto

lemma main_step_pipeline:
  assumes "main_step s s'"
  shows "(pipeline_step env (sys_pipe s) (sys_pipe s') \<or> sys_pipe s' = sys_pipe s)
    \<and> p_execs (sys_pipe s') = p_execs (sys_pipe s)
    \<and> (\<forall>i. loop_pc (sys_loops s' i) = loop_pc (sys_loops s i))"
  using assms
proof cases
  case (accept now sock slab' cid)
  from pipeline_step.accept [OF accept(3,4), of env] show ?thesis using accept(1) by simp
next
  case (accept_full now sock slab')
  from pipeline_step.accept_full [OF accept_full(3,4), of env] show ?thesis using accept_full(1) by simp
next
  case (queue_accepted cid q u)
  from pipeline_step.queue_accepted [OF queue_accepted(2,3), of env] show ?thesis using queue_accepted(1) by simp
next
  case (drop_accepted cid q e)
  from pipeline_step.drop_accepted [OF drop_accepted(2,3), of env] show ?thesis using drop_accepted(1) by simp
qed simp_all

lemma handler_step_pipeline: "handler_step s s' \<Longrightarrow> sys_pipe s' = sys_pipe s \<and> sys_loops s' = sys_loops s"
  by (auto elim: handler_stepE)

lemma exec_step_loops:
  assumes "exec_step env i s s'" and "loop_ok (loop_pc (sys_loops s i)) (p_execs (sys_pipe s) i)"
  shows "loop_ok (loop_pc (sys_loops s' i)) (p_execs (sys_pipe s') i)"
    and "j \<noteq> i \<Longrightarrow> sys_loops s' j = sys_loops s j \<and> p_execs (sys_pipe s') j = p_execs (sys_pipe s) j"
    and "shutdown_flag (sys_loops s' j) = shutdown_flag (sys_loops s j)"
  using assms
  by (auto elim!: exec_stepE simp: loop_ok_def set_loop_def after_batch_def after_one_def after_process_def
      split: sum.splits option.splits if_splits)

lemma system_step_ok:
  assumes "system_ok cap s" and "system_step env s s'"
  shows "system_ok cap s' \<and> (pipeline_step env (sys_pipe s) (sys_pipe s') \<or> sys_pipe s' = sys_pipe s)"
  using assms(2)
proof cases
  case (executor i)
  have ok: "loop_ok (loop_pc (sys_loops s i)) (p_execs (sys_pipe s) i)" using assms(1) by (simp add: system_ok_def)
  note p = exec_step_pipeline [OF executor ok]
  have "loop_ok (loop_pc (sys_loops s' j)) (p_execs (sys_pipe s') j)" for j
    using exec_step_loops(1) [OF executor(2) ok] exec_step_loops(2) [OF executor(2) ok, of j] assms(1) by (cases "j = i") (auto simp: system_ok_def)
  with p assms(1) pipeline_inv_step show ?thesis by (fastforce simp: system_ok_def)
next
  case main
  from main_step_pipeline [OF main, of env] assms(1) pipeline_inv_step show ?thesis by (fastforce simp: system_ok_def)
next
  case handler
  from handler_step_pipeline [OF handler] assms(1) show ?thesis by (simp add: system_ok_def)
qed

lemma system_ok_init: "scap < 2 ^ 64 \<Longrightarrow> 0 < qcap \<Longrightarrow> system_ok scap (system_init scap qcap)"
  using pipeline_inv_init [of scap qcap] by (simp add: system_ok_def system_init_def loop_ok_def pipeline_init_def)

lemma system_reachable:
  assumes "(system_step env)\<^sup>*\<^sup>* (system_init scap qcap) s" and "scap < 2 ^ 64" and "0 < qcap"
  shows "system_ok scap s \<and> (pipeline_step env)\<^sup>*\<^sup>* (pipeline_init scap qcap) (sys_pipe s)"
  using assms(1)
proof (induction rule: rtranclp_induct)
  case base
  show ?case using system_ok_init [OF assms(2,3)] by (simp add: system_init_def)
next
  case (step y z)
  from system_step_ok [of scap y env z] step show ?case by (metis rtranclp.rtrancl_into_rtrancl)
qed

section \<open>Progress and termination of an executor\<close>

text \<open>An upper bound of the steps a thread can still take once its flag is set.\<close>

fun steps_left :: "loop_pc \<Rightarrow> exec_pc \<Rightarrow> nat" where
  "steps_left LTest e = 1"
| "steps_left (LAfter n) e = 2"
| "steps_left (LPop k n) e = 3 * k + 3"
| "steps_left (LBusy k n) (EPush cid) = 3 * k + 4"
| "steps_left (LBusy k n) e = 3 * k + 5"
| "steps_left LExited e = 0"
| "steps_left LDead e = 0"

definition left_of :: "system \<Rightarrow> nat \<Rightarrow> nat" where
  "left_of s i = steps_left (loop_pc (sys_loops s i)) (p_execs (sys_pipe s) i)"

lemma left_of_bound: "loop_ok (loop_pc (sys_loops s i)) (p_execs (sys_pipe s) i) \<Longrightarrow> left_of s i \<le> 303"
  by (cases "loop_pc (sys_loops s i)"; cases "p_execs (sys_pipe s) i") (auto simp: left_of_def loop_ok_def)

lemma exec_step_left:
  assumes "exec_step env i s s'" and "shutdown_flag (sys_loops s i)"
    and "loop_ok (loop_pc (sys_loops s i)) (p_execs (sys_pipe s) i)"
  shows "left_of s' i < left_of s i"
  using assms
  by (auto elim!: exec_stepE simp: left_of_def loop_ok_def set_loop_def after_batch_def after_one_def after_process_def
      split: sum.splits option.splits if_splits)

lemma exec_progress:
  assumes ok: "system_ok cap s" and running: "loop_pc (sys_loops s i) \<notin> {LExited, LDead}"
  shows "\<exists>s'. exec_step env i s s'"
proof -
  have inv: "pipeline_inv cap (sys_pipe s)" and l: "loop_ok (loop_pc (sys_loops s i)) (p_execs (sys_pipe s) i)"
    using ok by (simp_all add: system_ok_def)
  show ?thesis
  proof (cases "loop_pc (sys_loops s i)")
    case LTest
    then show ?thesis by (cases "shutdown_flag (sys_loops s i)") (auto intro: exec_step.stop exec_step.go)
  next
    case (LPop k n)
    show ?thesis
    proof (cases k)
      case 0
      with LPop show ?thesis by (auto intro: exec_step.full)
    next
      case (Suc k')
      show ?thesis
      proof (cases "ring_contents (p_queues (sys_pipe s) i)")
        case Nil
        from rq.pop_none [OF pipeline_invD(4) [OF inv] Nil] LPop Suc show ?thesis by (blast intro: exec_step.none)
      next
        case (Cons a as)
        from rq.pop_some [OF pipeline_invD(4) [OF inv] Cons] LPop Suc show ?thesis by (blast intro: exec_step.some)
      qed
    qed
  next
    case (LBusy k n)
    then consider cid where "p_execs (sys_pipe s) i = EHold cid" | cid where "p_execs (sys_pipe s) i = EPush cid"
      using l by (cases "p_execs (sys_pipe s) i") (auto simp: loop_ok_def)
    then show ?thesis
    proof cases
      case 1
      obtain slab' m' r where "stage_of env i cid (p_slab (sys_pipe s)) (p_metrics (sys_pipe s)) = ((slab', m'), r)"
        by (metis surj_pair)
      with LBusy 1 show ?thesis by (blast intro: exec_step.one)
    next
      case 2
      obtain q r where r: "ring_push (p_queues (sys_pipe s) (i + 1)) cid = (q, r)" by fastforce
      have "live (sys_pipe s) cid" using pipeline_invD(7) [OF inv, of cid "AtExec i"] 2 by simp
      from push_contents [OF pipeline_invD(4) [OF inv] live_index [OF inv this] r] have "r \<noteq> Inl Panic" by auto
      with LBusy 2 r show ?thesis by (blast intro: exec_step.push)
    qed
  next
    case (LAfter n)
    then show ?thesis by (blast intro: exec_step.idle)
  qed (use running in auto)
qed

text \<open>Runs of the executors alone: the main thread waits in \<open>join\<close>.\<close>

inductive exec_run :: "stage_env \<Rightarrow> nat list \<Rightarrow> system \<Rightarrow> system \<Rightarrow> bool" for env where
  ended: "exec_run env [] s s"
| more: "i < stage_count \<Longrightarrow> exec_step env i s s1 \<Longrightarrow> exec_run env is s1 s2 \<Longrightarrow> exec_run env (i # is) s s2"

definition all_signalled :: "system \<Rightarrow> bool" where
  "all_signalled s \<longleftrightarrow> (\<forall>i < stage_count. shutdown_flag (sys_loops s i))"

lemma exec_run_left:
  assumes "exec_run env is s s'" and "system_ok cap s" and "all_signalled s"
  shows "system_ok cap s' \<and> (\<forall>i. count_list is i + left_of s' i \<le> left_of s i) \<and> set is \<subseteq> {..<stage_count}"
  using assms
proof (induction rule: exec_run.induct)
  case (more i s s1 "is" s2)
  have ok: "loop_ok (loop_pc (sys_loops s i)) (p_execs (sys_pipe s) i)" using more.prems(1) by (simp add: system_ok_def)
  have "all_signalled s1"
    using more.prems(2) exec_step_loops(3) [OF more.hyps(2) ok] by (simp add: all_signalled_def)
  with more.IH system_step_ok [OF more.prems(1) system_step.executor [OF more.hyps(1,2)]]
  have IH: "system_ok cap s2" "\<And>j. count_list is j + left_of s2 j \<le> left_of s1 j" "set is \<subseteq> {..<stage_count}" by auto
  have "count_list (i # is) j + left_of s2 j \<le> left_of s j" for j
  proof (cases "j = i")
    case True
    have "left_of s1 i < left_of s i"
      using exec_step_left [OF more.hyps(2) _ ok] more.prems(2) more.hyps(1) by (simp add: all_signalled_def)
    with IH(2) [of i] True show ?thesis by simp
  next
    case False
    with exec_step_loops(2) [OF more.hyps(2) ok, of j] have "left_of s1 j = left_of s j" by (simp add: left_of_def)
    with IH(2) [of j] False show ?thesis by simp
  qed
  with IH more.hyps(1) show ?case by simp
qed simp

text \<open>A thread leaves its loop only when its flag is set.\<close>

lemma exec_step_flags:
  assumes "exec_step env i s s'"
  shows "main_flag s' = main_flag s \<and> main_left s' = main_left s \<and> main_done s' = main_done s \<and> handler_running s' = handler_running s
    \<and> (\<forall>j. shutdown_flag (sys_loops s' j) = shutdown_flag (sys_loops s j))
    \<and> (\<forall>j. loop_pc (sys_loops s' j) = LExited \<longrightarrow> loop_pc (sys_loops s j) = LExited \<or> shutdown_flag (sys_loops s j))"
  using assms by (auto elim!: exec_stepE simp: after_one_def split: if_splits exec_pc.splits)

section \<open>Properties\<close>

text \<open>
  C19: A shutdown ends every thread. From any reachable state, once \<open>shutdown\<close> has set the flags,
  in every interleaving of the executors each of them takes at most 303 more steps (a batch of a
  hundred connections), and as long as one of them has neither ended nor panicked, one can take
  a step; so \<open>join\<close> returns.
\<close>

theorem shutdown_terminates:
  assumes "(system_step env)\<^sup>*\<^sup>* (system_init scap qcap) s" and "scap < 2 ^ 64" and "0 < qcap"
    and "exec_run env is (orchestrator_shutdown s) s'"
  shows "count_list is i \<le> 303
    \<and> ((\<forall>j < stage_count. loop_pc (sys_loops s' j) \<in> {LExited, LDead})
      \<or> (\<exists>j < stage_count. \<exists>s''. exec_step env j s' s''))"
proof
  have ok: "system_ok scap (orchestrator_shutdown s)"
    using system_reachable [OF assms(1-3)] by (simp add: system_ok_def)
  have sig: "all_signalled (orchestrator_shutdown s)" by (simp add: all_signalled_def)
  note run = exec_run_left [OF assms(4) ok sig]
  have "left_of (orchestrator_shutdown s) i \<le> 303" using ok by (intro left_of_bound) (simp add: system_ok_def)
  with run show "count_list is i \<le> 303" by (meson add_leD1 order.trans)
  show "(\<forall>j < stage_count. loop_pc (sys_loops s' j) \<in> {LExited, LDead})
      \<or> (\<exists>j < stage_count. \<exists>s''. exec_step env j s' s'')"
    using exec_progress run by blast
qed

theorem shutdown_terminates_witness:
  "count_list [0, 1] 0 \<le> (303 :: nat)
   \<and> exec_run \<lparr> landing_page = [], header_order = id, unicode_lower = id \<rparr> [0, 1] (orchestrator_shutdown (system_init 1 2))
      (set_loop 1 LExited (set_loop 0 LExited (orchestrator_shutdown (system_init 1 2))))"
proof -
  let ?env = "\<lparr> landing_page = [], header_order = id, unicode_lower = id \<rparr>"
  let ?s = "orchestrator_shutdown (system_init 1 2)"
  have "exec_step ?env 0 ?s (set_loop 0 LExited ?s)" by (rule exec_step.stop) (simp_all add: stage_count_def)
  moreover have "exec_step ?env 1 (set_loop 0 LExited ?s) (set_loop 1 LExited (set_loop 0 LExited ?s))"
    by (rule exec_step.stop) (simp_all add: stage_count_def)
  ultimately have run: "exec_run ?env [0, 1] ?s (set_loop 1 LExited (set_loop 0 LExited ?s))"
    by (intro exec_run.more [OF _ _ exec_run.more [OF _ _ exec_run.ended]]) (simp_all add: stage_count_def)
  from shutdown_terminates [OF rtranclp.rtrancl_refl _ _ run, of 0] run show ?thesis by simp
qed

text \<open>
  C10: The executors with their batches, counters and flags refine the pipeline: whatever the
  threads of the system do, the data they share has gone through steps of the pipeline only, so
  that every invariant of the pipeline holds of the system.
\<close>

theorem executors_refine_pipeline:
  assumes "(system_step env)\<^sup>*\<^sup>* (system_init scap qcap) s" and "scap < 2 ^ 64" and "0 < qcap"
  shows "(pipeline_step env)\<^sup>*\<^sup>* (pipeline_init scap qcap) (sys_pipe s)
    \<and> (\<forall>i. loop_pc (sys_loops s i) = LDead \<longrightarrow> p_execs (sys_pipe s) i = EDead)"
proof
  show "(pipeline_step env)\<^sup>*\<^sup>* (pipeline_init scap qcap) (sys_pipe s)" using system_reachable [OF assms] by simp
  show "\<forall>i. loop_pc (sys_loops s i) = LDead \<longrightarrow> p_execs (sys_pipe s) i = EDead"
  proof (intro allI impI)
    fix i assume dead: "loop_pc (sys_loops s i) = LDead"
    have "loop_ok (loop_pc (sys_loops s i)) (p_execs (sys_pipe s) i)"
      using system_reachable [OF assms] by (simp add: system_ok_def)
    with dead show "p_execs (sys_pipe s) i = EDead" by (simp add: loop_ok_def)
  qed
qed

theorem executors_refine_pipeline_witness:
  "(pipeline_step \<lparr> landing_page = [], header_order = id, unicode_lower = id \<rparr>)\<^sup>*\<^sup>* (pipeline_init 1 2) (sys_pipe (set_loop 0 (LPop 100 0) (system_init 1 2)))"
proof -
  let ?env = "\<lparr> landing_page = [], header_order = id, unicode_lower = id \<rparr>"
  have "exec_step ?env 0 (system_init 1 2) (set_loop 0 (LPop 100 0) (system_init 1 2))"
    by (rule exec_step.go) simp_all
  then have "system_step ?env (system_init 1 2) (set_loop 0 (LPop 100 0) (system_init 1 2))"
    by (rule system_step.executor [of 0, rotated]) (simp add: stage_count_def)
  from executors_refine_pipeline [OF r_into_rtranclp [where r = "system_step ?env", OF this]] show ?thesis by simp
qed

text \<open>
  The server never stops by itself. Nothing sets the flag that \<open>main\<close> tests: the thread that
  \<open>ctrlc_handler\<close> starts only reads it. In every reachable state the main thread is still in its
  loop, no executor has been told to stop and none has left its loop, other than by a panic.
\<close>

lemma shutdown_never_requested:
  assumes "(system_step env)\<^sup>*\<^sup>* (system_init scap qcap) s"
  shows "\<not> main_flag s \<and> \<not> main_left s \<and> handler_running s
    \<and> \<not> shutdown_flag (sys_loops s i) \<and> loop_pc (sys_loops s i) \<noteq> LExited"
proof -
  have "\<not> main_flag s \<and> \<not> main_left s \<and> handler_running s
    \<and> (\<forall>i. \<not> shutdown_flag (sys_loops s i) \<and> loop_pc (sys_loops s i) \<noteq> LExited)"
    using assms
  proof (induction rule: rtranclp_induct)
    case (step y z)
    from step.hyps(2) show ?case
    proof cases
      case (executor i)
      then show ?thesis using step.IH exec_step_flags [OF executor(2)] by blast
    next
      case main
      then show ?thesis using step.IH by (auto elim!: main_stepE)
    next
      case handler
      then show ?thesis using step.IH by (auto elim!: handler_stepE)
    qed
  qed (simp add: system_init_def)
  then show ?thesis by blast
qed

theorem shutdown_never_requested_witness:
  "loop_pc (sys_loops (set_loop 0 (LPop 100 0) (system_init 1 2)) 0) \<noteq> LExited"
proof -
  have "exec_step env 0 (system_init 1 2) (set_loop 0 (LPop 100 0) (system_init 1 2))" for env
    by (rule exec_step.go) simp_all
  then have "system_step env (system_init 1 2) (set_loop 0 (LPop 100 0) (system_init 1 2))" for env
    by (rule system_step.executor [of 0, rotated]) (simp add: stage_count_def)
  from shutdown_never_requested [OF r_into_rtranclp [where r = "system_step undefined", OF this], of 0]
  show ?thesis by blast
qed

text \<open>
  The stages are wired in order. On a machine with at least one core the five calls of \<open>main\<close>
  succeed; executor \<open>i\<close> reads queue \<open>i\<close>, writes queue \<open>i + 1\<close> except for the last, which writes none,
  and runs on core \<open>i\<close> modulo the number of cores: the wiring that the pipeline has.
\<close>

lemma main_wiring:
  assumes "0 < available_cores os" and "i < stage_count"
  shows "\<exists>orc. spawn_all os main_stages (orchestrator_new oc_default) = Inr orc
    \<and> length (o_executors orc) = stage_count
    \<and> ex_input (o_executors orc ! i) = i
    \<and> ex_output (o_executors orc ! i) = (if i + 1 < stage_count then Some (i + 1) else None)
    \<and> ex_core (o_executors orc ! i) = i mod available_cores os"
proof -
  have "i = 0 \<or> i = 1 \<or> i = 2 \<or> i = 3 \<or> i = 4" using assms(2) by (auto simp: stage_count_def)
  then show ?thesis using assms(1)
    by (elim disjE; simp add: main_stages_def orchestrator_new_def oc_default_def spawn_stage_def executor_spawn_def stage_count_def
        Let_def nth_append; simp add: eval_nat_numeral)
qed

theorem main_wiring_witness:
  "\<exists>orc. spawn_all (Inr 4) main_stages (orchestrator_new oc_default) = Inr orc \<and> ex_core (o_executors orc ! 4) = 0"
proof -
  have "0 < available_cores (Inr 4)" "4 < stage_count" by (simp_all add: available_cores_def stage_count_def)
  from main_wiring [OF this] show ?thesis by (auto simp: available_cores_def)
qed

end
