(* ===== verification/Server_Wiring.thy ===== *)
theory Server_Wiring
  imports Executor
begin

text \<open>
  How the server is put together: the trait \<open>ExecutableStage\<close> of \<open>ners-core/src/executor.rs\<close> and
  its implementations in \<open>stage.rs\<close> as objects, \<open>run_loop\<close> for any object on any queues, the
  calls of \<open>main.rs\<close> that give each object its queues, the accessors of \<open>orchestrator.rs\<close>, and the
  pinning of a thread to its core (\<open>affinity.rs\<close>). The theory \<open>Pipeline\<close> has five stages in a row
  built in; here the row comes from the arguments of the five calls, and the lemmas show that it
  is the same system.
\<close>

section \<open>Stages as objects\<close>

record executable_stage =
  es_name :: str
  es_process :: process_one

definition parse_stage_multi :: "stage_env \<Rightarrow> executable_stage" where
  "parse_stage_multi env = \<lparr> es_name = lit ''parse'', es_process = parse_one env \<rparr>"

definition route_stage_multi :: executable_stage where
  "route_stage_multi = \<lparr> es_name = lit ''route'', es_process = route_one \<rparr>"

definition app_stage_multi :: "stage_env \<Rightarrow> executable_stage" where
  "app_stage_multi env = \<lparr> es_name = lit ''app'', es_process = app_one env \<rparr>"

definition encode_stage_multi :: executable_stage where
  "encode_stage_multi = \<lparr> es_name = lit ''encode'', es_process = encode_one \<rparr>"

definition net_out_stage_multi :: executable_stage where
  "net_out_stage_multi = \<lparr> es_name = lit ''net_out'', es_process = net_out_one \<rparr>"

text \<open>The input stage has a listener of its own, which a call changes.\<close>

record net_in_multi =
  ni_name :: str
  ni_listener :: "(io_error + tcp_stream) list"

definition net_in_multi_new :: "(io_error + tcp_stream) list \<Rightarrow> net_in_multi" where
  "net_in_multi_new listener = \<lparr> ni_name = lit ''net_in'', ni_listener = listener \<rparr>"

definition net_in_multi_process ::
    "instant \<Rightarrow> net_in_multi \<Rightarrow> conn_slab \<Rightarrow> metrics_collector
       \<Rightarrow> net_in_multi \<times> (conn_slab \<times> metrics_collector) \<times> (unit, conn_id option) result" where
  "net_in_multi_process now obj slab metrics =
     (case net_in_one now (ni_listener obj) slab metrics of
        (listener, r) \<Rightarrow> (obj\<lparr>ni_listener := listener\<rparr>, r))"

section \<open>Pinning a thread\<close>

text \<open>
  \<open>CpuSet::set\<close> and \<open>sched_setaffinity\<close> of the crate \<open>nix\<close> are parameters: the first checks the
  number of the core, the second changes the state \<open>'os\<close> of the operating system for the process
  with the given number, 0 for the calling thread.
\<close>

datatype 'e pin_error = PinError 'e

definition pin_to_core ::
    "(usize \<Rightarrow> 'e + 'cpus) \<Rightarrow> (int \<Rightarrow> 'cpus \<Rightarrow> 'os \<Rightarrow> ('e + unit) \<times> 'os) \<Rightarrow> usize \<Rightarrow> 'os
       \<Rightarrow> ('e pin_error + unit) \<times> 'os" where
  "pin_to_core set_cpu setaffinity core_id os =
     (case set_cpu core_id of
        Inl e \<Rightarrow> (Inl (PinError e), os)
      | Inr cpus \<Rightarrow>
          (case setaffinity 0 cpus os of
             (Inl e, os') \<Rightarrow> (Inl (PinError e), os')
           | (Inr _, os') \<Rightarrow> (Inr (), os')))"

text \<open>\<open>run_loop\<close> begins with it and only logs the result.\<close>

datatype 'e pin_log = PinWarning str usize "'e pin_error" | PinInfo str usize

definition run_loop_pin ::
    "(usize \<Rightarrow> 'e + 'cpus) \<Rightarrow> (int \<Rightarrow> 'cpus \<Rightarrow> 'os \<Rightarrow> ('e + unit) \<times> 'os) \<Rightarrow> executable_stage \<Rightarrow> usize
       \<Rightarrow> 'os \<Rightarrow> 'e pin_log \<times> 'os" where
  "run_loop_pin set_cpu setaffinity obj core_id os =
     (case pin_to_core set_cpu setaffinity core_id os of
        (Inl e, os') \<Rightarrow> (PinWarning (es_name obj) core_id e, os')
      | (Inr _, os') \<Rightarrow> (PinInfo (es_name obj) core_id, os'))"

text \<open>A core that cannot be set leaves the operating system alone, and the thread runs on.\<close>

lemma run_loop_pin_invalid:
  "set_cpu core_id = Inl e \<Longrightarrow>
   run_loop_pin set_cpu setaffinity obj core_id os = (PinWarning (es_name obj) core_id (PinError e), os)"
  by (simp add: run_loop_pin_def pin_to_core_def)

section \<open>The orchestrator and its callers\<close>

text \<open>Indexing panics out of range; what is returned shares the queue.\<close>

definition get_queue :: "nat \<Rightarrow> orchestrator \<Rightarrow> pipeline \<Rightarrow> (unit, ring_queue) result" where
  "get_queue i orc p = (if i < o_queues orc then Inr (p_queues p i) else Inl Panic)"

definition active_connections :: "pipeline \<Rightarrow> usize" where
  "active_connections p = active_count (p_slab p)"

definition orchestrator_snapshot ::
    "nat \<Rightarrow> ((str \<times> stage_metrics) list \<Rightarrow> (str \<times> stage_metrics) list) \<Rightarrow> pipeline \<Rightarrow> metrics_snapshot" where
  "orchestrator_snapshot now order p = collector_snapshot now order (p_metrics p)"

text \<open>The configuration that \<open>main\<close> gives, and its five calls of \<open>spawn_stage\<close>, with the objects.\<close>

definition main_config :: orchestrator_config where
  "main_config = \<lparr> oc_slab_capacity = 10000, oc_queue_capacity = 4096, oc_start_core = 0 \<rparr>"

definition main_objects :: "stage_env \<Rightarrow> (executable_stage \<times> usize \<times> usize option) list" where
  "main_objects env =
     [(parse_stage_multi env, 0, Some 1), (route_stage_multi, 1, Some 2), (app_stage_multi env, 2, Some 3),
      (encode_stage_multi, 3, Some 4), (net_out_stage_multi, 4, None)]"

text \<open>A running thread: what it calls, the queue it reads, the queue it writes.\<close>

type_synonym stage_thread = "process_one \<times> usize \<times> usize option"

text \<open>
  \<open>spawn_stage\<close> moves the object into the thread it starts; the queues are those of the executor
  that it pushes to its list.
\<close>

fun spawn_objects ::
    "(unit + usize) \<Rightarrow> (executable_stage \<times> usize \<times> usize option) list \<Rightarrow> orchestrator \<times> stage_thread list
       \<Rightarrow> (unit, orchestrator \<times> stage_thread list) result" where
  "spawn_objects os [] started = Inr started"
| "spawn_objects os ((obj, input, output) # ss) (orc, threads) =
     (case spawn_stage os (es_name obj) input output orc of
        Inl e \<Rightarrow> Inl e
      | Inr orc' \<Rightarrow>
          let ex = last (o_executors orc')
          in spawn_objects os ss (orc', threads @ [(es_process obj, ex_input ex, ex_output ex)]))"

section \<open>Threads over any wiring\<close>

text \<open>What \<open>run_loop\<close> does with a result when \<open>output_queue\<close> is \<open>output\<close>.\<close>

definition after_call :: "usize option \<Rightarrow> (unit, conn_id option) result \<Rightarrow> exec_pc" where
  "after_call output r =
     (case r of
        Inl _ \<Rightarrow> EDead
      | Inr None \<Rightarrow> EIdle
      | Inr (Some next_id) \<Rightarrow> (case output of None \<Rightarrow> EIdle | Some _ \<Rightarrow> EPush next_id))"

text \<open>
  The steps of the threads \<open>ths\<close> and of the main thread, which has taken the queue with index 0
  for the parse queue.
\<close>

inductive wired_step :: "stage_thread list \<Rightarrow> pipeline \<Rightarrow> pipeline \<Rightarrow> bool" for ths where
  w_accept: "p_main p = MIdle \<Longrightarrow>
    slab_insert (p_slab p) (conn_new now s) = (slab', Inr (Some cid)) \<Longrightarrow>
    wired_step ths p (p\<lparr>p_slab := slab', p_metrics := inc_total_conns (p_metrics p),
      p_main := MPush cid\<rparr>)"
| w_accept_full: "p_main p = MIdle \<Longrightarrow>
    slab_insert (p_slab p) (conn_new now s) = (slab', Inr None) \<Longrightarrow>
    wired_step ths p (p\<lparr>p_slab := slab'\<rparr>)"
| w_queue_accepted: "p_main p = MPush cid \<Longrightarrow> ring_push (p_queues p 0) cid = (q, Inr u) \<Longrightarrow>
    wired_step ths p (p\<lparr>p_queues := (p_queues p)(0 := q),
      p_metrics := inc_queue_len (lit ''parse'') (p_metrics p), p_main := MIdle\<rparr>)"
| w_drop_accepted: "p_main p = MPush cid \<Longrightarrow> ring_push (p_queues p 0) cid = (q, Inl (Error e)) \<Longrightarrow>
    wired_step ths p (p\<lparr>p_queues := (p_queues p)(0 := q), p_main := MIdle\<rparr>)"
| w_take: "i < length ths \<Longrightarrow> ths ! i = (f, input, output) \<Longrightarrow> p_execs p i = EIdle \<Longrightarrow>
    ring_pop (p_queues p input) = (q, Inr (Some cid)) \<Longrightarrow>
    wired_step ths p (p\<lparr>p_queues := (p_queues p)(input := q),
      p_execs := (p_execs p)(i := EHold cid)\<rparr>)"
| w_poll: "i < length ths \<Longrightarrow> ths ! i = (f, input, output) \<Longrightarrow> p_execs p i = EIdle \<Longrightarrow>
    ring_pop (p_queues p input) = (q, Inr None) \<Longrightarrow>
    wired_step ths p (p\<lparr>p_queues := (p_queues p)(input := q)\<rparr>)"
| w_process: "i < length ths \<Longrightarrow> ths ! i = (f, input, output) \<Longrightarrow> p_execs p i = EHold cid \<Longrightarrow>
    f cid (p_slab p) (p_metrics p) = ((slab', m'), r) \<Longrightarrow>
    wired_step ths p (p\<lparr>p_slab := slab', p_metrics := m',
      p_execs := (p_execs p)(i := after_call output r)\<rparr>)"
| w_pass: "i < length ths \<Longrightarrow> ths ! i = (f, input, Some out) \<Longrightarrow> p_execs p i = EPush cid \<Longrightarrow>
    ring_push (p_queues p out) cid = (q, r) \<Longrightarrow> r \<noteq> Inl Panic \<Longrightarrow>
    wired_step ths p (p\<lparr>p_queues := (p_queues p)(out := q), p_execs := (p_execs p)(i := EIdle)\<rparr>)"

inductive_cases wired_stepE: "wired_step ths p p'"

section \<open>The wiring of \<open>main\<close>\<close>

text \<open>The names of the objects are the names of the stages that \<open>main\<close> spawns.\<close>

lemma main_objects_names: "map (\<lambda>(obj, io). (es_name obj, io)) (main_objects env) = main_stages"
  by (simp add: main_objects_def main_stages_def parse_stage_multi_def route_stage_multi_def app_stage_multi_def
      encode_stage_multi_def net_out_stage_multi_def)

lemma spawn_stage_last:
  "spawn_stage os name input output orc = Inr orc' \<Longrightarrow>
   ex_input (last (o_executors orc')) = input \<and> ex_output (last (o_executors orc')) = output
   \<and> o_queues orc' = o_queues orc \<and> o_config orc' = o_config orc"
  by (auto simp: spawn_stage_def executor_spawn_def Let_def split: if_splits)

lemma spawn_objects_threads:
  "spawn_objects os objs (orc, ths) = Inr (orc', ths') \<Longrightarrow>
   ths' = ths @ map (\<lambda>(obj, io). (es_process obj, io)) objs"
proof (induction objs arbitrary: orc ths)
  case (Cons a objs)
  obtain obj input out where a: "a = (obj, input, out)" by (cases a)
  from Cons.prems obtain orc1 where 1: "spawn_stage os (es_name obj) input out orc = Inr orc1"
    by (auto simp: a split: sum.splits)
  from Cons.IH [of orc1 "ths @ [(es_process obj, input, out)]"] Cons.prems spawn_stage_last [OF 1]
  show ?case by (simp add: a 1 Let_def)
qed simp

definition pipeline_threads :: "stage_env \<Rightarrow> stage_thread list" where
  "pipeline_threads env =
     map (\<lambda>i. (stage_of env i, i, if i + 1 < stage_count then Some (i + 1) else None)) [0..<stage_count]"

lemma main_threads: "map (\<lambda>(obj, io). (es_process obj, io)) (main_objects env) = pipeline_threads env"
proof -
  have "[0..<stage_count] = [0, 1, 2, 3, 4]" by (simp add: stage_count_def upt_rec)
  then show ?thesis
    by (simp add: pipeline_threads_def main_objects_def stage_of_def stage_count_def parse_stage_multi_def
        route_stage_multi_def app_stage_multi_def encode_stage_multi_def net_out_stage_multi_def)
qed

lemma pipeline_threads_nth [simp]:
  "length (pipeline_threads env) = stage_count"
  "i < stage_count \<Longrightarrow>
     pipeline_threads env ! i = (stage_of env i, i, if i + 1 < stage_count then Some (i + 1) else None)"
  by (simp_all add: pipeline_threads_def)

lemma after_call_process: "after_call (if i + 1 < stage_count then Some (i + 1) else None) r = after_process i r"
  by (auto simp: after_call_def after_process_def split: sum.split option.split)

text \<open>The last executor never has a connection to pass on.\<close>

definition last_passes_none :: "pipeline \<Rightarrow> bool" where
  "last_passes_none p \<longleftrightarrow> (\<forall>i cid. \<not> i + 1 < stage_count \<longrightarrow> p_execs p i \<noteq> EPush cid)"

lemma last_passes_none_step:
  assumes "last_passes_none p" and "pipeline_step env p p'"
  shows "last_passes_none p'"
  using assms(2)
proof cases
  case (process i cid slab' m' r)
  have "after_process i r \<noteq> EPush x" if "\<not> i + 1 < stage_count" for x
    using that by (auto simp: after_process_def split: sum.split option.split)
  with process assms(1) show ?thesis by (auto simp: last_passes_none_def)
qed (use assms(1) in \<open>auto simp: last_passes_none_def\<close>)

lemma wired_is_pipeline:
  assumes "last_passes_none p"
  shows "wired_step (pipeline_threads env) p p' \<longleftrightarrow> pipeline_step env p p'"
proof
  assume "wired_step (pipeline_threads env) p p'"
  then show "pipeline_step env p p'"
  proof cases
    case (w_take i f input out q cid)
    then show ?thesis using pipeline_step.take [of i p q cid env] by simp
  next
    case (w_poll i f input out q)
    then show ?thesis using pipeline_step.poll [of i p q env] by simp
  next
    case (w_process i f input out cid slab' m' r)
    then have i: "i < stage_count" "f = stage_of env i" "out = (if i + 1 < stage_count then Some (i + 1) else None)"
      by auto
    from pipeline_step.process [OF i(1) w_process(4)] w_process(5)
    show ?thesis unfolding w_process(1) i(2,3) after_call_process by blast
  next
    case (w_pass i f input out cid q r)
    then have i: "i < stage_count" "out = i + 1" by (auto split: if_splits)
    show ?thesis
    proof (cases r)
      case (Inr u)
      with w_pass i show ?thesis using pipeline_step.pass [of i p cid q u env] by simp
    next
      case (Inl e)
      with w_pass(6) obtain x where "e = Error x" by (cases e) auto
      with w_pass i Inl show ?thesis using pipeline_step.pass_full [of i p cid q x env] by simp
    qed
  qed (auto intro: pipeline_step.accept pipeline_step.accept_full pipeline_step.queue_accepted pipeline_step.drop_accepted)
next
  assume "pipeline_step env p p'"
  then show "wired_step (pipeline_threads env) p p'"
  proof cases
    case (take i q cid)
    then show ?thesis using wired_step.w_take [of i "pipeline_threads env"] by simp
  next
    case (poll i q)
    then show ?thesis using wired_step.w_poll [of i "pipeline_threads env"] by simp
  next
    case (process i cid slab' m' r)
    then show ?thesis
      using wired_step.w_process [of i "pipeline_threads env" _ i _ p cid slab' m' r] after_call_process [of i r]
      by simp
  next
    case (pass i cid q u)
    then have "i + 1 < stage_count" using assms unfolding last_passes_none_def by blast
    with pass show ?thesis using wired_step.w_pass [of i "pipeline_threads env" _ i "i + 1" p cid q "Inr u"] by simp
  next
    case (pass_full i cid q e)
    then have "i + 1 < stage_count" using assms unfolding last_passes_none_def by blast
    with pass_full show ?thesis
      using wired_step.w_pass [of i "pipeline_threads env" _ i "i + 1" p cid q "Inl (Error e)"] by simp
  qed (auto intro: w_accept w_accept_full w_queue_accepted w_drop_accepted)
qed

lemma wired_reaches:
  "(wired_step (pipeline_threads env))\<^sup>*\<^sup>* (pipeline_init scap qcap) p \<longleftrightarrow>
   (pipeline_step env)\<^sup>*\<^sup>* (pipeline_init scap qcap) p"
proof -
  have first: "last_passes_none (pipeline_init scap qcap)" by (simp add: last_passes_none_def pipeline_init_def)
  have "(pipeline_step env)\<^sup>*\<^sup>* (pipeline_init scap qcap) p \<and> last_passes_none p"
    if "(wired_step (pipeline_threads env))\<^sup>*\<^sup>* (pipeline_init scap qcap) p"
    using that(1)
    by (induction rule: rtranclp_induct) (use first in \<open>auto simp: wired_is_pipeline intro: rtranclp.rtrancl_into_rtrancl last_passes_none_step\<close>)
  moreover have "(wired_step (pipeline_threads env))\<^sup>*\<^sup>* (pipeline_init scap qcap) p \<and> last_passes_none p"
    if "(pipeline_step env)\<^sup>*\<^sup>* (pipeline_init scap qcap) p"
    using that(1)
    by (induction rule: rtranclp_induct) (use first in \<open>auto simp: wired_is_pipeline intro: rtranclp.rtrancl_into_rtrancl last_passes_none_step\<close>)
  ultimately show ?thesis by blast
qed

section \<open>Properties\<close>

text \<open>
  C9: The five calls of \<open>main\<close> build the pipeline. On a machine with at least one core all calls
  succeed, the executors have the names, queues and cores that the arguments give, and the
  threads they start, each running \<open>run_loop\<close> on its own stage object and its own queues, reach
  exactly the states that the pipeline model reaches: five stages in a row, stage \<open>i\<close> reading
  queue \<open>i\<close> and writing queue \<open>i + 1\<close>, the last writing none.
\<close>

theorem main_builds_pipeline:
  assumes "0 < available_cores os"
  shows "\<exists>orc ths. spawn_objects os (main_objects env) (orchestrator_new main_config, []) = Inr (orc, ths)
    \<and> map ex_stage (o_executors orc) = map fst main_stages
    \<and> map ex_core (o_executors orc) = map (\<lambda>i. i mod available_cores os) [0..<stage_count]
    \<and> (\<forall>scap qcap p. (wired_step ths)\<^sup>*\<^sup>* (pipeline_init scap qcap) p
        \<longleftrightarrow> (pipeline_step env)\<^sup>*\<^sup>* (pipeline_init scap qcap) p)"
proof -
  have upt: "[0..<stage_count] = [0, 1, 2, 3, 4]" by (simp add: stage_count_def upt_rec)
  have "\<exists>orc ths. spawn_objects os (main_objects env) (orchestrator_new main_config, []) = Inr (orc, ths)
    \<and> map ex_stage (o_executors orc) = map fst main_stages
    \<and> map ex_core (o_executors orc) = map (\<lambda>i. i mod available_cores os) [0, 1, 2, 3, 4]"
    using assms
    by (simp add: main_objects_def main_stages_def orchestrator_new_def main_config_def spawn_stage_def executor_spawn_def
        parse_stage_multi_def route_stage_multi_def app_stage_multi_def encode_stage_multi_def net_out_stage_multi_def
        Let_def) (simp add: eval_nat_numeral)
  then obtain orc ths where
    s: "spawn_objects os (main_objects env) (orchestrator_new main_config, []) = Inr (orc, ths)"
      "map ex_stage (o_executors orc) = map fst main_stages"
      "map ex_core (o_executors orc) = map (\<lambda>i. i mod available_cores os) [0..<stage_count]"
    unfolding upt by blast
  from spawn_objects_threads [OF s(1)] have "ths = pipeline_threads env" by (simp add: main_threads)
  with s wired_reaches show ?thesis by blast
qed

theorem main_builds_pipeline_witness:
  "\<exists>orc ths. spawn_objects (Inr 2) (main_objects \<lparr> landing_page = [], header_order = id, unicode_lower = id \<rparr>)
      (orchestrator_new main_config, []) = Inr (orc, ths)
    \<and> map ex_core (o_executors orc) = [0, 1, 0, 1, 0]"
proof -
  have "0 < available_cores (Inr 2)" by (simp add: available_cores_def)
  from main_builds_pipeline [OF this, of "\<lparr> landing_page = [], header_order = id, unicode_lower = id \<rparr>"]
  show ?thesis by (auto simp: available_cores_def stage_count_def upt_rec)
qed

end
