(* ===== verification/Fair_Runs.thy ===== *)
theory Fair_Runs
  imports Ners_Prelude
begin

text \<open>
  Infinite runs of a system of threads, weak fairness, and a rule for progress: as long as some
  thread can always bring a ranking down, and nothing else brings it up, a fair run reaches its goal.
\<close>

type_synonym 's run = "nat \<Rightarrow> 's"

definition is_run :: "('s \<Rightarrow> 's \<Rightarrow> bool) \<Rightarrow> 's run \<Rightarrow> bool" where
  "is_run step r \<longleftrightarrow> (\<forall>n. step (r n) (r (Suc n)))"

lemma is_run_reaches: "m \<le> n \<Longrightarrow> is_run step r \<Longrightarrow> step\<^sup>*\<^sup>* (r m) (r n)"
  by (induction n rule: nat_induct_at_least) (auto simp: is_run_def intro: rtranclp.rtrancl_into_rtrancl)

text \<open>A run may also stay where it is: what happens there is outside the system.\<close>

definition stutter :: "('s \<Rightarrow> 's \<Rightarrow> bool) \<Rightarrow> 's \<Rightarrow> 's \<Rightarrow> bool" where
  "stutter step s s' \<longleftrightarrow> s' = s \<or> step s s'"

lemma stutter_run_reaches: "m \<le> n \<Longrightarrow> is_run (stutter step) r \<Longrightarrow> step\<^sup>*\<^sup>* (r m) (r n)"
proof (induction n rule: nat_induct_at_least)
  case (Suc n)
  then have "r (Suc n) = r n \<or> step (r n) (r (Suc n))" by (simp add: is_run_def stutter_def)
  with Suc show ?case by (metis rtranclp.rtrancl_into_rtrancl)
qed simp

lemma is_run_stutter: "is_run step r \<Longrightarrow> is_run (stutter step) r"
  by (simp add: is_run_def stutter_def)

text \<open>The threads of the server.\<close>

datatype thread = MainThread | ExecThread nat

text \<open>
  A run is fair to a thread when the thread is not ready for ever without moving: again and again
  it is not ready, or moves.
\<close>

definition fair_to :: "('s \<Rightarrow> bool) \<Rightarrow> ('s \<Rightarrow> 's \<Rightarrow> bool) \<Rightarrow> 's run \<Rightarrow> bool" where
  "fair_to ready moves r \<longleftrightarrow> (\<forall>n. \<exists>m \<ge> n. \<not> ready (r m) \<or> moves (r m) (r (Suc m)))"

text \<open>
  The interface of a ranking: while the system waits for its goal, a thread \<open>helper s\<close> is ready;
  every step reaches the goal, or lowers the rank, or leaves rank and helper as they are and is
  not a move of the helper.
\<close>

locale ranked_goal =
  fixes step :: "'s \<Rightarrow> 's \<Rightarrow> bool"
    and inv :: "'s \<Rightarrow> bool"
    and waiting :: "'s \<Rightarrow> bool"
    and goal :: "'s \<Rightarrow> 's \<Rightarrow> bool"
    and rank :: "'s \<Rightarrow> 'r :: wellorder"
    and helper :: "'s \<Rightarrow> 'a"
    and ready :: "'a \<Rightarrow> 's \<Rightarrow> bool"
    and moves :: "'a \<Rightarrow> 's \<Rightarrow> 's \<Rightarrow> bool"
  assumes helper_ready: "inv s \<Longrightarrow> waiting s \<Longrightarrow> ready (helper s) s"
    and progress: "inv s \<Longrightarrow> inv s' \<Longrightarrow> waiting s \<Longrightarrow> step s s' \<Longrightarrow>
      goal s s' \<or> waiting s' \<and> (rank s' < rank s
        \<or> rank s' = rank s \<and> helper s' = helper s \<and> \<not> moves (helper s) s s')"
begin

text \<open>Up to any point of a run the goal is reached, or the rank falls, or nothing has changed.\<close>

lemma until:
  assumes run: "is_run step r" and inv: "\<And>m. n \<le> m \<Longrightarrow> inv (r m)" and start: "waiting (r n)" and "n \<le> m"
  shows "(\<exists>j \<ge> n. goal (r j) (r (Suc j))) \<or> (\<exists>j \<ge> n. waiting (r j) \<and> rank (r j) < rank (r n))
    \<or> waiting (r m) \<and> rank (r m) = rank (r n) \<and> helper (r m) = helper (r n)"
  using assms(4)
proof (induction m rule: nat_induct_at_least)
  case (Suc m)
  have st: "step (r m) (r (Suc m))" using run by (simp add: is_run_def)
  from Suc.IH show ?case
  proof (elim disjE)
    assume same: "waiting (r m) \<and> rank (r m) = rank (r n) \<and> helper (r m) = helper (r n)"
    from progress [OF inv inv _ st] Suc.hyps same
    have "goal (r m) (r (Suc m)) \<or> waiting (r (Suc m)) \<and> (rank (r (Suc m)) < rank (r n)
        \<or> rank (r (Suc m)) = rank (r n) \<and> helper (r (Suc m)) = helper (r n))"
      by force
    with Suc.hyps show ?case by (meson le_SucI)
  qed blast+
qed (use start in simp)

lemma fair_reaches:
  assumes run: "is_run step r" and fair: "\<And>a. fair_to (ready a) (moves a) r"
    and inv: "\<And>m. n \<le> m \<Longrightarrow> inv (r m)" and start: "waiting (r n)"
  shows "\<exists>m \<ge> n. goal (r m) (r (Suc m))"
  using inv start
proof (induction "rank (r n)" arbitrary: n rule: less_induct)
  case less
  have later: "\<exists>m \<ge> n. goal (r m) (r (Suc m))" if "n \<le> j" "waiting (r j)" "rank (r j) < rank (r n)" for j
    using less.hyps [OF that(3) less.prems(1) that(2)] that(1) by (meson order_trans)
  obtain m where m: "n \<le> m" "\<not> ready (helper (r n)) (r m) \<or> moves (helper (r n)) (r m) (r (Suc m))"
    using fair [of "helper (r n)"] by (auto simp: fair_to_def)
  have "(\<exists>j \<ge> n. goal (r j) (r (Suc j))) \<or> (\<exists>j \<ge> n. waiting (r j) \<and> rank (r j) < rank (r n))
    \<or> waiting (r m) \<and> rank (r m) = rank (r n) \<and> helper (r m) = helper (r n)"
    by (rule until [OF run _ less.prems(2) m(1)]) (rule less.prems(1))
  then show ?case
  proof (elim disjE)
    assume same: "waiting (r m) \<and> rank (r m) = rank (r n) \<and> helper (r m) = helper (r n)"
    with helper_ready [OF less.prems(1) [OF m(1)]] m(2) have "moves (helper (r m)) (r m) (r (Suc m))" by auto
    with progress [OF less.prems(1) [OF m(1)] less.prems(1), of "Suc m"] same run m(1)
    have "goal (r m) (r (Suc m)) \<or> waiting (r (Suc m)) \<and> rank (r (Suc m)) < rank (r n)"
      by (auto simp: is_run_def)
    with later [of "Suc m"] m(1) show ?case by (meson le_SucI)
  qed (use later in blast)+
qed

end

text \<open>Where a thread that is ready can move, and the invariant is one, the goal is within reach.\<close>

locale live_goal = ranked_goal +
  assumes can_move: "inv s \<Longrightarrow> ready a s \<Longrightarrow> \<exists>s'. step s s' \<and> moves a s s'"
    and inv_step: "inv s \<Longrightarrow> step s s' \<Longrightarrow> inv s'"
begin

lemma goal_within_reach: "inv s \<Longrightarrow> waiting s \<Longrightarrow> \<exists>k s1 s2. (step ^^ k) s s1 \<and> step s1 s2 \<and> goal s1 s2"
proof (induction "rank s" arbitrary: s rule: less_induct)
  case less
  obtain s' where s': "step s s'" "moves (helper s) s s'"
    using can_move [OF less.prems(1) helper_ready [OF less.prems]] by blast
  note inv' = inv_step [OF less.prems(1) s'(1)]
  from progress [OF less.prems(1) inv' less.prems(2) s'(1)] s'(2)
  have "goal s s' \<or> waiting s' \<and> rank s' < rank s" by blast
  then show ?case
  proof
    assume "goal s s'"
    with s'(1) show ?thesis by (intro exI [of _ 0] exI [of _ s] exI [of _ s']) simp
  next
    assume "waiting s' \<and> rank s' < rank s"
    with less.hyps [OF _ inv'] obtain k s1 s2 where "(step ^^ k) s' s1" "step s1 s2" "goal s1 s2" by blast
    moreover from s'(1) this(1) have "(step ^^ Suc k) s s1" by (rule relpowp_Suc_I2)
    ultimately show ?thesis by blast
  qed
qed

end

text \<open>A run in two parts that ends where nothing moves goes on for ever there.\<close>

lemma run_then_rest:
  assumes "(step ^^ j) s t" and "(R ^^ k) t u" and "\<And>x y. R x y \<Longrightarrow> step x y" and "step u u"
  shows "\<exists>r. is_run step r \<and> r 0 = s \<and> r j = t \<and> (\<forall>n \<ge> j. \<exists>i. (R ^^ i) t (r n)) \<and> (\<forall>n \<ge> j + k. r n = u)"
proof -
  from assms(1) obtain f where f: "f 0 = s" "f j = t" "\<And>i. i < j \<Longrightarrow> step (f i) (f (Suc i))"
    unfolding relpowp_fun_conv by blast
  from assms(2) obtain h where h: "h 0 = t" "h k = u" "\<And>i. i < k \<Longrightarrow> R (h i) (h (Suc i))"
    unfolding relpowp_fun_conv by blast
  define r where "r n = (if n \<le> j then f n else h (min (n - j) k))" for n
  have r: "r n = h (min (n - j) k)" if "j \<le> n" for n
    using that f(2) h(1) by (auto simp: r_def)
  have "step (r n) (r (Suc n))" for n
  proof (cases "n < j")
    case True
    with f(3) [of n] show ?thesis by (simp add: r_def)
  next
    case False
    then have e: "r n = h (min (n - j) k)" "r (Suc n) = h (min (Suc (n - j)) k)"
      using r [of n] r [of "Suc n"] by (simp_all add: Suc_diff_le)
    show ?thesis
    proof (cases "n - j < k")
      case True
      with assms(3) [OF h(3), of "n - j"] show ?thesis unfolding e by (simp add: min_def)
    next
      case False
      with h(2) assms(4) show ?thesis unfolding e by (simp add: min_def)
    qed
  qed
  moreover have reach: "i \<le> k \<Longrightarrow> (R ^^ i) t (h i)" for i
    by (induction i) (use h in \<open>auto intro: relpowp_Suc_I\<close>)
  then have "\<exists>i. (R ^^ i) t (r n)" if "j \<le> n" for n
    unfolding r [OF that] by (meson min.cobounded2)
  moreover have "r n = u" if "j + k \<le> n" for n
  proof -
    have "min (n - j) k = k" using that by simp
    with r [of n] that h(2) show ?thesis by simp
  qed
  ultimately show ?thesis
    using f(1,2) by (intro exI [of _ r]) (auto simp: is_run_def r_def)
qed

end
