(* ===== verification/Pipeline_Answers.thy ===== *)
theory Pipeline_Answers
  imports Pipeline_Drain Single_Round Server_Wiring Fair_Runs "HOL-Library.Product_Lexorder"
begin

text \<open>
  Every request comes to the output stage. While fewer connections are in the pipeline than a queue of
  \<open>orchestrator.rs\<close> has entries, no push of \<open>executor.rs\<close> or \<open>main.rs\<close> fails; a connection with a
  complete request then stays in the pipeline, through every interleaving with the other
  connections, until the output stage of \<open>stage.rs\<close> writes its response: all of it when the socket
  takes all of it, and a prefix otherwise, because the stage sees a connection once only.
\<close>

section \<open>Room in the queues\<close>

lemma push_keeps_room:
  assumes "ring_inv q" and "id_ok cid" and "ring_push q cid = (q', r)"
  shows "ring_room q' = ring_room q"
proof (cases "length (ring_contents q) < ring_room q")
  case True
  from rq.push_room [OF assms(1,2) True] assms(3) show ?thesis by auto
next
  case False
  from rq.push_full [OF assms(1) False] assms(3) show ?thesis by simp
qed

lemma pop_keeps_room:
  assumes "ring_inv q" and "ring_pop q = (q', r)"
  shows "ring_room q' = ring_room q"
proof (cases "ring_contents q")
  case Nil
  from rq.pop_none [OF assms(1) Nil] assms(2) show ?thesis by simp
next
  case (Cons a as)
  from rq.pop_some [OF assms(1) Cons] assms(2) show ?thesis by auto
qed

definition rooms :: "nat \<Rightarrow> pipeline \<Rightarrow> bool" where
  "rooms k p \<longleftrightarrow> (\<forall>i. ring_room (p_queues p i) = k)"

lemma rooms_step:
  assumes inv: "pipeline_inv n p" and step: "pipeline_step env p p'" and rooms: "rooms k p"
  shows "rooms k p'"
proof -
  have ok: "id_ok cid" if "cid \<in> set (ids_at p l)" for cid l
    using live_index [OF inv pipeline_invD(7) [OF inv that]] .
  have push: "ring_room q = k" if "ring_push (p_queues p i) cid = (q, r)" "cid \<in> set (ids_at p l)" for i cid q r l
    using push_keeps_room [OF pipeline_invD(4) [OF inv] ok [OF that(2)] that(1)] rooms by (simp add: rooms_def)
  have pop: "ring_room q = k" if "ring_pop (p_queues p i) = (q, r)" for i q r
    using pop_keeps_room [OF pipeline_invD(4) [OF inv] that] rooms by (simp add: rooms_def)
  from step show ?thesis
  proof cases
    case (queue_accepted cid q u)
    with push [of 0 cid q _ AtMain] rooms show ?thesis by (simp add: rooms_def)
  next
    case (drop_accepted cid q e)
    with push [of 0 cid q _ AtMain] rooms show ?thesis by (simp add: rooms_def)
  next
    case (take i q cid)
    with pop [of i q] rooms show ?thesis by (simp add: rooms_def)
  next
    case (poll i q)
    with pop [of i q] rooms show ?thesis by (simp add: rooms_def)
  next
    case (pass i cid q u)
    with push [of "i + 1" cid q _ "AtExec i"] rooms show ?thesis by (simp add: rooms_def)
  next
    case (pass_full i cid q e)
    with push [of "i + 1" cid q _ "AtExec i"] rooms show ?thesis by (simp add: rooms_def)
  qed (use rooms in \<open>simp_all add: rooms_def\<close>)
qed

lemma rooms_init: "0 < qcap \<Longrightarrow> rooms (qcap - 1) (pipeline_init scap qcap)"
  by (simp add: rooms_def pipeline_init_def ring_room_def ring_new_def)

text \<open>The connections the pipeline is working on: never more than slots.\<close>

definition in_flight :: "pipeline \<Rightarrow> nat" where
  "in_flight p = card {cid. in_pipeline p cid}"

lemma in_pipeline_live:
  assumes "pipeline_inv n p"
  shows "{cid. in_pipeline p cid} \<subseteq> {cid. slab_get (p_slab p) cid \<noteq> None}" "finite {cid. in_pipeline p cid}"
proof -
  show "{cid. in_pipeline p cid} \<subseteq> {cid. slab_get (p_slab p) cid \<noteq> None}"
    using pipeline_invD(7) [OF assms] by (auto simp: in_pipeline_def live_def)
  from finite_subset [OF this finite_live [OF assms]] show "finite {cid. in_pipeline p cid}" .
qed

lemma in_flight_bound: "pipeline_inv n p \<Longrightarrow> in_flight p \<le> n"
  using card_mono [OF finite_live in_pipeline_live(1), of n p n] live_slots [OF pipeline_invD(1), of n p]
    pipeline_invD(2) [of n p] unfolding in_flight_def by linarith

text \<open>
  An identifier that is not in a queue still fits in: the queue and it are distinct connections of
  the pipeline.
\<close>

lemma push_fits:
  assumes inv: "pipeline_inv n p" and rooms: "rooms k p" and "in_flight p \<le> k"
    and at: "cid \<in> set (ids_at p l)" "l \<noteq> AtQueue i" and push: "ring_push (p_queues p i) cid = (q, r)"
  shows "r = Inr () \<and> ring_contents q = ring_contents (p_queues p i) @ [cid]"
proof -
  let ?c = "ids_at p (AtQueue i)"
  have "cid \<notin> set ?c" using only_at [OF inv at(1), of "AtQueue i"] at(2) by blast
  then have card: "card (insert cid (set ?c)) = length ?c + 1"
    using distinct_card [OF pipeline_invD(5) [OF inv, of "AtQueue i"]] by simp
  have "insert cid (set ?c) \<subseteq> {x. in_pipeline p x}"
    using at(1) unfolding in_pipeline_def by blast
  from card_mono [OF in_pipeline_live(2) [OF inv] this] card have "length ?c + 1 \<le> in_flight p"
    by (simp add: in_flight_def)
  with assms(2,3) have "length (ring_contents (p_queues p i)) < ring_room (p_queues p i)"
    by (simp add: rooms_def del: length_ring_contents)
  from rq.push_room [OF pipeline_invD(4) [OF inv] live_index [OF inv pipeline_invD(7) [OF inv at(1)]] this] push
  show ?thesis by auto
qed

section \<open>A connection with a complete request\<close>

text \<open>Every stage but the last passes it on.\<close>

lemma complete_passes:
  assumes c: "slab_get slab cid = Some c" "conn_after env s0 i c" and complete: "complete_request env s0" and i: "i < 4"
    and st: "stage_of env i cid slab m = ((slab', m'), r)"
  shows "r = Inr (Some cid)"
proof -
  have parsed: "r = Inr (Some cid)" if "i = 0" "parse_one env cid slab m = ((slab', m'), r)"
  proof -
    have "c = conn_new (created_at c) s0" using c(2) that(1) by (simp add: conn_after_def)
    with read_new [of "created_at c" s0] have "read_buf (read_into c) = available (rx s0)" by metis
    with that(2) c(1) complete show ?thesis
      by (auto simp: parse_one_def Let_def complete_request_def split: sum.splits)
  qed
  have routed: "r = Inr (Some cid)" if "route_one cid slab m = ((slab', m'), r)"
    using that c(1) by (simp add: route_one_def Let_def)
  have handled: "r = Inr (Some cid)" if "app_one env cid slab m = ((slab', m'), r)"
    using that c(1) by (simp add: app_one_def Let_def)
  have encoded: "r = Inr (Some cid)" if "encode_one cid slab m = ((slab', m'), r)"
    using that by (simp add: encode_one_def)
  consider "i = 0" | "i = 1" | "i = 2" | "i = 3" using i by linarith
  then show ?thesis
  proof cases
    case 1 with st parsed show ?thesis by (simp add: stage_of_def)
  next
    case 2 with st routed show ?thesis by (simp add: stage_of_def)
  next
    case 3 with st handled show ?thesis by (simp add: stage_of_def)
  next
    case 4 with st encoded show ?thesis by (simp add: stage_of_def)
  qed
qed

text \<open>
  The last one has its whole response to write to the socket it came with, and writes what that
  takes: everything, and the slot is freed; a part, and the connection stays in its slot; or the
  socket fails, and the slot is freed.
\<close>

definition hands_over :: "stage_env \<Rightarrow> tcp_stream \<Rightarrow> conn_state \<Rightarrow> conn_state option \<Rightarrow> bool" where
  "hands_over env s0 c after \<longleftrightarrow> write_buf c = answer_for env s0 \<and> bytes_written c = 0
     \<and> (case stream c of
          None \<Rightarrow> False
        | Some s \<Rightarrow> tx s = tx s0 \<and> wire s = wire s0
            \<and> (case write_all s (write_buf c) 0 of
                 (s', Inr n) \<Rightarrow> wire s' = wire s0 @ take n (answer_for env s0)
                   \<and> after = (if n = length (answer_for env s0) then None
                       else Some (c\<lparr>stream := Some s', bytes_written := n\<rparr>))
               | (s', Inl e) \<Rightarrow> e \<noteq> Panic \<and> (\<exists>n. wire s' = wire s0 @ take n (answer_for env s0)) \<and> after = None))"

lemma complete_handed:
  assumes wf: "slab_wf slab" and c: "slab_get slab cid = Some c" "conn_after env s0 4 c"
    and st: "stage_of env 4 cid slab m = ((slab', m'), r)"
  shows "hands_over env s0 c (slab_get slab' cid) \<and> r = Inr None"
proof -
  from c(2) obtain s where s: "stream c = Some s" "tx s = tx s0" "wire s = wire s0" "bytes_written c = 0"
    "write_buf c = answer_for env s0"
    by (auto simp: conn_after_def same_output_def answer_for_def split: option.splits)
  obtain s' x where w: "write_all s (write_buf c) 0 = (s', x)" by (cases "write_all s (write_buf c) 0")
  from write_all_wire [OF w] obtain n where n: "x \<noteq> Inl Panic" "wire s' = wire s0 @ take n (answer_for env s0)"
    "n \<le> length (answer_for env s0)" "\<And>m. x = Inr m \<Longrightarrow> m = n"
    using s by auto
  have gone: "\<exists>slab5. remove_conn cid (slab_put slab cid c') metrics = ((slab5, metrics), Inr None)
      \<and> slab_get slab5 cid = None" for c' metrics
    using remove_conn_contract [OF slab_put_contract(1,3) [OF wf c(1)]] by fastforce
  have st: "net_out_one cid slab m = ((slab', m'), r)" using st by (simp add: stage_of_def)
  consider e where "x = Inl (Error e)" | "x = Inr n" "n = length (answer_for env s0)"
    | "x = Inr n" "n < length (answer_for env s0)"
    using n(1,3,4) by (cases x; cases "projl x") fastforce+
  then show ?thesis
  proof cases
    case (1 e)
    let ?m = "on_stage (lit ''net_out'') inc_errors (dec_total_conns m)"
    from gone [of "c\<lparr>stream := Some s', lifecycle := LcClosed\<rparr>" ?m] obtain slab5 where
      "net_out_one cid slab m = ((slab5, ?m), Inr None)" "slab_get slab5 cid = None"
      using c(1) s(1,4) w 1 by (auto simp: net_out_one_def)
    with st s w n(2) 1 show ?thesis by (auto simp: hands_over_def)
  next
    case 2
    let ?c = "c\<lparr>stream := Some s', bytes_written := n, lifecycle := LcClosed\<rparr>"
    from gone [of ?c "dec_total_conns m"] obtain slab5 where
      "net_out_one cid slab m = ((slab5, dec_total_conns m), Inr None)" "slab_get slab5 cid = None"
      using c(1) s(1,4,5) w 2 by (auto simp: net_out_one_def Let_def)
    with st s w n(2) 2 show ?thesis by (auto simp: hands_over_def)
  next
    case 3
    let ?c = "c\<lparr>stream := Some s', bytes_written := n\<rparr>"
    have "net_out_one cid slab m = ((slab_put slab cid ?c, m), Inr None)"
      using c(1) s(1,4,5) w 3 by (simp add: net_out_one_def Let_def)
    with st s w n(2) 3 slab_put_contract(3) [OF wf c(1), of ?c] show ?thesis by (auto simp: hands_over_def)
  qed
qed

text \<open>
  A step that serves a connection: the output executor holds it, and hands its response over.
  \<open>served_whole\<close>: the response is written to the end, and the slot is free.
\<close>

definition serves :: "stage_env \<Rightarrow> conn_id \<Rightarrow> tcp_stream \<Rightarrow> pipeline \<Rightarrow> pipeline \<Rightarrow> bool" where
  "serves env cid s0 p p' \<longleftrightarrow> pipeline_step env p p' \<and> p_execs p 4 = EHold cid \<and> p_execs p' 4 = EIdle
     \<and> (case slab_get (p_slab p) cid of
          None \<Rightarrow> False
        | Some c \<Rightarrow> hands_over env s0 c (slab_get (p_slab p') cid))"

definition served_whole :: "stage_env \<Rightarrow> conn_id \<Rightarrow> tcp_stream \<Rightarrow> pipeline \<Rightarrow> pipeline \<Rightarrow> bool" where
  "served_whole env cid s0 p p' \<longleftrightarrow> pipeline_step env p p' \<and> p_execs p 4 = EHold cid
     \<and> (case slab_get (p_slab p) cid of None \<Rightarrow> False | Some c \<Rightarrow> answered env s0 c)
     \<and> slab_get (p_slab p') cid = None"

lemma serves_whole:
  assumes "serves env cid s0 p p'" and "takes_response env s0"
  shows "served_whole env cid s0 p p'"
proof -
  from assms(1) obtain c s where c: "slab_get (p_slab p) cid = Some c" "stream c = Some s"
    "write_buf c = answer_for env s0" "bytes_written c = 0" "tx s = tx s0" "wire s = wire s0"
    by (auto simp: serves_def hands_over_def split: option.splits)
  have "snd (write_all s (answer_for env s0) 0) = Inr (length (answer_for env s0))"
    using assms(2) write_all_outcome [OF c(5), of "answer_for env s0" 0] by (simp add: takes_response_def)
  from write_all_whole [OF this] obtain s' where
    "write_all s (answer_for env s0) 0 = (s', Inr (length (answer_for env s0)))" "wire s' = wire s @ answer_for env s0"
    by blast
  with assms(1) c show ?thesis by (simp add: serves_def served_whole_def hands_over_def answered_def)
qed

lemma in_pipelineI: "cid \<in> set (ids_at p l) \<Longrightarrow> in_pipeline p cid"
  unfolding in_pipeline_def by blast

text \<open>
  How far a connection is from its answer: the stages left, and what the executor of its stage has
  to do before it: at most three moves for every connection in front of it in the queue.
\<close>

fun thread_of :: "place \<Rightarrow> thread" where
  "thread_of AtMain = MainThread"
| "thread_of (AtQueue i) = ExecThread i"
| "thread_of (AtExec i) = ExecThread i"

fun thread_moves :: "thread \<Rightarrow> pipeline \<Rightarrow> pipeline \<Rightarrow> bool" where
  "thread_moves MainThread p p' \<longleftrightarrow> p_main p' \<noteq> p_main p"
| "thread_moves (ExecThread i) p p' \<longleftrightarrow> p_execs p' i \<noteq> p_execs p i"

fun pc_work :: "exec_pc \<Rightarrow> nat" where
  "pc_work (EHold cid) = 2"
| "pc_work (EPush cid) = 1"
| "pc_work _ = 0"

definition position :: "conn_id \<Rightarrow> conn_id list \<Rightarrow> nat" where
  "position cid cids = length (takeWhile (\<lambda>x. x \<noteq> cid) cids)"

lemma position_simps [simp]:
  "position cid (cid # cids) = 0"
  "x \<noteq> cid \<Longrightarrow> position cid (x # cids) = Suc (position cid cids)"
  "cid \<in> set cids \<Longrightarrow> position cid (cids @ cids') = position cid cids"
  by (simp_all add: position_def)

fun rank_at :: "pipeline \<Rightarrow> conn_id \<Rightarrow> place \<Rightarrow> nat \<times> nat" where
  "rank_at p cid AtMain = (stage_count + 1, 0)"
| "rank_at p cid (AtQueue i) = (stage_count - i, 3 * position cid (ring_contents (p_queues p i)) + pc_work (p_execs p i) + 3)"
| "rank_at p cid (AtExec i) = (stage_count - i, pc_work (p_execs p i))"

definition closer :: "conn_id \<Rightarrow> place \<Rightarrow> pipeline \<Rightarrow> pipeline \<Rightarrow> bool" where
  "closer cid l p p' \<longleftrightarrow> (\<exists>l'. cid \<in> set (ids_at p' l') \<and> (rank_at p' cid l' < rank_at p cid l
     \<or> l' = l \<and> rank_at p' cid l = rank_at p cid l \<and> \<not> thread_moves (thread_of l) p p'))"

lemma closer_same:
  assumes "cid \<in> set (ids_at p l)" and "ids_at p' l = ids_at p l"
    and "\<And>i. thread_of l = ExecThread i \<Longrightarrow> p_execs p' i = p_execs p i" and "l = AtMain \<Longrightarrow> p_main p' = p_main p"
  shows "closer cid l p p'"
  unfolding closer_def using assms by (intro exI [of _ l]) (cases l; simp)

lemma closer_rank: "cid \<in> set (ids_at p' l') \<Longrightarrow> rank_at p' cid l' < rank_at p cid l \<Longrightarrow> closer cid l p p'"
  unfolding closer_def by blast

lemma closer_append:
  assumes "cid \<in> set (ids_at p (AtQueue i))" and "ids_at p' (AtQueue i) = ids_at p (AtQueue i) @ cids"
    and "p_execs p' i = p_execs p i"
  shows "closer cid (AtQueue i) p p'"
  unfolding closer_def using assms by (intro exI [of _ "AtQueue i"]) simp

lemma moves_on:
  assumes inv: "pipeline_inv n p" and data: "data_inv env (p, g)" and rooms: "rooms k p" "in_flight p \<le> k"
    and last: "last_passes_none p" and at: "cid \<in> set (ids_at p l)"
    and s0: "g cid = Some s0" "complete_request env s0" and step: "pipeline_step env p p'"
  shows "closer cid l p p' \<or> serves env cid s0 p p'"
  using step
proof cases
  case (accept now s slab' x)
  then have "closer cid l p p'" using at by (cases l) (auto intro!: closer_same)
  then show ?thesis ..
next
  case (queue_accepted x q u)
  have "x \<in> set (ids_at p AtMain)" using queue_accepted by simp
  from push_fits [OF inv rooms this _ queue_accepted(3)]
  have q: "ids_at p' (AtQueue 0) = ids_at p (AtQueue 0) @ [x]" using queue_accepted by simp
  consider "l = AtMain" | "l = AtQueue 0" | "l \<noteq> AtMain" "l \<noteq> AtQueue 0" by blast
  then have "closer cid l p p'"
  proof cases
    case 1
    with at queue_accepted q have "cid \<in> set (ids_at p' (AtQueue 0))" by auto
    then show ?thesis by (rule closer_rank) (simp add: 1 less_prod_def)
  next
    case 2
    with at q queue_accepted show ?thesis by (auto intro: closer_append)
  next
    case 3
    with at queue_accepted show ?thesis by (cases l) (auto intro!: closer_same)
  qed
  then show ?thesis ..
next
  case (drop_accepted x q e)
  have "x \<in> set (ids_at p AtMain)" using drop_accepted by simp
  from push_fits [OF inv rooms this _ drop_accepted(3)] show ?thesis by simp
next
  case (take i q x)
  from pop_contents [OF pipeline_invD(4) [OF inv] take(4)]
  have q: "ids_at p (AtQueue i) = x # ids_at p' (AtQueue i)" using take by simp
  consider "l = AtQueue i" "x = cid" | "l = AtQueue i" "x \<noteq> cid" | "l \<noteq> AtQueue i" by blast
  then have "closer cid l p p'"
  proof cases
    case 1
    have "cid \<in> set (ids_at p' (AtExec i))" using take 1 by simp
    then show ?thesis by (rule closer_rank) (use 1 take in \<open>simp add: less_prod_def\<close>)
  next
    case 2
    have "cid \<in> set (ids_at p' (AtQueue i))" using at q 2 by auto
    then show ?thesis by (rule closer_rank) (use 2 take q in \<open>simp add: less_prod_def\<close>)
  next
    case 3
    with at take show ?thesis by (cases l) (auto intro!: closer_same)
  qed
  then show ?thesis ..
next
  case (process i x slab' m' r)
  have w: "pc_work (after_process i r) < 2"
    by (auto simp: after_process_def split: sum.splits option.splits)
  consider "l = AtExec i" | "l = AtQueue i" | "l \<noteq> AtExec i" "l \<noteq> AtQueue i" by blast
  then show ?thesis
  proof cases
    case 1
    with process at have x: "x = cid" by simp
    from data_invD [OF data at] 1 process(3) s0(1) obtain c where
      c: "slab_get (p_slab p) cid = Some c" "conn_after env s0 i c" by (auto simp: data_at_def)
    show ?thesis
    proof (cases "i < 4")
      case True
      with complete_passes [OF c s0(2) True] process x have "r = Inr (Some cid)" by blast
      with True process have "cid \<in> set (ids_at p' (AtExec i))"
        by (simp add: after_process_def stage_count_def)
      then have "closer cid l p p'" by (rule closer_rank) (use 1 process w in \<open>simp add: less_prod_def\<close>)
      then show ?thesis ..
    next
      case False
      with process(2) have i: "i = 4" by (simp add: stage_count_def)
      from complete_handed [OF pipeline_invD(1) [OF inv] c(1) c(2) [unfolded i]] process(4) x i
      have h: "hands_over env s0 c (slab_get slab' cid)" "r = Inr None" by auto
      have "p_execs p' 4 = EIdle" using process(1) i h(2) by (simp add: after_process_def)
      with h(1) c(1) process(1,3) x i step show ?thesis by (simp add: serves_def)
    qed
  next
    case 2
    have "cid \<in> set (ids_at p' (AtQueue i))" using at process 2 by simp
    then have "closer cid l p p'" by (rule closer_rank) (use 2 process w in \<open>simp add: less_prod_def\<close>)
    then show ?thesis ..
  next
    case 3
    with at process have "closer cid l p p'" by (cases l) (auto intro!: closer_same)
    then show ?thesis ..
  qed
next
  case (pass i x q u)
  have x: "x \<in> set (ids_at p (AtExec i))" using pass by simp
  from push_fits [OF inv rooms x _ pass(4)]
  have q: "ids_at p' (AtQueue (i + 1)) = ids_at p (AtQueue (i + 1)) @ [x]" using pass by simp
  consider "l = AtExec i" | "l = AtQueue i" | "l = AtQueue (i + 1)"
    | "l \<noteq> AtExec i" "l \<noteq> AtQueue i" "l \<noteq> AtQueue (i + 1)" by blast
  then have "closer cid l p p'"
  proof cases
    case 1
    have "cid \<in> set (ids_at p' (AtQueue (i + 1)))" using at q 1 pass by simp
    then show ?thesis by (rule closer_rank) (use 1 pass(2) in \<open>simp add: less_prod_def diff_less_mono2\<close>)
  next
    case 2
    have "cid \<in> set (ids_at p' (AtQueue i))" using at pass 2 by simp
    then show ?thesis by (rule closer_rank) (use 2 pass in \<open>simp add: less_prod_def\<close>)
  next
    case 3
    with at q pass show ?thesis by (auto intro: closer_append)
  next
    case 4
    with at pass show ?thesis by (cases l) (auto intro!: closer_same)
  qed
  then show ?thesis ..
next
  case (pass_full i x q e)
  have "x \<in> set (ids_at p (AtExec i))" using pass_full by simp
  from push_fits [OF inv rooms this _ pass_full(4)] show ?thesis by simp
next
  case (accept_full now s slab')
  then have "closer cid l p p'" using at by (cases l) (auto intro!: closer_same)
  then show ?thesis ..
next
  case (poll i q)
  with pop_contents [OF pipeline_invD(4) [OF inv] poll(4)] have "p' = p" by fastforce
  with at have "closer cid l p p'" by (auto intro: closer_same)
  then show ?thesis ..
qed

lemma kept_or_served:
  assumes "pipeline_inv n p" and "data_inv env (p, g)" and "rooms k p" "in_flight p \<le> k"
    and "last_passes_none p" and "in_pipeline p cid"
    and "g cid = Some s0" "complete_request env s0" and "pipeline_step env p p'"
  shows "in_pipeline p' cid \<or> serves env cid s0 p p'"
proof -
  from assms(6) obtain l where "cid \<in> set (ids_at p l)" by (auto simp: in_pipeline_def)
  from moves_on [OF assms(1-5) this assms(7-9)] show ?thesis by (auto simp: closer_def in_pipeline_def)
qed

text \<open>What holds of every state of a tracked run.\<close>

definition well_run :: "stage_env \<Rightarrow> nat \<Rightarrow> nat \<Rightarrow> tracked \<Rightarrow> bool" where
  "well_run env n k t \<longleftrightarrow> pipeline_inv n (fst t) \<and> data_inv env t \<and> rooms k (fst t) \<and> last_passes_none (fst t)"

lemma well_run_reachable:
  assumes "(tracked_step env)\<^sup>*\<^sup>* (pipeline_init scap qcap, Map.empty) (p, g)" and "scap < 2 ^ 64" and "0 < qcap"
  shows "well_run env scap (qcap - 1) (p, g)"
proof -
  note run = tracked_run [OF assms(1)]
  note inv = pipeline_inv_reachable [OF _ assms(2,3), of env]
  have "rooms (qcap - 1) p \<and> last_passes_none p"
    using run
  proof (induction rule: rtranclp_induct)
    case base
    show ?case using rooms_init [OF assms(3)] by (simp add: last_passes_none_def pipeline_init_def)
  next
    case (step y z)
    with rooms_step [OF inv [OF step.hyps(1)] step.hyps(2)] last_passes_none_step show ?case by blast
  qed
  then show ?thesis
    using inv [OF run] data_inv_reachable [OF assms] by (simp add: well_run_def)
qed

text \<open>A tracked step that leaves the socket of a connection alone.\<close>

lemma tracked_keeps:
  assumes "tracked_step env (p, g) (p', g')" and "pipeline_inv n p" and "cid \<in> set (ids_at p l)"
  shows "g' cid = g cid"
  using assms(1)
proof cases
  case (track_accept now s slab' x)
  then have "0 < vacant_count (p_slab p)"
    by (auto simp: slab_insert_def vacant_count_def Let_def split: if_splits)
  with cs.insert_fresh [OF pipeline_invD(1) [OF assms(2)], of "conn_new now s"] track_accept
  have "slab_get (p_slab p) x = None" by auto
  with pipeline_invD(7) [OF assms(2,3)] have "x \<noteq> cid" by (auto simp: live_def)
  with track_accept show ?thesis by simp
qed simp

text \<open>Nothing is behind the last stage.\<close>

definition rear_empty :: "pipeline \<Rightarrow> bool" where
  "rear_empty p \<longleftrightarrow> (\<forall>i \<ge> stage_count. ring_contents (p_queues p i) = [] \<and> p_execs p i = EIdle)"

lemma rear_empty_step:
  assumes "rear_empty p" and "last_passes_none p" and "pipeline_step env p p'"
  shows "rear_empty p'"
  using assms(3)
proof cases
  case (pass i cid q u)
  with assms(2) have "i + 1 < stage_count" unfolding last_passes_none_def by blast
  with pass assms(1) show ?thesis by (auto simp: rear_empty_def)
next
  case (pass_full i cid q e)
  with assms(2) have "i + 1 < stage_count" unfolding last_passes_none_def by blast
  with pass_full assms(1) show ?thesis by (auto simp: rear_empty_def)
qed (use assms(1) in \<open>auto simp: rear_empty_def stage_count_def\<close>)

lemma rear_empty_reachable:
  assumes "(pipeline_step env)\<^sup>*\<^sup>* (pipeline_init scap qcap) p"
  shows "rear_empty p"
proof -
  have "rear_empty p \<and> last_passes_none p"
    using assms
  proof (induction rule: rtranclp_induct)
    case base
    show ?case by (simp add: rear_empty_def last_passes_none_def pipeline_init_def)
  next
    case (step y z)
    with rear_empty_step last_passes_none_step show ?case by blast
  qed
  then show ?thesis ..
qed

text \<open>
  Why the queues have to be long enough: a connection that does not fit into the next queue is
  never answered and keeps its slot for ever.
\<close>

lemma full_queue_loses:
  assumes inv: "pipeline_inv n p" and i: "i < stage_count" and push: "p_execs p i = EPush cid"
    and full: "\<not> length (ring_contents (p_queues p (i + 1))) < ring_room (p_queues p (i + 1))"
    and get: "slab_get (p_slab p) cid = Some c"
  shows "\<exists>p1. pipeline_step env p p1 \<and> (\<forall>p2. (pipeline_step env)\<^sup>*\<^sup>* p1 p2 \<longrightarrow>
    \<not> in_pipeline p2 cid \<and> slab_get (p_slab p2) cid = Some c)"
proof -
  let ?p1 = "p\<lparr>p_queues := (p_queues p)(i + 1 := p_queues p (i + 1)), p_execs := (p_execs p)(i := EIdle)\<rparr>"
  have step: "pipeline_step env p ?p1"
    by (rule pass_full [OF i push, where e = cid]) (use rq.push_full [OF pipeline_invD(4) [OF inv] full] in simp)
  have at: "ids_at ?p1 l = (if l = AtExec i then [] else ids_at p l)" for l by (cases l) auto
  have "cid \<notin> set (ids_at ?p1 l)" for l
    unfolding at using only_at [OF inv, of cid "AtExec i" l] push by (cases "l = AtExec i") auto
  then have "\<not> in_pipeline ?p1 cid" unfolding in_pipeline_def by blast
  from stranded_forever_lemma [OF pipeline_inv_step [OF inv step] _ _ this] get step show ?thesis by auto
qed

section \<open>When the parse thread survives\<close>

lemma processed_id:
  assumes inv: "pipeline_inv n p" and hold: "p_execs p i = EHold y"
    and proc: "stage_of env i y (p_slab p) (p_metrics p) = ((slab', m'), r)"
  shows "set (exec_ids (after_process i r)) \<subseteq> {y}"
proof -
  from pipeline_invD(7) [OF inv, of y "AtExec i"] hold obtain c where "slab_get (p_slab p) y = Some c"
    by (auto simp: live_def)
  from stage_contract.passes_on [OF stage_contract_of pipeline_invD(1) [OF inv] this, of env i] proc show ?thesis
    by (auto simp: after_process_def split: sum.splits option.splits)
qed

text \<open>Without new connections nothing comes into the pipeline.\<close>

lemma drain_from_pipeline:
  assumes inv: "pipeline_inv n p" and step: "drain_step env p p'" and at: "in_pipeline p' x"
  shows "in_pipeline p x"
proof -
  from at obtain l where l: "x \<in> set (ids_at p' l)" by (auto simp: in_pipeline_def)
  have st: "pipeline_step env p p'" and main: "p_main p \<noteq> MIdle \<or> p_main p' = MIdle"
    using step by (auto simp: drain_step_def)
  have push: "set (ring_contents q) \<subseteq> insert y (set (ring_contents (p_queues p i)))"
    if "ring_push (p_queues p i) y = (q, r)" "y \<in> set (ids_at p l')" for i y q r l'
    using push_contents [OF pipeline_invD(4) [OF inv] live_index [OF inv pipeline_invD(7) [OF inv that(2)]] that(1)] by auto
  have "\<exists>l'. x \<in> set (ids_at p l')"
    using st
  proof cases
    case (accept now s slab' y)
    with main show ?thesis by simp
  next
    case (queue_accepted y q u)
    have y: "y \<in> set (ids_at p AtMain)" using queue_accepted by simp
    show ?thesis
    proof (cases "l = AtQueue 0")
      case True
      then have "x = y \<or> x \<in> set (ids_at p l)" using l push [OF queue_accepted(3) y] queue_accepted by auto
      with y show ?thesis by blast
    next
      case False
      then have "x \<in> set (ids_at p l)" using l queue_accepted by (cases l) auto
      then show ?thesis by blast
    qed
  next
    case (drop_accepted y q e)
    have y: "y \<in> set (ids_at p AtMain)" using drop_accepted by simp
    show ?thesis
    proof (cases "l = AtQueue 0")
      case True
      then have "x = y \<or> x \<in> set (ids_at p l)" using l push [OF drop_accepted(3) y] drop_accepted by auto
      with y show ?thesis by blast
    next
      case False
      then have "x \<in> set (ids_at p l)" using l drop_accepted by (cases l) auto
      then show ?thesis by blast
    qed
  next
    case (take i q y)
    have "x \<in> set (ids_at p l) \<or> x \<in> set (ids_at p (AtQueue i))"
      using l take pop_contents [OF pipeline_invD(4) [OF inv] take(4)] by (cases l) (auto split: if_splits)
    then show ?thesis by blast
  next
    case (poll i q)
    have "x \<in> set (ids_at p l)"
      using l poll pop_contents [OF pipeline_invD(4) [OF inv] poll(4)] by (cases l) (auto split: if_splits)
    then show ?thesis by blast
  next
    case (process i y slab' m' r)
    have "x \<in> set (ids_at p l) \<or> x \<in> set (exec_ids (after_process i r)) \<and> l = AtExec i"
      using l process by (cases l) (auto split: if_splits)
    then show ?thesis
    proof
      assume "x \<in> set (exec_ids (after_process i r)) \<and> l = AtExec i"
      with process(3) processed_id [OF inv process(3,4)] have "x \<in> set (ids_at p (AtExec i))" by auto
      then show ?thesis by blast
    qed blast
  next
    case (pass i y q u)
    have y: "y \<in> set (ids_at p (AtExec i))" using pass by simp
    have "x = y \<or> x \<in> set (ids_at p l)" using l push [OF pass(4) y] pass by (cases l) (auto split: if_splits)
    with y show ?thesis by blast
  next
    case (pass_full i y q e)
    have y: "y \<in> set (ids_at p (AtExec i))" using pass_full by simp
    have "x = y \<or> x \<in> set (ids_at p l)" using l push [OF pass_full(4) y] pass_full by (cases l) (auto split: if_splits)
    with y show ?thesis by blast
  next
    case (accept_full now s slab')
    then have "x \<in> set (ids_at p l)" using l by (cases l) auto
    then show ?thesis by blast
  qed
  then show ?thesis by (simp add: in_pipeline_def)
qed

lemma drain_tracked:
  assumes "drain_step env p p'"
  shows "tracked_step env (p, g) (p', g)"
proof -
  have st: "pipeline_step env p p'" and main: "p_main p \<noteq> MIdle \<or> p_main p' = MIdle"
    using assms by (auto simp: drain_step_def)
  have "p_main p' = MIdle \<or> p_main p' = p_main p" using st by cases (use main in auto)
  then show ?thesis using st by (rule track_other [rotated])
qed

text \<open>Such a step leaves the slots of the other connections alone, live or not.\<close>

lemma drain_frame:
  assumes inv: "pipeline_inv n p" and step: "drain_step env p p'" and out: "\<not> in_pipeline p j"
  shows "slab_get (p_slab p') j = slab_get (p_slab p) j \<and> \<not> in_pipeline p' j"
proof -
  have st: "pipeline_step env p p'" and main: "\<not> (p_main p = MIdle \<and> p_main p' \<noteq> MIdle)"
    using step by (auto simp: drain_step_def)
  have "slab_get (p_slab p') j = slab_get (p_slab p) j"
    using st
  proof cases
    case (accept_full now s slab')
    then have "slab' = p_slab p" by (auto simp: slab_insert_def Let_def split: if_splits)
    with accept_full show ?thesis by simp
  next
    case (process i x slab' m' r)
    have "x \<in> set (ids_at p (AtExec i))" using process(3) by simp
    with out have "j \<noteq> x" "live p x" using pipeline_invD(7) [OF inv] unfolding in_pipeline_def by blast+
    then obtain c where "slab_get (p_slab p) x = Some c" by (auto simp: live_def)
    from stage_contract.keeps_others [OF stage_contract_of pipeline_invD(1) [OF inv] this process(4) \<open>j \<noteq> x\<close>]
    show ?thesis using process(1) by simp
  qed (use main in simp_all)
  with drain_from_pipeline [OF inv step] out show ?thesis by blast
qed

lemma drain_frame_run:
  assumes "pipeline_inv n p" and "(drain_step env)\<^sup>*\<^sup>* p p'" and "\<not> in_pipeline p j"
  shows "pipeline_inv n p' \<and> slab_get (p_slab p') j = slab_get (p_slab p) j \<and> \<not> in_pipeline p' j"
  using assms(2)
proof (induction rule: rtranclp_induct)
  case (step q q')
  then have "pipeline_step env q q'" by (simp add: drain_step_def)
  with drain_frame [OF _ step.hyps(2)] pipeline_inv_step step.IH show ?case by metis
qed (use assms in simp)

lemma drain_in_flight:
  assumes "pipeline_inv n p" and "drain_step env p p'"
  shows "in_flight p' \<le> in_flight p"
  unfolding in_flight_def
  by (rule card_mono [OF in_pipeline_live(2) [OF assms(1)]]) (use drain_from_pipeline [OF assms] in blast)

lemma drain_relpow_tracked: "(drain_step env ^^ k) p p' \<Longrightarrow> (tracked_step env)\<^sup>*\<^sup>* (p, g) (p', g)"
  by (induction k arbitrary: p') (auto intro: rtranclp.rtrancl_into_rtrancl drain_tracked)

lemma run_kept_or_served:
  assumes reach: "(tracked_step env)\<^sup>*\<^sup>* (pipeline_init scap qcap, Map.empty) (p, g)" and cap: "scap < 2 ^ 64"
    and room: "in_flight p < qcap" and at: "in_pipeline p cid" "g cid = Some s0" "complete_request env s0"
    and run: "(drain_step env ^^ k) p p'"
  shows "in_flight p' \<le> in_flight p \<and> (in_pipeline p' cid
    \<or> (\<exists>q q'. (drain_step env)\<^sup>*\<^sup>* p q \<and> serves env cid s0 q q' \<and> (drain_step env)\<^sup>*\<^sup>* q' p'))"
  using run
proof (induction k arbitrary: p')
  case 0
  then show ?case using at by simp
next
  case (Suc k)
  from Suc.prems obtain q where q: "(drain_step env ^^ k) p q" "drain_step env q p'" by auto
  have st: "pipeline_step env q p'" using q(2) by (simp add: drain_step_def)
  have "(tracked_step env)\<^sup>*\<^sup>* (pipeline_init scap qcap, Map.empty) (q, g)"
    using reach drain_relpow_tracked [OF q(1)] by (rule rtranclp_trans)
  from well_run_reachable [OF this cap] room have
    w: "pipeline_inv scap q" "data_inv env (q, g)" "rooms (qcap - 1) q" "last_passes_none q"
    by (simp_all add: well_run_def)
  note IH = Suc.IH [OF q(1)]
  have flight: "in_flight q \<le> qcap - 1" using IH room by linarith
  have less: "in_flight p' \<le> in_flight p" using IH drain_in_flight [OF w(1) q(2)] by linarith
  from IH show ?case
  proof (elim conjE disjE)
    assume "in_pipeline q cid"
    from kept_or_served [OF w(1-3) flight w(4) this at(2,3) st] less relpowp_imp_rtranclp [OF q(1)]
    show ?thesis by blast
  next
    assume "\<exists>r r'. (drain_step env)\<^sup>*\<^sup>* p r \<and> serves env cid s0 r r' \<and> (drain_step env)\<^sup>*\<^sup>* r' q"
    with less q(2) show ?thesis by (meson rtranclp.rtrancl_into_rtrancl)
  qed
qed

text \<open>When nobody can do anything any more and the parse thread lives, nobody has a connection.\<close>

lemma stuck_empty:
  assumes reach: "(tracked_step env)\<^sup>*\<^sup>* (pipeline_init scap qcap, Map.empty) (p, g)"
    and cap: "scap < 2 ^ 64" "0 < qcap" and stuck: "stuck env p" and alive: "p_execs p 0 \<noteq> EDead"
  shows "p_main p = MIdle" "p_execs p i = EIdle" "ring_contents (p_queues p i) = []" "\<not> in_pipeline p cid"
proof -
  note inv = pipeline_inv_reachable [OF tracked_run [OF reach] cap]
  note rear = rear_empty_reachable [OF tracked_run [OF reach]]
  have living: "p_execs p i \<noteq> EDead" for i using dead_is_parse [OF reach cap] alive by (cases i) auto
  from stuck_is_empty [OF inv _ stuck] living have
    main: "p_main p = MIdle" and front: "i < stage_count \<Longrightarrow> exec_ids (p_execs p i) = [] \<and> ring_contents (p_queues p i) = []" for i
    by auto
  have exec: "p_execs p i = EIdle" for i
  proof (cases "i < stage_count")
    case True
    with front [OF True] living [of i] show ?thesis by (cases "p_execs p i") simp_all
  qed (use rear in \<open>simp add: rear_empty_def\<close>)
  have queue: "ring_contents (p_queues p i) = []" for i
    using front [of i] rear by (cases "i < stage_count") (simp_all add: rear_empty_def)
  have "ids_at p l = []" for l using main exec queue by (cases l) simp_all
  then show "p_main p = MIdle" "p_execs p i = EIdle" "ring_contents (p_queues p i) = []" "\<not> in_pipeline p cid"
    using main exec queue by (simp_all add: in_pipeline_def)
qed

text \<open>
  Complete requests do not make the parser panic: with only such connections in the pipeline the
  parse thread outlives every run without new connections.
\<close>

definition all_complete :: "stage_env \<Rightarrow> tracked \<Rightarrow> bool" where
  "all_complete env t \<longleftrightarrow> (\<forall>x s0. in_pipeline (fst t) x \<longrightarrow> snd t x = Some s0 \<longrightarrow> complete_request env s0)"

lemma complete_survives_step:
  assumes inv: "pipeline_inv n p" and data: "data_inv env (p, g)" and all: "all_complete env (p, g)"
    and alive: "p_execs p 0 \<noteq> EDead" and step: "drain_step env p p'"
  shows "tracked_step env (p, g) (p', g) \<and> all_complete env (p', g) \<and> p_execs p' 0 \<noteq> EDead"
proof -
  have st: "pipeline_step env p p'" using step by (simp add: drain_step_def)
  have "tracked_step env (p, g) (p', g)" using step by (rule drain_tracked)
  moreover have "all_complete env (p', g)"
    using all drain_from_pipeline [OF inv step] unfolding all_complete_def fst_conv snd_conv by blast
  moreover from st have "p_execs p' 0 \<noteq> EDead"
  proof cases
    case (process i x slab' m' r)
    show ?thesis
    proof (cases "i = 0")
      case True
      have held: "x \<in> set (ids_at p (AtExec 0))" using process True by simp
      from data_invD [OF data held] process(3) True obtain c s0 where
        c: "slab_get (p_slab p) x = Some c" "g x = Some s0" "conn_after env s0 0 c" by (auto simp: data_at_def)
      with all in_pipelineI [OF held] have "complete_request env s0" by (auto simp: all_complete_def)
      from complete_passes [OF c(1,3) this _ process(4) [unfolded True]] process True show ?thesis
        by (simp add: after_process_def stage_count_def)
    qed (use process alive in simp)
  qed (use alive in auto)
  ultimately show ?thesis by blast
qed

lemma complete_survives:
  assumes run: "(tracked_step env)\<^sup>*\<^sup>* (pipeline_init scap qcap, Map.empty) (p, g)" and "scap < 2 ^ 64" and "0 < qcap"
    and "all_complete env (p, g)" and "p_execs p 0 \<noteq> EDead" and "(drain_step env ^^ k) p p'"
  shows "p_execs p' 0 \<noteq> EDead"
proof -
  have "(tracked_step env)\<^sup>*\<^sup>* (p, g) (p', g) \<and> all_complete env (p', g) \<and> p_execs p' 0 \<noteq> EDead"
    using assms(6)
  proof (induction k arbitrary: p')
    case (Suc k)
    then obtain q where q: "(drain_step env ^^ k) p q" "drain_step env q p'" by auto
    from Suc.IH [OF q(1)] have q': "(tracked_step env)\<^sup>*\<^sup>* (p, g) (q, g)" "all_complete env (q, g)" "p_execs q 0 \<noteq> EDead"
      by simp_all
    have "(tracked_step env)\<^sup>*\<^sup>* (pipeline_init scap qcap, Map.empty) (q, g)" using run q'(1) by (rule rtranclp_trans)
    from complete_survives_step [OF pipeline_inv_reachable [OF tracked_run [OF this] assms(2,3)]
        data_inv_reachable [OF this assms(2,3)] q'(2,3) q(2)] q'(1)
    show ?case by (meson rtranclp.rtrancl_into_rtrancl)
  qed (use assms in simp)
  then show ?thesis by blast
qed

section \<open>A quiet server and one connection\<close>

text \<open>The accept step from a quiet state, and the work it brings.\<close>

lemma quiet_accepts_one:
  assumes quiet: "quiet p" and inv: "pipeline_inv n p" and vac: "0 < vacant_count (p_slab p)"
  shows "\<exists>cid p0. tracked_step env (p, g) (p0, g(cid \<mapsto> s)) \<and> p_main p0 = MPush cid \<and> slab_get (p_slab p) cid = None
    \<and> (\<forall>j. j \<noteq> cid \<longrightarrow> slab_get (p_slab p0) j = slab_get (p_slab p) j) \<and> (\<forall>x. in_pipeline p0 x \<longleftrightarrow> x = cid)
    \<and> work p0 = 16 \<and> p_execs p0 0 = EIdle"
proof -
  from cs.insert_fresh [OF pipeline_invD(1) [OF inv] vac, of "conn_new 0 s"] obtain slab' cid where
    ins: "slab_insert (p_slab p) (conn_new 0 s) = (slab', Inr (Some cid))" "slab_get (p_slab p) cid = None"
      "\<forall>j. slab_get slab' j = (if j = cid then Some (conn_new 0 s) else slab_get (p_slab p) j)" by blast
  let ?p0 = "p\<lparr>p_slab := slab', p_metrics := inc_total_conns (p_metrics p), p_main := MPush cid\<rparr>"
  have idle: "p_main p = MIdle" "p_execs p = (\<lambda>_. EIdle)" "\<And>i. ring_contents (p_queues p i) = []"
    using quiet by (simp_all add: quiet_def)
  have "ids_at ?p0 l = (if l = AtMain then [cid] else [])" for l using idle by (cases l) simp_all
  then have "in_pipeline ?p0 x \<longleftrightarrow> x = cid" for x by (auto simp: in_pipeline_def)
  moreover have "work ?p0 = 16"
    using idle by (simp add: work_def stage_work_def queue_work_def stage_count_def del: length_ring_contents)
  ultimately show ?thesis
    using track_accept [OF idle(1) ins(1)] ins idle(2) by (intro exI [of _ cid] exI [of _ ?p0]) simp
qed

text \<open>From there to the end, with no other connection in the pipeline.\<close>

lemma alone_ends:
  assumes reach: "(tracked_step env)\<^sup>*\<^sup>* (pipeline_init scap qcap, Map.empty) (p0, g)"
    and cap: "scap < 2 ^ 64" "1 < qcap" and alone: "\<And>x. in_pipeline p0 x \<longleftrightarrow> x = cid"
    and s0: "g cid = Some s" "complete_request env s" and idle: "p_execs p0 0 = EIdle"
    and run: "(drain_step env ^^ k) p0 p'" "stuck env p'"
  shows "quiet p' \<and> (\<forall>j. j \<noteq> cid \<longrightarrow> slab_get (p_slab p') j = slab_get (p_slab p0) j)
    \<and> (\<exists>q q'. (drain_step env)\<^sup>*\<^sup>* p0 q \<and> serves env cid s q q' \<and> (drain_step env)\<^sup>*\<^sup>* q' p'
        \<and> (takes_response env s \<longrightarrow> served_whole env cid s q q' \<and> slab_get (p_slab p') cid = None))"
proof -
  have qcap: "0 < qcap" using cap(2) by simp
  note inv = pipeline_inv_reachable [OF tracked_run [OF reach] cap(1) qcap]
  have "all_complete env (p0, g)" using alone s0 by (auto simp: all_complete_def)
  then have alive: "p_execs p' 0 \<noteq> EDead"
    by (rule complete_survives [OF reach cap(1) qcap _ _ run(1)]) (simp add: idle)
  have reach': "(tracked_step env)\<^sup>*\<^sup>* (pipeline_init scap qcap, Map.empty) (p', g)"
    using reach drain_relpow_tracked [OF run(1)] by (rule rtranclp_trans)
  note empty = stuck_empty [OF reach' cap(1) qcap run(2) alive]
  have "quiet p'"
    using empty(1-3) well_run_reachable [OF reach' cap(1) qcap] cap(2) pipeline_invD(4) [of scap p']
    by (simp add: quiet_def well_run_def rooms_def fun_eq_iff del: length_ring_contents)
  moreover have "slab_get (p_slab p') j = slab_get (p_slab p0) j" if "j \<noteq> cid" for j
    using drain_frame_run [OF inv relpowp_imp_rtranclp [OF run(1)], of j] alone that by simp
  moreover obtain q q' where q: "(drain_step env)\<^sup>*\<^sup>* p0 q" "serves env cid s q q'" "(drain_step env)\<^sup>*\<^sup>* q' p'"
  proof -
    have "in_flight p0 < qcap" using alone cap(2) by (simp add: in_flight_def)
    from run_kept_or_served [OF reach cap(1) this _ s0 run(1)] alone empty(4) that show thesis by blast
  qed
  moreover have "served_whole env cid s q q' \<and> slab_get (p_slab p') cid = None" if takes: "takes_response env s"
  proof -
    note whole = serves_whole [OF q(2) takes]
    have "pipeline_inv scap q"
      using relpowp_imp_rtranclp drain_run [OF inv] q(1) by (meson rtranclp_imp_relpowp)
    then have inv': "pipeline_inv scap q'" using pipeline_inv_step whole unfolding served_whole_def by blast
    moreover have "slab_get (p_slab q') cid = None" using whole by (simp add: served_whole_def)
    ultimately have "\<not> in_pipeline q' cid" using in_pipeline_live(1) [OF inv'] by auto
    with drain_frame_run [OF inv' q(3)] \<open>slab_get (p_slab q') cid = None\<close> whole show ?thesis by simp
  qed
  ultimately show ?thesis by blast
qed

section \<open>Properties\<close>

text \<open>
  C3: Every complete request is served by the output stage, in every interleaving. Take any reachable
  state with fewer connections in the pipeline than a queue has entries, and one of them that came
  with a complete request (\<open>complete_request\<close>: the parser accepts what its socket has received).
  However the threads interleave, and whatever the other connections do, when without new
  connections nobody can do anything any more and the parse thread has not panicked, the run has been
  through a step in which the output executor held this connection with exactly the response the code
  gives to its request (404 for all paths but \<open>/\<close> and \<open>/api/test\<close>) and wrote to its own socket what
  that took (\<open>serves\<close>): all of it, and the slot is free; a first part, and the connection stays in
  its slot, out of all queues, with the rest never sent; or a failing write, and the slot is free. If
  the socket takes the whole response (\<open>takes_response\<close>) all of it is written and the slot is free
  (\<open>served_whole\<close>). The run took at most sixteen steps for each slot of the slab.
\<close>

theorem every_request_answered:
  assumes "(tracked_step env)\<^sup>*\<^sup>* (pipeline_init slab_cap queue_cap, Map.empty) (p, g)"
    and "slab_cap < 2 ^ 64" and "in_flight p < queue_cap"
    and "in_pipeline p cid" and "g cid = Some s0" and "complete_request env s0"
    and "(drain_step env ^^ k) p p'" and "stuck env p'" and "p_execs p' 0 \<noteq> EDead"
  shows "k \<le> 16 * slab_cap
    \<and> (\<exists>q q'. (drain_step env)\<^sup>*\<^sup>* p q \<and> serves env cid s0 q q' \<and> (drain_step env)\<^sup>*\<^sup>* q' p'
        \<and> (takes_response env s0 \<longrightarrow> served_whole env cid s0 q q'))"
proof -
  have qcap: "0 < queue_cap" using assms(3) by simp
  note inv = pipeline_inv_reachable [OF tracked_run [OF assms(1)] assms(2) qcap]
  have k: "k \<le> 16 * slab_cap" using drain_run [OF inv assms(7)] work_bound [OF inv] by linarith
  have "(tracked_step env)\<^sup>*\<^sup>* (pipeline_init slab_cap queue_cap, Map.empty) (p', g)"
    using assms(1) drain_relpow_tracked [OF assms(7)] by (rule rtranclp_trans)
  from stuck_empty(4) [OF this assms(2) qcap assms(8,9)] run_kept_or_served [OF assms(1-7)] k
  show ?thesis using serves_whole by blast
qed

theorem every_request_answered_witness:
  "\<exists>k p p' q q' cid. (drain_step \<lparr> landing_page = [60], header_order = id, unicode_lower = id \<rparr> ^^ k) p p'
    \<and> k \<le> 16 * 1
    \<and> served_whole \<lparr> landing_page = [60], header_order = id, unicode_lower = id \<rparr> cid
        \<lparr> rx = [ReadOk (request_head [71] [47] [49] [(lit ''Content-Length'', [0x32])] @ [104, 105])],
          tx = [WriteOk (length (to_bytes id
            (response_for \<lparr> landing_page = [60], header_order = id, unicode_lower = id \<rparr> [47])))], wire = [] \<rparr> q q'
    \<and> p_execs p 0 = EHold cid"
proof -
  let ?env = "\<lparr> landing_page = [60], header_order = id, unicode_lower = id \<rparr>"
  let ?s = "\<lparr> rx = [ReadOk (request_head [71] [47] [49] [(lit ''Content-Length'', [0x32])] @ [104, 105])],
    tx = [WriteOk (length (to_bytes id (response_for ?env [47])))], wire = [] \<rparr>"
  have complete: "complete_request ?env ?s" "takes_response ?env ?s" using one_request_complete by simp_all
  have inv0: "pipeline_inv 1 (pipeline_init 1 2)" by (rule pipeline_inv_init) simp_all
  have "0 < vacant_count (p_slab (pipeline_init 1 2))"
    by (simp add: pipeline_init_def slab_new_def vacant_count_def Let_def)
  from quiet_accepts [OF quiet_init inv0 this, of ?env Map.empty ?s 0] obtain cid p where
    p: "(tracked_step ?env)\<^sup>*\<^sup>* (pipeline_init 1 2, Map.empty) (p, [cid \<mapsto> ?s])" "solitary 0 cid p"
    by auto
  have hold: "p_execs p 0 = EHold cid" using p(2) by (simp add: solitary_def)
  then have at: "in_pipeline p cid" by (intro in_pipelineI [of _ p "AtExec 0"]) simp
  have all: "all_complete ?env (p, [cid \<mapsto> ?s])" using complete by (auto simp: all_complete_def split: if_splits)
  have inv: "pipeline_inv 1 p" by (rule pipeline_inv_reachable [OF tracked_run [OF p(1)]]) simp_all
  then have room: "in_flight p < 2" using in_flight_bound by fastforce
  from drain_to_stuck [OF inv, of ?env] obtain k p' where k: "(drain_step ?env ^^ k) p p'" "stuck ?env p'" by auto
  have alive: "p_execs p' 0 \<noteq> EDead"
    by (rule complete_survives [OF p(1) _ _ all _ k(1)]) (simp_all add: hold)
  have "k \<le> 16 * 1 \<and> (\<exists>q q'. (drain_step ?env)\<^sup>*\<^sup>* p q \<and> serves ?env cid ?s q q' \<and> (drain_step ?env)\<^sup>*\<^sup>* q' p'
      \<and> (takes_response ?env ?s \<longrightarrow> served_whole ?env cid ?s q q'))"
    by (rule every_request_answered [OF p(1) _ room at _ complete(1) k alive]) simp_all
  with complete(2) k(1) hold show ?thesis by blast
qed

text \<open>
  C4: A quiet server serves one connection and is quiet again, in every interleaving. Take any
  reachable state in which all threads are idle and all queues empty (\<open>quiet\<close>), with a free slot and
  queues of at least two entries, and a connection with a complete request. The main thread can
  accept it into a free slot. From there, while no other connection arrives, every run of the threads
  has at most sixteen steps and some run comes to an end; and whenever a run has come to its end, all
  threads are idle and all queues empty again, every other slot is as it was, and the output executor
  has served the connection: it held exactly the response the code gives to the request (404 for all
  paths but \<open>/\<close> and \<open>/api/test\<close>) and wrote what the socket took. If the socket takes the whole response
  (\<open>takes_response\<close>) it is written to the end and the new slot is free again, too.
\<close>

theorem quiet_server_answers:
  assumes reach: "(tracked_step env)\<^sup>*\<^sup>* (pipeline_init slab_cap queue_cap, Map.empty) (p, g)"
    and cap: "slab_cap < 2 ^ 64" "1 < queue_cap"
    and quiet: "quiet p" "0 < vacant_count (p_slab p)" and complete: "complete_request env s"
  shows "\<exists>cid p0. tracked_step env (p, g) (p0, g(cid \<mapsto> s)) \<and> p_main p0 = MPush cid \<and> slab_get (p_slab p) cid = None
    \<and> (\<exists>k p'. (drain_step env ^^ k) p0 p' \<and> stuck env p')
    \<and> (\<forall>k p'. (drain_step env ^^ k) p0 p' \<longrightarrow> k \<le> 16
        \<and> (stuck env p' \<longrightarrow> quiet p' \<and> (\<forall>j. j \<noteq> cid \<longrightarrow> slab_get (p_slab p') j = slab_get (p_slab p) j)
            \<and> (\<exists>q q'. (drain_step env)\<^sup>*\<^sup>* p0 q \<and> serves env cid s q q' \<and> (drain_step env)\<^sup>*\<^sup>* q' p'
                \<and> (takes_response env s \<longrightarrow> served_whole env cid s q q' \<and> slab_get (p_slab p') = slab_get (p_slab p)))))"
proof -
  have qcap: "0 < queue_cap" using cap(2) by simp
  note inv = pipeline_inv_reachable [OF tracked_run [OF reach] cap(1) qcap]
  from quiet_accepts_one [OF quiet(1) inv quiet(2)] obtain cid p0 where
    p0: "tracked_step env (p, g) (p0, g(cid \<mapsto> s))" "p_main p0 = MPush cid" "slab_get (p_slab p) cid = None"
      "\<And>j. j \<noteq> cid \<Longrightarrow> slab_get (p_slab p0) j = slab_get (p_slab p) j" "\<And>x. in_pipeline p0 x \<longleftrightarrow> x = cid"
      "work p0 = 16" "p_execs p0 0 = EIdle" by blast
  have reach0: "(tracked_step env)\<^sup>*\<^sup>* (pipeline_init slab_cap queue_cap, Map.empty) (p0, g(cid \<mapsto> s))"
    using reach p0(1) by (rule rtranclp.rtrancl_into_rtrancl)
  note inv0 = pipeline_inv_reachable [OF tracked_run [OF reach0] cap(1) qcap]
  have ends: "quiet p' \<and> (\<forall>j. j \<noteq> cid \<longrightarrow> slab_get (p_slab p') j = slab_get (p_slab p) j)
      \<and> (\<exists>q q'. (drain_step env)\<^sup>*\<^sup>* p0 q \<and> serves env cid s q q' \<and> (drain_step env)\<^sup>*\<^sup>* q' p'
          \<and> (takes_response env s \<longrightarrow> served_whole env cid s q q' \<and> slab_get (p_slab p') = slab_get (p_slab p)))"
    if "(drain_step env ^^ k) p0 p'" "stuck env p'" for k p'
  proof -
    from alone_ends [OF reach0 cap p0(5) _ complete p0(7) that]
    have e: "quiet p'" "\<forall>j. j \<noteq> cid \<longrightarrow> slab_get (p_slab p') j = slab_get (p_slab p) j"
      "\<exists>q q'. (drain_step env)\<^sup>*\<^sup>* p0 q \<and> serves env cid s q q' \<and> (drain_step env)\<^sup>*\<^sup>* q' p'
        \<and> (takes_response env s \<longrightarrow> served_whole env cid s q q' \<and> slab_get (p_slab p') cid = None)"
      using p0(4) by simp_all
    have "slab_get (p_slab p') = slab_get (p_slab p)" if "slab_get (p_slab p') cid = None"
    proof
      show "slab_get (p_slab p') j = slab_get (p_slab p) j" for j using that e(2) p0(3) by (cases "j = cid") simp_all
    qed
    with e show ?thesis by blast
  qed
  moreover have "k \<le> 16" if "(drain_step env ^^ k) p0 p'" for k p'
    using drain_run [OF inv0 that] p0(6) by linarith
  ultimately show ?thesis
    using p0(1-3) drain_to_stuck [OF inv0, of env] by (intro exI [of _ cid], intro exI [of _ p0]) blast
qed

theorem quiet_server_answers_witness:
  "\<exists>cid p0 k p'. tracked_step \<lparr> landing_page = [60], header_order = id, unicode_lower = id \<rparr>
      (pipeline_init 1 2, Map.empty) (p0, [cid \<mapsto> \<lparr> rx = [ReadOk (request_head [71] [47] [49]
        [(lit ''Content-Length'', [0x32])] @ [104, 105])],
        tx = [WriteOk (length (to_bytes id
          (response_for \<lparr> landing_page = [60], header_order = id, unicode_lower = id \<rparr> [47])))], wire = [] \<rparr>])
    \<and> (drain_step \<lparr> landing_page = [60], header_order = id, unicode_lower = id \<rparr> ^^ k) p0 p' \<and> k \<le> 16
    \<and> quiet p' \<and> slab_get (p_slab p') cid = None"
proof -
  let ?env = "\<lparr> landing_page = [60], header_order = id, unicode_lower = id \<rparr>"
  let ?s = "\<lparr> rx = [ReadOk (request_head [71] [47] [49] [(lit ''Content-Length'', [0x32])] @ [104, 105])],
    tx = [WriteOk (length (to_bytes id (response_for ?env [47])))], wire = [] \<rparr>"
  have complete: "complete_request ?env ?s" "takes_response ?env ?s" using one_request_complete by simp_all
  have "0 < vacant_count (p_slab (pipeline_init 1 2))"
    by (simp add: pipeline_init_def slab_new_def vacant_count_def Let_def)
  from quiet_server_answers [OF rtranclp.rtrancl_refl _ _ quiet_init this complete(1)]
  obtain cid p0 k p' where
    p0: "tracked_step ?env (pipeline_init 1 2, Map.empty) (p0, [cid \<mapsto> ?s])"
      "slab_get (p_slab (pipeline_init 1 2)) cid = None" "(drain_step ?env ^^ k) p0 p'"
      "k \<le> 16" "quiet p'" "slab_get (p_slab p') = slab_get (p_slab (pipeline_init 1 2))"
    using complete(2) by (simp only: simp_thms) (simp, blast)
  then show ?thesis by (metis p0)
qed

end
