(* ===== verification/Pipeline_Fair.thy ===== *)
theory Pipeline_Fair
  imports Pipeline_Answers
begin

text \<open>
  The pipeline under a fair scheduler: infinite runs of the main thread of \<open>main.rs\<close> and the
  executors of \<open>executor.rs\<close>, with connections arriving at any time and pauses of any length. The ranking of
  \<open>Pipeline_Answers\<close> makes the pipeline an instance of \<open>ranked_goal\<close>.
\<close>

section \<open>Threads that can move\<close>

text \<open>
  The main thread has a connection to queue; an executor holds a connection or has one waiting. The
  arrival of connections is not demanded of anyone.
\<close>

fun thread_ready :: "thread \<Rightarrow> pipeline \<Rightarrow> bool" where
  "thread_ready MainThread p \<longleftrightarrow> p_main p \<noteq> MIdle"
| "thread_ready (ExecThread i) p \<longleftrightarrow> i < stage_count \<and> p_execs p i \<noteq> EDead
     \<and> (exec_ids (p_execs p i) \<noteq> [] \<or> ring_contents (p_queues p i) \<noteq> [])"

text \<open>A thread that is ready has a step to make, so that fairness can be kept.\<close>

lemma ready_can_move:
  assumes inv: "pipeline_inv n p" and "thread_ready t p"
  shows "\<exists>p'. pipeline_step env p p' \<and> thread_moves t p p'"
proof (cases t)
  case MainThread
  with assms(2) main_can_move [OF inv] show ?thesis by (cases "p_main p") fastforce+
next
  case (ExecThread i)
  with assms(2) exec_can_move [OF inv, of i env] show ?thesis by auto
qed

definition fair_run :: "stage_env \<Rightarrow> usize \<Rightarrow> usize \<Rightarrow> tracked run \<Rightarrow> bool" where
  "fair_run env slab_cap queue_cap r \<longleftrightarrow>
     r 0 = (pipeline_init slab_cap queue_cap, Map.empty) \<and> is_run (stutter (tracked_step env)) r
     \<and> (\<forall>t. fair_to (\<lambda>s. thread_ready t (fst s)) (\<lambda>s s'. thread_moves t (fst s) (fst s')) r)"

section \<open>The ranking\<close>

definition place_of :: "pipeline \<Rightarrow> conn_id \<Rightarrow> place" where
  "place_of p cid = (THE l. cid \<in> set (ids_at p l))"

lemma place_of_eq: "pipeline_inv n p \<Longrightarrow> cid \<in> set (ids_at p l) \<Longrightarrow> place_of p cid = l"
  unfolding place_of_def by (rule the_equality) (auto dest: only_at)

lemma place_of: "pipeline_inv n p \<Longrightarrow> in_pipeline p cid \<Longrightarrow> cid \<in> set (ids_at p (place_of p cid))"
  by (auto simp: in_pipeline_def dest: place_of_eq)

text \<open>What holds at every point of a run whose parse thread lives.\<close>

definition lives :: "stage_env \<Rightarrow> nat \<Rightarrow> nat \<Rightarrow> tracked \<Rightarrow> bool" where
  "lives env n k s \<longleftrightarrow> well_run env n k s \<and> rear_empty (fst s) \<and> in_flight (fst s) \<le> k \<and> (\<forall>i. p_execs (fst s) i \<noteq> EDead)"

definition awaited :: "stage_env \<Rightarrow> conn_id \<Rightarrow> tcp_stream \<Rightarrow> tracked \<Rightarrow> bool" where
  "awaited env cid s0 s \<longleftrightarrow> in_pipeline (fst s) cid \<and> snd s cid = Some s0 \<and> complete_request env s0"

lemma helper_is_ready:
  assumes "lives env n k (p, g)" and "in_pipeline p cid"
  shows "thread_ready (thread_of (place_of p cid)) p"
proof -
  have inv: "pipeline_inv n p" and rear: "rear_empty p" and alive: "\<And>i. p_execs p i \<noteq> EDead"
    using assms(1) by (simp_all add: lives_def well_run_def)
  note at = place_of [OF inv assms(2)]
  have stage: "i < stage_count" if "ring_contents (p_queues p i) \<noteq> [] \<or> exec_ids (p_execs p i) \<noteq> []" for i
  proof (rule ccontr)
    assume "\<not> i < stage_count"
    with rear that show False by (auto simp: rear_empty_def)
  qed
  show ?thesis
  proof (cases "place_of p cid")
    case AtMain
    with at show ?thesis by auto
  next
    case (AtQueue i)
    with at have "ring_contents (p_queues p i) \<noteq> []" by auto
    with stage alive AtQueue show ?thesis by simp
  next
    case (AtExec i)
    with at have "exec_ids (p_execs p i) \<noteq> []" by auto
    with stage alive AtExec show ?thesis by simp
  qed
qed

lemma awaited_progress:
  assumes "lives env n k (p, g)" and "lives env n k (p', g')" and wait: "awaited env cid s0 (p, g)"
    and step: "tracked_step env (p, g) (p', g')"
  shows "serves env cid s0 p p' \<or> awaited env cid s0 (p', g')
    \<and> (rank_at p' cid (place_of p' cid) < rank_at p cid (place_of p cid)
      \<or> rank_at p' cid (place_of p' cid) = rank_at p cid (place_of p cid)
        \<and> thread_of (place_of p' cid) = thread_of (place_of p cid)
        \<and> \<not> thread_moves (thread_of (place_of p cid)) p p')"
proof -
  have w: "pipeline_inv n p" "data_inv env (p, g)" "rooms k p" "in_flight p \<le> k" "last_passes_none p" "pipeline_inv n p'"
    using assms(1,2) by (simp_all add: lives_def well_run_def)
  have a: "in_pipeline p cid" "g cid = Some s0" "complete_request env s0"
    using wait by (simp_all add: awaited_def)
  note at = place_of [OF w(1) a(1)]
  from moves_on [OF w(1-5) at a(2,3) tracked_untracked [OF step]] show ?thesis
  proof
    assume "closer cid (place_of p cid) p p'"
    then obtain l' where l': "cid \<in> set (ids_at p' l')" and r: "rank_at p' cid l' < rank_at p cid (place_of p cid)
        \<or> l' = place_of p cid \<and> rank_at p' cid (place_of p cid) = rank_at p cid (place_of p cid)
          \<and> \<not> thread_moves (thread_of (place_of p cid)) p p'"
      unfolding closer_def by blast
    have "awaited env cid s0 (p', g')"
      using in_pipelineI [OF l'] tracked_keeps [OF step w(1) at] a(2,3) by (simp add: awaited_def)
    moreover have "place_of p' cid = l'" using place_of_eq [OF w(6) l'] .
    ultimately show ?thesis using r by auto
  qed blast
qed

lemma not_moved: "\<not> thread_moves t p p"
  by (cases t) simp_all

interpretation answers: ranked_goal "stutter (tracked_step env)" "lives env cap room" "awaited env cid s0"
  "\<lambda>s s'. serves env cid s0 (fst s) (fst s')" "\<lambda>s. rank_at (fst s) cid (place_of (fst s) cid)"
  "\<lambda>s. thread_of (place_of (fst s) cid)" "\<lambda>t s. thread_ready t (fst s)"
  "\<lambda>t s s'. thread_moves t (fst s) (fst s')" for env cap room cid s0
proof unfold_locales
  fix s :: tracked
  assume "lives env cap room s" "awaited env cid s0 s"
  then show "thread_ready (thread_of (place_of (fst s) cid)) (fst s)"
    using helper_is_ready [of env cap room "fst s" "snd s" cid] by (simp add: awaited_def)
next
  fix s s' :: tracked
  assume "lives env cap room s" "lives env cap room s'" "awaited env cid s0 s" "stutter (tracked_step env) s s'"
  then show "serves env cid s0 (fst s) (fst s') \<or> awaited env cid s0 s'
      \<and> (rank_at (fst s') cid (place_of (fst s') cid) < rank_at (fst s) cid (place_of (fst s) cid)
        \<or> rank_at (fst s') cid (place_of (fst s') cid) = rank_at (fst s) cid (place_of (fst s) cid)
          \<and> thread_of (place_of (fst s') cid) = thread_of (place_of (fst s) cid)
          \<and> \<not> thread_moves (thread_of (place_of (fst s) cid)) (fst s) (fst s'))"
    using awaited_progress [of env cap room "fst s" "snd s" "fst s'" "snd s'" cid s0] not_moved [of _ "fst s"]
    by (cases "s' = s") (simp_all add: stutter_def)
qed

section \<open>Fair runs\<close>

lemma fair_run_lives:
  assumes run: "fair_run env slab_cap queue_cap r" and "slab_cap < 2 ^ 64" and "in_flight (fst (r m)) < queue_cap"
    and alive: "p_execs (fst (r m)) 0 \<noteq> EDead"
  shows "lives env slab_cap (queue_cap - 1) (r m)"
proof -
  have qcap: "0 < queue_cap" using assms(3) by simp
  have reach: "(tracked_step env)\<^sup>*\<^sup>* (pipeline_init slab_cap queue_cap, Map.empty) (fst (r m), snd (r m))"
    using stutter_run_reaches [of 0 m "tracked_step env" r] run by (simp add: fair_run_def)
  have "p_execs (fst (r m)) i \<noteq> EDead" for i
    using dead_is_parse [OF reach assms(2) qcap] alive by (cases i) auto
  then show ?thesis
    using well_run_reachable [OF reach assms(2) qcap] rear_empty_reachable [OF tracked_run [OF reach]] assms(3)
    by (simp add: lives_def)
qed

text \<open>
  A run without new connections, continued for ever where the threads have nothing left to do, is
  fair; so every state has a fair future.
\<close>

lemma stuck_not_ready: "pipeline_inv n p \<Longrightarrow> stuck env p \<Longrightarrow> \<not> thread_ready t p"
proof (cases t)
  case MainThread
  assume "pipeline_inv n p" "stuck env p"
  with main_can_step [of n p _ env] MainThread show ?thesis by (cases "p_main p") (auto simp: stuck_def)
next
  case (ExecThread i)
  assume "pipeline_inv n p" "stuck env p"
  with exec_can_step [of n p i env] ExecThread show ?thesis by (auto simp: stuck_def)
qed

lemma stuck_step:
  assumes inv: "pipeline_inv n p" and stuck: "stuck env p" and alive: "\<And>i. 0 < i \<Longrightarrow> p_execs p i \<noteq> EDead"
  shows "tracked_step env (p, g) (p, g)"
proof -
  have i: "1 < stage_count" by (simp add: stage_count_def)
  with stuck_is_empty [OF inv alive stuck] have e: "exec_ids (p_execs p 1) = []" "ring_contents (p_queues p 1) = []"
    by auto
  with alive [of 1] have "p_execs p 1 = EIdle" by (cases "p_execs p 1") auto
  from pipeline_step.poll [OF i this rq.pop_none [OF pipeline_invD(4) [OF inv] e(2)], of env]
  have "pipeline_step env p p" by simp
  then show ?thesis by (rule track_other) simp
qed

definition drained :: "stage_env \<Rightarrow> tracked \<Rightarrow> tracked \<Rightarrow> bool" where
  "drained env t t' \<longleftrightarrow> drain_step env (fst t) (fst t') \<and> snd t' = snd t"

lemma drained_tracked: "drained env t t' \<Longrightarrow> tracked_step env t t'"
  using drain_tracked [of env "fst t" "fst t'" "snd t"] by (cases t; cases t') (simp add: drained_def)

lemma drained_relpow: "(drained env ^^ k) (p, g) (p', g') \<longleftrightarrow> (drain_step env ^^ k) p p' \<and> g' = g"
proof (induction k arbitrary: p' g')
  case (Suc k)
  show ?case
  proof
    assume "(drained env ^^ Suc k) (p, g) (p', g')"
    then obtain q h where "(drained env ^^ k) (p, g) (q, h)" "drained env (q, h) (p', g')" by auto
    then have "(drain_step env ^^ k) p q" "h = g" "drain_step env q p'" "g' = h"
      using Suc.IH [of q h] by (simp_all add: drained_def [of env "(q, _)"])
    then show "(drain_step env ^^ Suc k) p p' \<and> g' = g" by auto
  next
    assume a: "(drain_step env ^^ Suc k) p p' \<and> g' = g"
    then obtain q where "(drain_step env ^^ k) p q" "drain_step env q p'" by auto
    with a have "(drained env ^^ k) (p, g) (q, g)" "drained env (q, g) (p', g')"
      using Suc.IH [of q g] by (simp_all add: drained_def [of env "(q, g)"])
    then show "(drained env ^^ Suc k) (p, g) (p', g')" by auto
  qed
qed auto

text \<open>What follows after point \<open>j\<close> of the run are steps without new connections.\<close>

lemma fair_future:
  assumes reach: "(tracked_step env)\<^sup>*\<^sup>* (pipeline_init slab_cap queue_cap, Map.empty) (p, g)"
    and "slab_cap < 2 ^ 64" and "0 < queue_cap"
  shows "\<exists>r j. fair_run env slab_cap queue_cap r \<and> r j = (p, g) \<and> (\<forall>n \<ge> j. \<exists>i. (drain_step env ^^ i) p (fst (r n)))"
proof -
  note inv = pipeline_inv_reachable [OF tracked_run [OF reach] assms(2,3)]
  from drain_to_stuck [OF inv] obtain k p' where k: "(drain_step env ^^ k) p p'" "stuck env p'" by blast
  from drain_run [OF inv k(1)] have inv': "pipeline_inv slab_cap p'" by simp
  from reach obtain j where j: "(tracked_step env ^^ j) (pipeline_init slab_cap queue_cap, Map.empty) (p, g)"
    by (auto simp: rtranclp_power)
  have dr: "(drained env ^^ k) (p, g) (p', g)" using k(1) by (simp add: drained_relpow)
  have "tracked_step env (p', g) (p', g)"
  proof (rule stuck_step [OF inv' k(2)])
    from run_tracked [OF drain_run [OF inv k(1), THEN conjunct2, THEN conjunct1], of g] obtain g' where
      "(tracked_step env)\<^sup>*\<^sup>* (p, g) (p', g')" by blast
    from dead_is_parse [OF rtranclp_trans [OF reach this] assms(2,3)]
    show "\<And>i. 0 < i \<Longrightarrow> p_execs p' i \<noteq> EDead" by blast
  qed
  note rest = this
  have "\<exists>r. is_run (tracked_step env) r \<and> r 0 = (pipeline_init slab_cap queue_cap, Map.empty) \<and> r j = (p, g)
      \<and> (\<forall>n \<ge> j. \<exists>i. (drained env ^^ i) (p, g) (r n)) \<and> (\<forall>n \<ge> j + k. r n = (p', g))"
    by (rule run_then_rest [OF j dr drained_tracked rest])
  then obtain r where r: "is_run (tracked_step env) r" "r 0 = (pipeline_init slab_cap queue_cap, Map.empty)"
    "r j = (p, g)" "\<forall>n \<ge> j. \<exists>i. (drained env ^^ i) (p, g) (r n)" "\<forall>n \<ge> j + k. r n = (p', g)"
    by blast
  have "fair_to (\<lambda>s. thread_ready t (fst s)) (\<lambda>s s'. thread_moves t (fst s) (fst s')) r" for t
    unfolding fair_to_def
  proof
    fix n
    have "r (max n (j + k)) = (p', g)" using r(5) by simp
    with stuck_not_ready [OF inv' k(2), of t] show "\<exists>m \<ge> n. \<not> thread_ready t (fst (r m)) \<or> thread_moves t (fst (r m)) (fst (r (Suc m)))"
      by (intro exI [of _ "max n (j + k)"]) simp
  qed
  with r(1,2) have "fair_run env slab_cap queue_cap r" using is_run_stutter by (simp add: fair_run_def)
  moreover have "\<exists>i. (drain_step env ^^ i) p (fst (r n))" if "j \<le> n" for n
  proof -
    from r(4) that obtain i where "(drained env ^^ i) (p, g) (r n)" by blast
    then have "(drained env ^^ i) (p, g) (fst (r n), snd (r n))" by simp
    then have "(drain_step env ^^ i) p (fst (r n))" unfolding drained_relpow ..
    then show ?thesis ..
  qed
  ultimately show ?thesis using r(3) by blast
qed

text \<open>An idle server and one client with a complete request.\<close>

lemma one_request_run:
  fixes env s
  defines "env \<equiv> \<lparr> landing_page = [60], header_order = id, unicode_lower = id \<rparr>"
  defines "s \<equiv> \<lparr> rx = [ReadOk (request_head [71] [47] [49] [(lit ''Content-Length'', [0x32])] @ [104, 105])],
      tx = [WriteOk (length (to_bytes id (response_for env [47])))], wire = [] \<rparr>"
  shows "\<exists>r n cid. fair_run env 1 2 r \<and> p_execs (fst (r n)) 0 = EHold cid \<and> snd (r n) cid = Some s
    \<and> complete_request env s \<and> takes_response env s \<and> (\<forall>m \<ge> n. p_execs (fst (r m)) 0 \<noteq> EDead)"
proof -
  have complete: "complete_request env s" "takes_response env s" using one_request_complete by (simp_all add: env_def s_def)
  have inv0: "pipeline_inv 1 (pipeline_init 1 2)" by (rule pipeline_inv_init) simp_all
  have "0 < vacant_count (p_slab (pipeline_init 1 2))"
    by (simp add: pipeline_init_def slab_new_def vacant_count_def Let_def)
  from quiet_accepts [OF quiet_init inv0 this, of env Map.empty s 0] obtain cid p where
    p: "(tracked_step env)\<^sup>*\<^sup>* (pipeline_init 1 2, Map.empty) (p, [cid \<mapsto> s])" "solitary 0 cid p"
    by auto
  have hold: "p_execs p 0 = EHold cid" using p(2) by (simp add: solitary_def)
  have all: "all_complete env (p, [cid \<mapsto> s])" using complete by (auto simp: all_complete_def split: if_splits)
  from fair_future [OF p(1)] obtain r j where
    r: "fair_run env 1 2 r" "r j = (p, [cid \<mapsto> s])" "\<forall>n \<ge> j. \<exists>i. (drain_step env ^^ i) p (fst (r n))"
    by auto
  have "p_execs (fst (r m)) 0 \<noteq> EDead" if m: "j \<le> m" for m
  proof -
    from r(3) m obtain i where "(drain_step env ^^ i) p (fst (r m))" by blast
    then show ?thesis by (rule complete_survives [OF p(1) _ _ all, rotated -1]) (simp_all add: hold)
  qed
  with r(1,2) hold complete show ?thesis by (intro exI [of _ r] exI [of _ j] exI [of _ cid]) simp
qed

text \<open>
  No request starves. In every infinite run under a scheduler that is fair to the main thread
  and the executors, with new connections arriving at any time and fewer connections in the pipeline
  than a queue has entries: a connection with a complete request that is in the pipeline is served,
  by a step in which the output executor writes to the socket it came from what this takes of the
  response, as long as no other client makes the parse thread panic.
\<close>

lemma fair_run_serves:
  assumes "fair_run env slab_cap queue_cap r" and "slab_cap < 2 ^ 64"
    and "\<And>m. n \<le> m \<Longrightarrow> in_flight (fst (r m)) < queue_cap"
    and "in_pipeline (fst (r n)) cid" and "snd (r n) cid = Some s0" and "complete_request env s0"
    and "\<And>m. n \<le> m \<Longrightarrow> p_execs (fst (r m)) 0 \<noteq> EDead"
  shows "\<exists>m \<ge> n. serves env cid s0 (fst (r m)) (fst (r (Suc m)))
    \<and> (takes_response env s0 \<longrightarrow> served_whole env cid s0 (fst (r m)) (fst (r (Suc m))))"
proof -
  have run: "is_run (stutter (tracked_step env)) r" and
    fair: "fair_to (\<lambda>s. thread_ready t (fst s)) (\<lambda>s s'. thread_moves t (fst s) (fst s')) r" for t
    using assms(1) by (simp_all add: fair_run_def)
  have lives: "lives env slab_cap (queue_cap - 1) (r m)" if "n \<le> m" for m
    using fair_run_lives [OF assms(1,2) assms(3) [OF that] assms(7) [OF that]] .
  have wait: "awaited env cid s0 (r n)" using assms(4-6) by (simp add: awaited_def)
  have "\<exists>m \<ge> n. serves env cid s0 (fst (r m)) (fst (r (Suc m)))"
    by (rule answers.fair_reaches [OF run fair lives wait])
  then show ?thesis using serves_whole by blast
qed

lemma fair_run_serves_witness:
  "\<exists>r m cid. fair_run \<lparr> landing_page = [60], header_order = id, unicode_lower = id \<rparr> 1 2 r
    \<and> served_whole \<lparr> landing_page = [60], header_order = id, unicode_lower = id \<rparr> cid
        \<lparr> rx = [ReadOk (request_head [71] [47] [49] [(lit ''Content-Length'', [0x32])] @ [104, 105])],
          tx = [WriteOk (length (to_bytes id
            (response_for \<lparr> landing_page = [60], header_order = id, unicode_lower = id \<rparr> [47])))], wire = [] \<rparr>
        (fst (r m)) (fst (r (Suc m)))"
proof -
  let ?env = "\<lparr> landing_page = [60], header_order = id, unicode_lower = id \<rparr>"
  let ?s = "\<lparr> rx = [ReadOk (request_head [71] [47] [49] [(lit ''Content-Length'', [0x32])] @ [104, 105])],
    tx = [WriteOk (length (to_bytes id (response_for ?env [47])))], wire = [] \<rparr>"
  obtain r n cid where r: "fair_run ?env 1 2 r" "p_execs (fst (r n)) 0 = EHold cid" "snd (r n) cid = Some ?s"
    "complete_request ?env ?s" "takes_response ?env ?s" "\<And>m. n \<le> m \<Longrightarrow> p_execs (fst (r m)) 0 \<noteq> EDead"
    using one_request_run by blast
  have at: "in_pipeline (fst (r n)) cid" using r(2) by (intro in_pipelineI [of _ _ "AtExec 0"]) simp
  have room: "in_flight (fst (r m)) < 2" for m
  proof -
    have "(tracked_step ?env)\<^sup>*\<^sup>* (pipeline_init 1 2, Map.empty) (fst (r m), snd (r m))"
      using stutter_run_reaches [of 0 m "tracked_step ?env" r] r(1) by (simp add: fair_run_def)
    from pipeline_inv_reachable [OF tracked_run [OF this]] in_flight_bound show ?thesis by fastforce
  qed
  from fair_run_serves [OF r(1) _ room at r(3,4,6)] r(1,5) show ?thesis by auto
qed

end
