(* ===== verification/Executor_Fair.thy ===== *)
theory Executor_Fair
  imports Pipeline_Fair Executor
begin

text \<open>
  The executors as \<open>executor.rs\<close> has them, with their batches, idle counters and shutdown flags,
  under a fair scheduler: a thread that goes on running gets to its next connection, so that the
  system as a whole is a fair run of the pipeline.
\<close>

section \<open>Fair runs of the system\<close>

type_synonym tracked_system = "system \<times> (conn_id \<rightharpoonup> tcp_stream)"

abbreviation pipe_of :: "tracked_system \<Rightarrow> tracked" where
  "pipe_of t \<equiv> (sys_pipe (fst t), snd t)"

definition system_tracked :: "stage_env \<Rightarrow> tracked_system \<Rightarrow> tracked_system \<Rightarrow> bool" where
  "system_tracked env t t' \<longleftrightarrow> system_step env (fst t) (fst t') \<and> stutter (tracked_step env) (pipe_of t) (pipe_of t')"

definition running :: "nat \<Rightarrow> system \<Rightarrow> bool" where
  "running i s \<longleftrightarrow> loop_pc (sys_loops s i) \<notin> {LExited, LDead}"

definition fair_system :: "stage_env \<Rightarrow> usize \<Rightarrow> usize \<Rightarrow> tracked_system run \<Rightarrow> bool" where
  "fair_system env slab_cap queue_cap r \<longleftrightarrow>
     r 0 = (system_init slab_cap queue_cap, Map.empty) \<and> is_run (system_tracked env) r
     \<and> (\<forall>i < stage_count. fair_to (\<lambda>t. running i (fst t)) (\<lambda>t t'. exec_step env i (fst t) (fst t')) r)
     \<and> fair_to (\<lambda>t. p_main (sys_pipe (fst t)) \<noteq> MIdle) (\<lambda>t t'. p_main (sys_pipe (fst t')) \<noteq> p_main (sys_pipe (fst t))) r"

lemma system_tracked_reaches: "(system_tracked env)\<^sup>*\<^sup>* t t' \<Longrightarrow> (system_step env)\<^sup>*\<^sup>* (fst t) (fst t')"
  by (induction rule: rtranclp_induct) (auto simp: system_tracked_def intro: rtranclp.rtrancl_into_rtrancl)

lemma pipe_of_reaches: "(system_tracked env)\<^sup>*\<^sup>* t t' \<Longrightarrow> (tracked_step env)\<^sup>*\<^sup>* (pipe_of t) (pipe_of t')"
proof (induction rule: rtranclp_induct)
  case (step y z)
  then have "pipe_of z = pipe_of y \<or> tracked_step env (pipe_of y) (pipe_of z)" by (simp add: system_tracked_def stutter_def)
  with step.IH show ?case by (metis rtranclp.rtrancl_into_rtrancl)
qed simp

section \<open>A thread gets to its next connection\<close>

text \<open>How many steps it is away from the next \<open>pop\<close>, or from finishing what it holds.\<close>

fun to_pop :: "loop_pc \<Rightarrow> nat" where
  "to_pop (LPop k n) = (if k = 0 then 3 else 0)"
| "to_pop (LAfter n) = 2"
| "to_pop LTest = 1"
| "to_pop _ = 0"

lemma exec_step_to_pop:
  assumes ok: "system_ok cap s" and flag: "\<not> shutdown_flag (sys_loops s i)"
    and ready: "thread_ready (ExecThread i) (sys_pipe s)" and step: "exec_step env i s s'"
    and same: "p_execs (sys_pipe s') i = p_execs (sys_pipe s) i"
  shows "to_pop (loop_pc (sys_loops s' i)) < to_pop (loop_pc (sys_loops s i))"
  using step
proof cases
  case (none k n q)
  have "p_execs (sys_pipe s) i = EIdle" using ok none(2) by (auto simp: system_ok_def loop_ok_def dest: spec [of _ i])
  moreover have "ring_contents (p_queues (sys_pipe s) i) = []"
  proof (cases "ring_contents (p_queues (sys_pipe s) i)")
    case (Cons a as)
    have "pipeline_inv cap (sys_pipe s)" using ok by (simp add: system_ok_def)
    from rq.pop_some [OF pipeline_invD(4) [OF this] Cons] none(3) show ?thesis by auto
  qed
  ultimately show ?thesis using ready by simp
next
  case (some k n q cid)
  have "p_execs (sys_pipe s) i = EIdle" using ok some(2) by (auto simp: system_ok_def loop_ok_def dest: spec [of _ i])
  with some same show ?thesis by simp
next
  case (one k n cid slab' m' r)
  have "after_process i r \<noteq> EHold cid" by (auto simp: after_process_def split: sum.split option.split)
  with one same show ?thesis by simp
next
  case (push k n cid q r)
  with same show ?thesis by simp
qed (use flag in simp_all)

lemma system_step_to_pop:
  assumes ok: "system_ok cap s" and flag: "\<not> shutdown_flag (sys_loops s i)"
    and ready: "thread_ready (ExecThread i) (sys_pipe s)" and step: "system_step env s s'"
    and same: "p_execs (sys_pipe s') i = p_execs (sys_pipe s) i"
  shows "to_pop (loop_pc (sys_loops s' i)) \<le> to_pop (loop_pc (sys_loops s i))"
  using step
proof cases
  case (executor j)
  show ?thesis
  proof (cases "j = i")
    case True
    with exec_step_to_pop [OF ok flag ready _ same] executor(2) show ?thesis by (simp add: less_imp_le)
  next
    case False
    from exec_step_loops(2) [OF executor(2) _ False [symmetric]] ok show ?thesis by (simp add: system_ok_def)
  qed
next
  case main
  with main_step_pipeline show ?thesis by simp
next
  case handler
  with handler_step_pipeline show ?thesis by simp
qed

section \<open>The system is a fair run of the pipeline\<close>

lemma fair_system_reach:
  assumes "fair_system env slab_cap queue_cap r"
  shows "(system_tracked env)\<^sup>*\<^sup>* (system_init slab_cap queue_cap, Map.empty) (r n)"
  using assms is_run_reaches [of 0 n "system_tracked env" r] by (simp add: fair_system_def)

lemma fair_system_ok:
  assumes "fair_system env slab_cap queue_cap r" and "slab_cap < 2 ^ 64" and "0 < queue_cap"
  shows "system_ok slab_cap (fst (r n))" "\<not> shutdown_flag (sys_loops (fst (r n)) i)" "loop_pc (sys_loops (fst (r n)) i) \<noteq> LExited"
  using system_reachable [of env slab_cap queue_cap "fst (r n)"] shutdown_never_requested [of env slab_cap queue_cap "fst (r n)" i]
    system_tracked_reaches [OF fair_system_reach [OF assms(1)], of n] assms(2,3)
  by simp_all

lemma ready_runs: "system_ok cap s \<Longrightarrow> loop_pc (sys_loops s i) \<noteq> LExited \<Longrightarrow> p_execs (sys_pipe s) i \<noteq> EDead \<Longrightarrow> running i s"
  by (auto simp: system_ok_def running_def loop_ok_def dest: spec [of _ i])

lemma executor_moves:
  assumes fair: "fair_system env slab_cap queue_cap r" and cap: "slab_cap < 2 ^ 64" "0 < queue_cap" and i: "i < stage_count"
  shows "\<exists>m \<ge> n. \<not> thread_ready (ExecThread i) (sys_pipe (fst (r m)))
    \<or> thread_moves (ExecThread i) (sys_pipe (fst (r m))) (sys_pipe (fst (r (Suc m))))"
proof (induction "to_pop (loop_pc (sys_loops (fst (r n)) i))" arbitrary: n rule: less_induct)
  case less
  note ok = fair_system_ok [OF fair cap]
  have step: "system_step env (fst (r m)) (fst (r (Suc m)))" for m
    using fair by (simp add: fair_system_def is_run_def system_tracked_def)
  obtain m where m: "n \<le> m" "\<not> running i (fst (r m)) \<or> exec_step env i (fst (r m)) (fst (r (Suc m)))"
    using fair i unfolding fair_system_def fair_to_def by blast
  show ?case
  proof (rule ccontr)
    assume no: "\<not> ?case"
    then have stays: "thread_ready (ExecThread i) (sys_pipe (fst (r j)))"
      "p_execs (sys_pipe (fst (r (Suc j)))) i = p_execs (sys_pipe (fst (r j))) i" if "n \<le> j" for j
      using that by auto
    have mono: "to_pop (loop_pc (sys_loops (fst (r m)) i)) \<le> to_pop (loop_pc (sys_loops (fst (r n)) i))"
      using m(1)
    proof (induction m rule: nat_induct_at_least)
      case (Suc j)
      from system_step_to_pop [OF ok(1,2) stays(1) step stays(2)] Suc show ?case by (meson order_trans)
    qed simp
    have "p_execs (sys_pipe (fst (r m))) i \<noteq> EDead" using stays(1) [OF m(1)] by simp
    with ready_runs [OF ok(1,3)] m(2) have "exec_step env i (fst (r m)) (fst (r (Suc m)))" by blast
    from exec_step_to_pop [OF ok(1,2) stays(1) this stays(2)] m(1) mono
    have "to_pop (loop_pc (sys_loops (fst (r (Suc m))) i)) < to_pop (loop_pc (sys_loops (fst (r n)) i))" by simp
    from less.hyps [OF this] no m(1) show False by (meson Suc_leD le_trans)
  qed
qed

lemma fair_system_pipeline:
  assumes fair: "fair_system env slab_cap queue_cap r" and cap: "slab_cap < 2 ^ 64" "0 < queue_cap"
  shows "fair_run env slab_cap queue_cap (\<lambda>n. pipe_of (r n))"
proof -
  have "fair_to (\<lambda>s. thread_ready t (fst s)) (\<lambda>s s'. thread_moves t (fst s) (fst s')) (\<lambda>n. pipe_of (r n))" for t
  proof (cases t)
    case MainThread
    with fair show ?thesis by (simp add: fair_system_def fair_to_def)
  next
    case (ExecThread i)
    show ?thesis
    proof (cases "i < stage_count")
      case True
      with executor_moves [OF fair cap True] ExecThread show ?thesis by (simp add: fair_to_def)
    next
      case False
      with ExecThread show ?thesis by (auto simp: fair_to_def)
    qed
  qed
  with fair show ?thesis
    by (simp add: fair_run_def fair_system_def is_run_def system_tracked_def) (simp add: system_init_def)
qed

section \<open>Fair runs exist\<close>

text \<open>
  A scheduler that gives each executor and the main thread its turn, while nobody connects: what
  one turn does, and that complete requests keep the parse thread alive.
\<close>

definition takes_turn :: "stage_env \<Rightarrow> nat \<Rightarrow> tracked_system \<Rightarrow> tracked_system \<Rightarrow> bool" where
  "takes_turn env n t t' \<longleftrightarrow> system_tracked env t t'
     \<and> (n mod 6 < stage_count \<longrightarrow> running (n mod 6) (fst t) \<longrightarrow> exec_step env (n mod 6) (fst t) (fst t'))
     \<and> (n mod 6 = stage_count \<longrightarrow> p_main (sys_pipe (fst t)) \<noteq> MIdle \<longrightarrow> p_main (sys_pipe (fst t')) \<noteq> p_main (sys_pipe (fst t)))"

definition settled :: "stage_env \<Rightarrow> usize \<Rightarrow> usize \<Rightarrow> tracked_system \<Rightarrow> bool" where
  "settled env slab_cap queue_cap t \<longleftrightarrow> (system_tracked env)\<^sup>*\<^sup>* (system_init slab_cap queue_cap, Map.empty) t
     \<and> all_complete env (pipe_of t) \<and> p_execs (sys_pipe (fst t)) 0 \<noteq> EDead"

lemma quiet_step_settled:
  assumes t: "settled env slab_cap queue_cap (s, g)" and cap: "slab_cap < 2 ^ 64" "0 < queue_cap"
    and step: "system_step env s s'" and quiet: "p_main (sys_pipe s') = MIdle \<or> p_main (sys_pipe s') = p_main (sys_pipe s)"
  shows "system_tracked env (s, g) (s', g) \<and> settled env slab_cap queue_cap (s', g)"
proof -
  have reach: "(system_tracked env)\<^sup>*\<^sup>* (system_init slab_cap queue_cap, Map.empty) (s, g)"
    and all: "all_complete env (sys_pipe s, g)" and alive: "p_execs (sys_pipe s) 0 \<noteq> EDead"
    using t by (simp_all add: settled_def)
  have pipe: "(tracked_step env)\<^sup>*\<^sup>* (pipeline_init slab_cap queue_cap, Map.empty) (sys_pipe s, g)"
    using pipe_of_reaches [OF reach] by (simp add: system_init_def)
  note inv = pipeline_inv_reachable [OF tracked_run [OF pipe] cap]
  have ok: "system_ok slab_cap s"
    using system_reachable [of env slab_cap queue_cap s] system_tracked_reaches [OF reach] cap by simp
  have "stutter (tracked_step env) (sys_pipe s, g) (sys_pipe s', g) \<and> all_complete env (sys_pipe s', g)
      \<and> p_execs (sys_pipe s') 0 \<noteq> EDead"
  proof (cases "sys_pipe s' = sys_pipe s")
    case True
    with all alive show ?thesis by (simp add: stutter_def)
  next
    case False
    with system_step_ok [OF ok step] have "pipeline_step env (sys_pipe s) (sys_pipe s')" by blast
    with False quiet have "drain_step env (sys_pipe s) (sys_pipe s')" by (auto simp: drain_step_def)
    from complete_survives_step [OF inv data_inv_reachable [OF pipe cap] all alive this] show ?thesis
      by (simp add: stutter_def)
  qed
  moreover from this step have "system_tracked env (s, g) (s', g)" by (simp add: system_tracked_def)
  ultimately show ?thesis using reach by (simp add: settled_def)
qed

lemma exec_step_main: "exec_step env i s s' \<Longrightarrow> p_main (sys_pipe s') = p_main (sys_pipe s)"
  by (auto elim!: exec_stepE)

lemma main_pushes:
  assumes ok: "system_ok cap s" and at: "p_main (sys_pipe s) = MPush cid"
  shows "\<exists>s'. main_step s s' \<and> p_main (sys_pipe s') = MIdle"
proof -
  have inv: "pipeline_inv cap (sys_pipe s)" using ok by (simp add: system_ok_def)
  have "id_ok cid" using live_index [OF inv pipeline_invD(7) [OF inv, of cid AtMain]] at by simp
  moreover obtain q r where push: "ring_push (p_queues (sys_pipe s) 0) cid = (q, r)"
    by (cases "ring_push (p_queues (sys_pipe s) 0) cid")
  ultimately consider u where "r = Inr u" | "r = Inl (Error cid)"
    using push_contents [OF pipeline_invD(4) [OF inv]] by blast
  then show ?thesis
  proof cases
    case 1
    with main_step.queue_accepted [OF at] push show ?thesis by fastforce
  next
    case 2
    with main_step.drop_accepted [OF at] push show ?thesis by fastforce
  qed
qed

lemma turn_exists:
  assumes t: "settled env slab_cap queue_cap t" and cap: "slab_cap < 2 ^ 64" "0 < queue_cap"
  shows "\<exists>t'. takes_turn env n t t' \<and> settled env slab_cap queue_cap t'"
proof -
  obtain s g where sg: "t = (s, g)" by (cases t)
  have reach: "(system_step env)\<^sup>*\<^sup>* (system_init slab_cap queue_cap) s"
    using t system_tracked_reaches [of env _ t] by (simp add: settled_def sg) (metis fst_conv)
  have ok: "system_ok slab_cap s" using system_reachable [OF reach cap] by simp
  note quiet = quiet_step_settled [OF t [unfolded sg] cap]
  consider "n mod 6 < stage_count" "running (n mod 6) s" | "n mod 6 = stage_count" "p_main (sys_pipe s) \<noteq> MIdle"
    | "\<not> (n mod 6 < stage_count \<and> running (n mod 6) s)" "\<not> (n mod 6 = stage_count \<and> p_main (sys_pipe s) \<noteq> MIdle)" by blast
  then show ?thesis
  proof cases
    case 1
    from exec_progress [OF ok] 1(2) obtain s' where s': "exec_step env (n mod 6) s s'" by (auto simp: running_def)
    from quiet [OF system_step.executor [OF 1(1) s']] exec_step_main [OF s'] s' 1(1) show ?thesis
      by (intro exI [of _ "(s', g)"]) (simp add: takes_turn_def sg)
  next
    case 2
    then obtain cid where "p_main (sys_pipe s) = MPush cid" by (cases "p_main (sys_pipe s)") auto
    from main_pushes [OF ok this] obtain s' where s': "main_step s s'" "p_main (sys_pipe s') = MIdle" by blast
    from quiet [OF system_step.main [OF s'(1)]] s'(2) 2 show ?thesis
      by (intro exI [of _ "(s', g)"]) (simp add: takes_turn_def sg)
  next
    case 3
    have flags: "handler_running s" "\<not> main_flag s" using shutdown_never_requested [OF reach, of 0] by simp_all
    have "s\<lparr>handler_running := True\<rparr> = s" using flags(1) by (cases s) simp
    with handler_step.check [OF flags(1)] flags have "handler_step s s" by simp
    from quiet [OF system_step.handler [OF this]] 3 show ?thesis
      by (intro exI [of _ "(s, g)"]) (auto simp: takes_turn_def sg)
  qed
qed

lemma fair_system_exists:
  assumes start: "system_tracked env (system_init slab_cap queue_cap, Map.empty) t" "settled env slab_cap queue_cap t"
    and cap: "slab_cap < 2 ^ 64" "0 < queue_cap"
  shows "\<exists>r. fair_system env slab_cap queue_cap r \<and> r (Suc 0) = t
    \<and> (\<forall>n. p_execs (sys_pipe (fst (r (Suc n)))) 0 \<noteq> EDead)"
proof -
  have "\<exists>f. \<forall>n. (settled env slab_cap queue_cap (f n) \<and> (n = 0 \<longrightarrow> f n = t)) \<and> takes_turn env n (f n) (f (Suc n))"
  proof (rule dependent_nat_choice)
    show "\<exists>x. settled env slab_cap queue_cap x \<and> (0 = (0 :: nat) \<longrightarrow> x = t)" using start(2) by blast
  next
    fix x and n :: nat
    assume "settled env slab_cap queue_cap x \<and> (n = 0 \<longrightarrow> x = t)"
    with turn_exists [OF _ cap, of env x n] obtain y where "takes_turn env n x y" "settled env slab_cap queue_cap y" by blast
    then show "\<exists>y. (settled env slab_cap queue_cap y \<and> (Suc n = 0 \<longrightarrow> y = t)) \<and> takes_turn env n x y" by blast
  qed
  then obtain f where f: "f 0 = t" "\<And>n. settled env slab_cap queue_cap (f n)" "\<And>n. takes_turn env n (f n) (f (Suc n))" by blast
  define r where "r n = (case n of 0 \<Rightarrow> (system_init slab_cap queue_cap, Map.empty) | Suc m \<Rightarrow> f m)" for n
  have rS: "r (Suc n) = f n" for n by (simp add: r_def)
  have "system_tracked env (r n) (r (Suc n))" for n
    using start(1) f(1) f(3) by (cases n) (simp_all add: r_def takes_turn_def)
  moreover have turn: "\<exists>m \<ge> n. m mod 6 = i" if "i < 6" for n i :: nat
    using that by (intro exI [of _ "6 * n + i"]) simp
  have "fair_to (\<lambda>t. running i (fst t)) (\<lambda>t t'. exec_step env i (fst t) (fst t')) r" if i: "i < stage_count" for i
    unfolding fair_to_def
  proof
    fix n
    have "i < 6" using i by (simp add: stage_count_def)
    from turn [OF this] obtain m where m: "n \<le> m" "m mod 6 = i" by blast
    with f(3) [of m] i show "\<exists>m \<ge> n. \<not> running i (fst (r m)) \<or> exec_step env i (fst (r m)) (fst (r (Suc m)))"
      by (intro exI [of _ "Suc m"]) (auto simp: takes_turn_def rS)
  qed
  moreover have "fair_to (\<lambda>t. p_main (sys_pipe (fst t)) \<noteq> MIdle) (\<lambda>t t'. p_main (sys_pipe (fst t')) \<noteq> p_main (sys_pipe (fst t))) r"
    unfolding fair_to_def
  proof
    fix n
    have "stage_count < 6" by (simp add: stage_count_def)
    from turn [OF this] obtain m where m: "n \<le> m" "m mod 6 = stage_count" by blast
    with f(3) [of m] show "\<exists>m \<ge> n. \<not> p_main (sys_pipe (fst (r m))) \<noteq> MIdle
        \<or> p_main (sys_pipe (fst (r (Suc m)))) \<noteq> p_main (sys_pipe (fst (r m)))"
      by (intro exI [of _ "Suc m"]) (auto simp: takes_turn_def rS)
  qed
  ultimately have "fair_system env slab_cap queue_cap r" by (simp add: fair_system_def is_run_def) (simp add: r_def)
  moreover have "p_execs (sys_pipe (fst (r (Suc n)))) 0 \<noteq> EDead" for n using f(2) [of n] by (simp add: settled_def rS)
  ultimately show ?thesis using f(1) by (intro exI [of _ r]) (simp add: rS)
qed

section \<open>Properties\<close>

text \<open>
  C2: No complete request starves on its way to the output stage. Take the executors with their
  batches of a hundred, idle counters and shutdown flags, the main thread and its accept loop,
  scheduled fairly: an executor that has not ended runs again and again, and the main thread does not
  keep a connection for ever. New connections arrive at any time; the premises are that the pipeline
  never has as many connections as a queue has entries (the numbers of \<open>main\<close>, 10000 slots and queues
  of 4096, do not enforce it: a full queue loses a connection) and that no other client makes the
  parse thread panic. Then a connection in the pipeline with a complete request is served, by a step
  in which the output executor holds it with exactly the response the code gives to this request (404
  for all paths but \<open>/\<close> and \<open>/api/test\<close>) and writes to the socket it came from what that takes
  (\<open>serves\<close>): all of it, and the slot is free, or a first part, and the rest is never sent, or the
  write fails. If the socket takes the whole response (\<open>takes_response\<close>), all of it is written and
  the slot is free (\<open>served_whole\<close>).
\<close>

theorem executors_starve_nobody:
  assumes "fair_system env slab_cap queue_cap r" and "slab_cap < 2 ^ 64"
    and "\<And>m. n \<le> m \<Longrightarrow> in_flight (sys_pipe (fst (r m))) < queue_cap"
    and "in_pipeline (sys_pipe (fst (r n))) cid" and "snd (r n) cid = Some s0" and "complete_request env s0"
    and "\<And>m. n \<le> m \<Longrightarrow> p_execs (sys_pipe (fst (r m))) 0 \<noteq> EDead"
  shows "\<exists>m \<ge> n. serves env cid s0 (sys_pipe (fst (r m))) (sys_pipe (fst (r (Suc m))))
    \<and> (takes_response env s0 \<longrightarrow> served_whole env cid s0 (sys_pipe (fst (r m))) (sys_pipe (fst (r (Suc m)))))"
proof -
  have "0 < queue_cap" using assms(3) [of n] by simp
  note fair = fair_system_pipeline [OF assms(1,2) this]
  have "\<exists>m \<ge> n. serves env cid s0 (fst (pipe_of (r m))) (fst (pipe_of (r (Suc m))))
      \<and> (takes_response env s0 \<longrightarrow> served_whole env cid s0 (fst (pipe_of (r m))) (fst (pipe_of (r (Suc m)))))"
    by (rule fair_run_serves [OF fair assms(2)]) (use assms(3-7) in simp_all)
  then show ?thesis by simp
qed

theorem executors_starve_nobody_witness:
  "\<exists>r m cid. fair_system \<lparr> landing_page = [60], header_order = id, unicode_lower = id \<rparr> 1 2 r
    \<and> served_whole \<lparr> landing_page = [60], header_order = id, unicode_lower = id \<rparr> cid
        \<lparr> rx = [ReadOk (request_head [71] [47] [49] [(lit ''Content-Length'', [0x32])] @ [104, 105])],
          tx = [WriteOk (length (to_bytes id
            (response_for \<lparr> landing_page = [60], header_order = id, unicode_lower = id \<rparr> [47])))], wire = [] \<rparr>
        (sys_pipe (fst (r m))) (sys_pipe (fst (r (Suc m))))"
proof -
  let ?env = "\<lparr> landing_page = [60], header_order = id, unicode_lower = id \<rparr>"
  let ?s = "\<lparr> rx = [ReadOk (request_head [71] [47] [49] [(lit ''Content-Length'', [0x32])] @ [104, 105])],
    tx = [WriteOk (length (to_bytes id (response_for ?env [47])))], wire = [] \<rparr>"
  let ?i = "system_init 1 2"
  have wf: "slab_wf (p_slab (sys_pipe ?i))" and vac: "0 < vacant_count (p_slab (sys_pipe ?i))"
    using slab_wf_new [of 1] by (simp_all add: system_init_def pipeline_init_def) (simp add: slab_new_def vacant_count_def Let_def)
  from cs.insert_fresh [OF wf vac, of "conn_new 0 ?s"] obtain slab' cid where
    ins: "slab_insert (p_slab (sys_pipe ?i)) (conn_new 0 ?s) = (slab', Inr (Some cid))" by blast
  have idle: "p_main (sys_pipe ?i) = MIdle" "\<not> main_left ?i" by (simp_all add: system_init_def pipeline_init_def)
  define s1 where "s1 = ?i\<lparr>sys_pipe := (sys_pipe ?i)\<lparr>p_slab := slab',
      p_metrics := inc_total_conns (p_metrics (sys_pipe ?i)), p_main := MPush cid\<rparr>\<rparr>"
  have "system_step ?env ?i s1"
    unfolding s1_def by (rule system_step.main, rule main_step.accept [OF idle(2,1) ins])
  moreover have "tracked_step ?env (sys_pipe ?i, Map.empty) (sys_pipe s1, [cid \<mapsto> ?s])"
    using track_accept [OF idle(1) ins] by (simp add: s1_def)
  ultimately have first: "system_tracked ?env (?i, Map.empty) (s1, [cid \<mapsto> ?s])"
    by (simp add: system_tracked_def stutter_def)
  have complete: "complete_request ?env ?s" and takes: "takes_response ?env ?s" using one_request_complete by simp_all
  then have "settled ?env 1 2 (s1, [cid \<mapsto> ?s])"
    using first by (auto simp: settled_def all_complete_def s1_def system_init_def pipeline_init_def split: if_splits)
  from fair_system_exists [OF first this] obtain r where
    r: "fair_system ?env 1 2 r" "r (Suc 0) = (s1, [cid \<mapsto> ?s])" "\<And>n. p_execs (sys_pipe (fst (r (Suc n)))) 0 \<noteq> EDead"
    by auto
  have at: "in_pipeline (sys_pipe (fst (r (Suc 0)))) cid"
    using r(2) by (intro in_pipelineI [of _ _ AtMain]) (simp add: s1_def)
  have "\<exists>m \<ge> Suc 0. serves ?env cid ?s (sys_pipe (fst (r m))) (sys_pipe (fst (r (Suc m))))
      \<and> (takes_response ?env ?s \<longrightarrow> served_whole ?env cid ?s (sys_pipe (fst (r m))) (sys_pipe (fst (r (Suc m)))))"
  proof (rule executors_starve_nobody [OF r(1) _ _ at _ complete])
    fix m assume "Suc 0 \<le> m"
    then show "p_execs (sys_pipe (fst (r m))) 0 \<noteq> EDead" using r(3) [of "m - 1"] by simp
    have "pipeline_inv 1 (sys_pipe (fst (r m)))"
      using fair_system_ok(1) [OF r(1), of m] by (simp add: system_ok_def)
    then show "in_flight (sys_pipe (fst (r m))) < 2" using in_flight_bound by fastforce
  qed (simp_all add: r(2))
  with r(1) takes show ?thesis by blast
qed

end
