(* ===== verification/Ieee_Float.thy ===== *)
theory Ieee_Float
  imports Ners_Prelude "HOL-Library.Log_Nat"
begin

text \<open>
  The floating-point arithmetic of Rust, as far as the program uses it: binary formats with
  rounding to nearest, ties to even, signed zeros, infinities and not-a-number. A finite number
  is a sign and a rational magnitude; an operation rounds the exact result. The lemmas give
  monotonicity, exactness on representable numbers, and the relative error.
\<close>

section \<open>Formats and values\<close>

text \<open>Precision, exponent of the least subnormal, and exponent at which overflow begins.\<close>

datatype fp_format = Format (precision: nat) (min_exp: int) (max_exp: int)

definition f64 :: fp_format where "f64 = Format 53 (- 1074) 1024"
definition f32 :: fp_format where "f32 = Format 24 (- 149) 128"

datatype ieee =
    Num bool rat \<comment> \<open>sign (negative if true) and magnitude\<close>
  | Infty bool
  | NaN

section \<open>Rounding\<close>

text \<open>The exponent of the leading bit of a positive number.\<close>

definition expo :: "rat \<Rightarrow> int" where
  "expo q = (case quotient_of q of (a, b) \<Rightarrow>
     let k = bitlen a - bitlen b in if 2 powi k \<le> q then k else k - 1)"

definition rne :: "rat \<Rightarrow> int" where
  "rne x =
     (let d = x - of_int \<lfloor>x\<rfloor> in
      if d < 1 / 2 then \<lfloor>x\<rfloor>
      else if 1 / 2 < d then \<lfloor>x\<rfloor> + 1
      else if even \<lfloor>x\<rfloor> then \<lfloor>x\<rfloor>
      else \<lfloor>x\<rfloor> + 1)"

definition ulp_exp :: "fp_format \<Rightarrow> rat \<Rightarrow> int" where
  "ulp_exp f q = max (expo q - int (precision f) + 1) (min_exp f)"

definition round_mag :: "fp_format \<Rightarrow> rat \<Rightarrow> rat" where
  "round_mag f q =
     (if q = 0 then 0 else of_int (rne (q / 2 powi ulp_exp f q)) * 2 powi ulp_exp f q)"

definition fp :: "fp_format \<Rightarrow> bool \<Rightarrow> rat \<Rightarrow> ieee" where
  "fp f s q = (let r = round_mag f q in if 2 powi max_exp f \<le> r then Infty s else Num s r)"

section \<open>Operations\<close>

definition fp_of_nat :: "fp_format \<Rightarrow> nat \<Rightarrow> ieee" where
  "fp_of_nat f n = fp f False (of_nat n)"

fun fp_mul :: "fp_format \<Rightarrow> ieee \<Rightarrow> ieee \<Rightarrow> ieee" where
  "fp_mul f (Num s q) (Num t r) = fp f (s \<noteq> t) (q * r)"
| "fp_mul f (Infty s) (Num t r) = (if r = 0 then NaN else Infty (s \<noteq> t))"
| "fp_mul f (Num s q) (Infty t) = (if q = 0 then NaN else Infty (s \<noteq> t))"
| "fp_mul f (Infty s) (Infty t) = Infty (s \<noteq> t)"
| "fp_mul f _ _ = NaN"

fun fp_div :: "fp_format \<Rightarrow> ieee \<Rightarrow> ieee \<Rightarrow> ieee" where
  "fp_div f (Num s q) (Num t r) =
     (if r = 0 then if q = 0 then NaN else Infty (s \<noteq> t) else fp f (s \<noteq> t) (q / r))"
| "fp_div f (Infty s) (Num t r) = Infty (s \<noteq> t)"
| "fp_div f (Num s q) (Infty t) = Num (s \<noteq> t) 0"
| "fp_div f _ _ = NaN"

definition signed :: "bool \<Rightarrow> rat \<Rightarrow> rat" where
  "signed s q = (if s then - q else q)"

fun fp_add :: "fp_format \<Rightarrow> ieee \<Rightarrow> ieee \<Rightarrow> ieee" where
  "fp_add f (Num s q) (Num t r) =
     (let v = signed s q + signed t r in if v = 0 then Num (s \<and> t) 0 else fp f (v < 0) \<bar>v\<bar>)"
| "fp_add f (Infty s) (Num t r) = Infty s"
| "fp_add f (Num s q) (Infty t) = Infty t"
| "fp_add f (Infty s) (Infty t) = (if s = t then Infty s else NaN)"
| "fp_add f _ _ = NaN"

fun fp_neg :: "ieee \<Rightarrow> ieee" where
  "fp_neg (Num s q) = Num (\<not> s) q"
| "fp_neg (Infty s) = Infty (\<not> s)"
| "fp_neg NaN = NaN"

definition fp_sub :: "fp_format \<Rightarrow> ieee \<Rightarrow> ieee \<Rightarrow> ieee" where
  "fp_sub f a b = fp_add f a (fp_neg b)"

text \<open>Every comparison with not-a-number is false.\<close>

fun fp_less :: "ieee \<Rightarrow> ieee \<Rightarrow> bool" where
  "fp_less (Num s q) (Num t r) = (signed s q < signed t r)"
| "fp_less (Num s q) (Infty t) = (\<not> t)"
| "fp_less (Infty s) (Num t r) = s"
| "fp_less (Infty s) (Infty t) = (s \<and> \<not> t)"
| "fp_less _ _ = False"

fun fp_le :: "ieee \<Rightarrow> ieee \<Rightarrow> bool" where
  "fp_le (Num s q) (Num t r) = (signed s q \<le> signed t r)"
| "fp_le (Num s q) (Infty t) = (\<not> t)"
| "fp_le (Infty s) (Num t r) = s"
| "fp_le (Infty s) (Infty t) = (s \<or> \<not> t)"
| "fp_le _ _ = False"

text \<open>\<open>min\<close> ignores a not-a-number, \<open>clamp\<close> keeps it.\<close>

definition fp_min :: "ieee \<Rightarrow> ieee \<Rightarrow> ieee" where
  "fp_min a b = (if a = NaN then b else if b = NaN then a else if fp_less b a then b else a)"

definition fp_clamp :: "ieee \<Rightarrow> ieee \<Rightarrow> ieee \<Rightarrow> ieee" where
  "fp_clamp lo hi x =
     (let x = (if fp_less x lo then lo else x) in if fp_less hi x then hi else x)"

text \<open>\<open>as f32\<close>, and the saturating casts to integers.\<close>

fun fp_cast :: "fp_format \<Rightarrow> ieee \<Rightarrow> ieee" where
  "fp_cast f (Num s q) = fp f s q"
| "fp_cast f x = x"

fun fp_to_unsigned :: "nat \<Rightarrow> ieee \<Rightarrow> nat" where
  "fp_to_unsigned most (Num s q) = (if s then 0 else min most (nat \<lfloor>q\<rfloor>))"
| "fp_to_unsigned most (Infty s) = (if s then 0 else most)"
| "fp_to_unsigned most NaN = 0"

fun fp_to_i32 :: "ieee \<Rightarrow> i32" where
  "fp_to_i32 (Num s q) = (if s then max (- (2 ^ 31)) (- \<lfloor>q\<rfloor>) else min (2 ^ 31 - 1) \<lfloor>q\<rfloor>)"
| "fp_to_i32 (Infty s) = (if s then - (2 ^ 31) else 2 ^ 31 - 1)"
| "fp_to_i32 NaN = 0"

section \<open>The exponent\<close>

lemma pow2_less [simp]: "2 powi a < (2 :: rat) powi b \<longleftrightarrow> a < b"
  by (metis linorder_less_linear one_less_numeral_iff order_less_asym' power_int_strict_increasing semiring_norm(76))

lemma pow2_le [simp]: "2 powi a \<le> (2 :: rat) powi b \<longleftrightarrow> a \<le> b"
  by (simp flip: not_less)

lemma expo_bounds:
  assumes "0 < q"
  shows "2 powi expo q \<le> q" and "q < 2 powi (expo q + 1)"
proof -
  obtain a b where ab: "quotient_of q = (a, b)" by (cases "quotient_of q")
  have b: "0 < b" using quotient_of_denom_pos [OF ab] .
  have q: "q = of_int a / of_int b" using quotient_of_div [OF ab] .
  then have a: "0 < a" using assms b by (simp add: zero_less_divide_iff)
  have pow: "(2 :: rat) powi int n = 2 ^ n" for n by simp
  have bit: "2 powi (bitlen c - 1) \<le> (of_int c :: rat)" "(of_int c :: rat) < 2 powi bitlen c" if "0 < c" for c
  proof -
    from bitlen_bounds [OF that] have "2 ^ nat (bitlen c - 1) \<le> c" "c < 2 ^ nat (bitlen c)" by simp_all
    then have "(of_int (2 ^ nat (bitlen c - 1)) :: rat) \<le> of_int c" "(of_int c :: rat) < of_int (2 ^ nat (bitlen c))"
      by (simp_all only: of_int_le_iff of_int_less_iff)
    moreover have "0 < bitlen c" using that bitlen_eq_zero_iff [of c] bitlen_nonneg [of c] by linarith
    ultimately show "2 powi (bitlen c - 1) \<le> (of_int c :: rat)" "(of_int c :: rat) < 2 powi bitlen c"
      by (simp_all add: power_int_def)
  qed
  let ?k = "bitlen a - bitlen b"
  have "2 powi (?k - 1) = (2 powi (bitlen a - 1) / 2 powi bitlen b :: rat)"
    by (simp add: power_int_diff)
  also have "\<dots> \<le> of_int a / of_int b"
    using bit [OF a] bit [OF b] a b by (intro frac_le) auto
  finally have lo: "2 powi (?k - 1) \<le> q" using q by simp
  have "of_int a / of_int b < (2 powi bitlen a / 2 powi (bitlen b - 1) :: rat)"
    using bit [OF a] bit [OF b] a b by (intro frac_less) auto
  also have "\<dots> = 2 powi (?k + 1)" by (simp add: power_int_diff power_int_add)
  finally have hi: "q < 2 powi (?k + 1)" using q by simp
  show "2 powi expo q \<le> q" "q < 2 powi (expo q + 1)"
    using lo hi by (auto simp: expo_def ab Let_def)
qed

lemma expo_eqI:
  assumes "2 powi e \<le> q" and "q < 2 powi (e + 1)"
  shows "expo q = e"
proof -
  have q: "0 < q" using assms(1) by (meson less_le_trans zero_less_numeral zero_less_power_int)
  from expo_bounds [OF q] assms have
    "2 powi expo q < (2 powi (e + 1) :: rat)" "2 powi e < (2 powi (expo q + 1) :: rat)" by linarith+
  then show ?thesis by simp
qed

lemma expo_mono:
  assumes "0 < q" and "q \<le> r"
  shows "expo q \<le> expo r"
proof -
  have "2 powi expo q < (2 powi (expo r + 1) :: rat)"
    using expo_bounds [of q] expo_bounds [of r] assms by linarith
  then show ?thesis by simp
qed

section \<open>Rounding is monotone, exact where it can be, and close\<close>

lemma rne_near: "\<bar>of_int (rne x) - x\<bar> \<le> 1 / 2"
  using floor_correct [of x] by (auto simp: rne_def Let_def abs_le_iff)

lemma rne_of_int [simp]: "rne (of_int n) = n"
  by (simp add: rne_def)

lemma rne_mono:
  assumes "x \<le> y"
  shows "rne x \<le> rne y"
proof (cases "\<lfloor>x\<rfloor> = \<lfloor>y\<rfloor>")
  case True
  with assms show ?thesis by (auto simp: rne_def Let_def)
next
  case False
  with floor_mono [OF assms] have "\<lfloor>x\<rfloor> + 1 \<le> \<lfloor>y\<rfloor>" by linarith
  moreover have "rne x \<le> \<lfloor>x\<rfloor> + 1" "\<lfloor>y\<rfloor> \<le> rne y" by (simp_all add: rne_def Let_def)
  ultimately show ?thesis by linarith
qed

lemma rne_nonneg: "0 \<le> x \<Longrightarrow> 0 \<le> rne x"
  using rne_mono [of 0 x] rne_of_int [of 0] by simp

lemma round_mag_zero [simp]: "round_mag f 0 = 0"
  by (simp add: round_mag_def)

lemma round_mag_nonneg: "0 \<le> q \<Longrightarrow> 0 \<le> round_mag f q"
  by (simp add: round_mag_def rne_nonneg)

text \<open>A number the format can hold, overflow aside.\<close>

definition representable :: "fp_format \<Rightarrow> rat \<Rightarrow> bool" where
  "representable f q \<longleftrightarrow>
     (\<exists>n k. q = of_int n * 2 powi k \<and> 0 \<le> n \<and> n < 2 ^ precision f \<and> min_exp f \<le> k)"

lemma round_mag_representable:
  assumes "representable f q"
  shows "round_mag f q = q"
proof (cases "q = 0")
  case False
  from assms obtain n k where n: "q = of_int n * 2 powi k" "0 \<le> n" "n < 2 ^ precision f" "min_exp f \<le> k"
    by (auto simp: representable_def)
  with False have pos: "0 < n" "0 < q" by (auto simp: less_le)
  have "of_int n < (2 :: rat) ^ precision f"
    using n(3) by (metis of_int_less_iff of_int_numeral of_int_power)
  then have "q < 2 powi int (precision f) * 2 powi k" using n(1) by simp
  then have "q < 2 powi (int (precision f) + k)" by (simp add: power_int_add)
  with expo_bounds(1) [OF pos(2)] have "2 powi expo q < (2 powi (int (precision f) + k) :: rat)" by linarith
  then have u: "ulp_exp f q \<le> k" using n(4) by (simp add: ulp_exp_def)
  let ?u = "ulp_exp f q"
  have "(2 powi k / 2 powi ?u :: rat) = 2 powi (k - ?u)" by (simp add: power_int_diff)
  also have "\<dots> = of_int (2 ^ nat (k - ?u))" using u by (simp add: power_int_def)
  finally have "of_int n * (2 powi k / 2 powi ?u :: rat) = of_int (n * 2 ^ nat (k - ?u))" by (simp only: of_int_mult)
  moreover have "q / 2 powi ?u = of_int n * (2 powi k / 2 powi ?u)" by (simp add: n(1))
  ultimately have d: "q / 2 powi ?u = of_int (n * 2 ^ nat (k - ?u))" by (simp only:)
  have "of_int (rne (q / 2 powi ?u)) * 2 powi ?u = q / 2 powi ?u * 2 powi ?u"
    unfolding d rne_of_int ..
  also have "\<dots> = q" by simp
  finally have "of_int (rne (q / 2 powi ?u)) * 2 powi ?u = q" .
  then show ?thesis using False by (simp add: round_mag_def)
qed simp

lemma representable_pow2: "0 < precision f \<Longrightarrow> min_exp f \<le> k \<Longrightarrow> representable f (2 powi k)"
  unfolding representable_def by (intro exI [of _ 1] exI [of _ k]) simp

lemma representable_nat:
  assumes "n < 2 ^ precision f" and "min_exp f \<le> 0"
  shows "representable f (of_nat n)"
proof -
  have "int n < 2 ^ precision f" using assms(1) by (metis of_nat_less_iff of_nat_numeral of_nat_power)
  then show ?thesis
    unfolding representable_def using assms(2) by (intro exI [of _ "int n"] exI [of _ 0]) simp
qed

text \<open>Rounding never crosses a power of two.\<close>

lemma round_mag_le_pow2:
  assumes "0 \<le> q" and "q \<le> 2 powi k" and "ulp_exp f q \<le> k"
  shows "round_mag f q \<le> 2 powi k"
proof (cases "q = 0")
  case False
  let ?u = "ulp_exp f q"
  have "q / 2 powi ?u \<le> 2 powi (k - ?u)" using assms(2) by (simp add: power_int_diff divide_right_mono)
  also have "\<dots> = of_int (2 ^ nat (k - ?u))" using assms(3) by (simp add: power_int_def)
  finally have "rne (q / 2 powi ?u) \<le> 2 ^ nat (k - ?u)" using rne_mono rne_of_int by metis
  then have "(of_int (rne (q / 2 powi ?u)) :: rat) \<le> of_int (2 ^ nat (k - ?u))" by (simp only: of_int_le_iff)
  then have "(of_int (rne (q / 2 powi ?u)) :: rat) \<le> 2 powi (k - ?u)" using assms(3) by (simp add: power_int_def)
  then have "of_int (rne (q / 2 powi ?u)) * 2 powi ?u \<le> (2 powi (k - ?u) * 2 powi ?u :: rat)"
    by (rule mult_right_mono) simp
  then show ?thesis using False by (simp add: round_mag_def flip: power_int_add)
qed simp

lemma pow2_le_round_mag:
  assumes "2 powi k \<le> q" and "ulp_exp f q \<le> k"
  shows "2 powi k \<le> round_mag f q"
proof -
  let ?u = "ulp_exp f q"
  have "0 < (2 :: rat) powi k" by simp
  with assms(1) have q: "q \<noteq> 0" by linarith
  have "2 powi (k - ?u) \<le> q / 2 powi ?u" using assms(1) by (simp add: power_int_diff divide_right_mono)
  moreover have "2 powi (k - ?u) = (of_int (2 ^ nat (k - ?u)) :: rat)" using assms(2) by (simp add: power_int_def)
  ultimately have "2 ^ nat (k - ?u) \<le> rne (q / 2 powi ?u)" using rne_mono rne_of_int by metis
  then have "(of_int (2 ^ nat (k - ?u)) :: rat) \<le> of_int (rne (q / 2 powi ?u))" by (simp only: of_int_le_iff)
  then have "2 powi (k - ?u) \<le> (of_int (rne (q / 2 powi ?u)) :: rat)" using assms(2) by (simp add: power_int_def)
  then have "(2 powi (k - ?u) * 2 powi ?u :: rat) \<le> of_int (rne (q / 2 powi ?u)) * 2 powi ?u"
    by (rule mult_right_mono) simp
  then show ?thesis using q by (simp add: round_mag_def flip: power_int_add)
qed

lemma round_mag_mono:
  assumes "0 \<le> q" and "q \<le> r" and "0 < precision f"
  shows "round_mag f q \<le> round_mag f r"
proof -
  consider (zero) "q = 0" | (same) "0 < q" "ulp_exp f q = ulp_exp f r" | (less) "0 < q" "ulp_exp f q \<noteq> ulp_exp f r"
    using assms(1) by fastforce
  then show ?thesis
  proof cases
    case zero
    then show ?thesis using round_mag_nonneg assms by simp
  next
    case same
    then have "q / 2 powi ulp_exp f r \<le> r / 2 powi ulp_exp f r" using assms(2) by (simp add: divide_right_mono)
    then have "(of_int (rne (q / 2 powi ulp_exp f r)) :: rat) \<le> of_int (rne (r / 2 powi ulp_exp f r))"
      using rne_mono by simp
    with same assms show ?thesis by (simp add: round_mag_def mult_right_mono)
  next
    case less
    with assms have r: "0 < r" by simp
    have e: "expo q \<le> expo r" using expo_mono [OF less(1) assms(2)] .
    with less(2) have lt: "expo q < expo r" "min_exp f \<le> expo r - int (precision f) + 1"
      by (auto simp: ulp_exp_def max_def split: if_splits)
    let ?k = "expo q + 1"
    have ur: "ulp_exp f r = expo r - int (precision f) + 1" using lt(2) by (simp add: ulp_exp_def)
    have "round_mag f q \<le> 2 powi max ?k (min_exp f)"
    proof (rule round_mag_le_pow2)
      have "(2 :: rat) powi ?k \<le> 2 powi max ?k (min_exp f)" by simp
      with expo_bounds(2) [OF less(1)] show "q \<le> 2 powi max ?k (min_exp f)" by linarith
    qed (use less assms(3) in \<open>auto simp: ulp_exp_def\<close>)
    also have "\<dots> \<le> 2 powi expo r" using lt assms(3) by simp
    also have "\<dots> \<le> round_mag f r"
      using expo_bounds(1) [OF r] ur assms(3) by (intro pow2_le_round_mag) simp_all
    finally show ?thesis .
  qed
qed

text \<open>The result fits the format, and its relative error is at most \<open>2 ^ - precision\<close>.\<close>

lemma rne_quotient_less:
  assumes "0 < q"
  shows "rne (q / 2 powi ulp_exp f q) \<le> 2 ^ precision f"
proof -
  have "expo q + 1 \<le> int (precision f) + ulp_exp f q" by (simp add: ulp_exp_def)
  then have "(2 :: rat) powi (expo q + 1) \<le> 2 powi (int (precision f) + ulp_exp f q)" by simp
  with expo_bounds(2) [OF assms] have "q < 2 powi (int (precision f) + ulp_exp f q)" by linarith
  then have "q < 2 ^ precision f * 2 powi ulp_exp f q" by (simp add: power_int_add)
  then have "q / 2 powi ulp_exp f q \<le> of_int (2 ^ precision f)"
    by (simp add: pos_divide_le_eq less_imp_le)
  then show ?thesis using rne_mono rne_of_int by metis
qed

lemma round_mag_fits:
  assumes "0 \<le> q" and "0 < precision f"
  shows "representable f (round_mag f q)"
proof (cases "q = 0")
  case True
  then show ?thesis unfolding representable_def by (intro exI [of _ 0] exI [of _ "min_exp f"]) simp
next
  case False
  with assms(1) have pos: "0 < q" by simp
  let ?u = "ulp_exp f q" and ?n = "rne (q / 2 powi ulp_exp f q)"
  have u: "min_exp f \<le> ?u" by (simp add: ulp_exp_def)
  have n: "0 \<le> ?n" "?n \<le> 2 ^ precision f" using pos rne_quotient_less by (simp_all add: rne_nonneg)
  have r: "round_mag f q = of_int ?n * 2 powi ?u" using False by (simp add: round_mag_def)
  show ?thesis
  proof (cases "?n = 2 ^ precision f")
    case True
    obtain p where p: "precision f = Suc p" using assms(2) gr0_implies_Suc by blast
    have "round_mag f q = of_int (2 ^ p) * 2 powi (?u + 1)"
      unfolding r True p by (simp add: power_int_add)
    then show ?thesis
      unfolding representable_def using u by (intro exI [of _ "2 ^ p"] exI [of _ "?u + 1"]) (simp add: p)
  next
    case neq: False
    with n r u show ?thesis unfolding representable_def by (intro exI [of _ ?n] exI [of _ ?u]) simp
  qed
qed

lemma round_mag_error: "0 < q \<Longrightarrow> \<bar>round_mag f q - q\<bar> \<le> 2 powi ulp_exp f q / 2"
proof -
  assume q: "0 < q"
  let ?u = "2 powi ulp_exp f q :: rat"
  have "round_mag f q - q = (of_int (rne (q / ?u)) - q / ?u) * ?u"
    using q by (simp add: round_mag_def left_diff_distrib)
  then have "\<bar>round_mag f q - q\<bar> = \<bar>of_int (rne (q / ?u)) - q / ?u\<bar> * ?u"
    by (simp add: abs_mult)
  also have "\<dots> \<le> 1 / 2 * ?u" by (intro mult_right_mono rne_near) simp
  finally show ?thesis by simp
qed

lemma round_mag_relative:
  assumes "0 < q" and "2 powi (min_exp f + int (precision f) - 1) \<le> q"
  shows "\<bar>round_mag f q - q\<bar> \<le> q / 2 ^ precision f"
proof -
  from assms(2) expo_bounds(2) [OF assms(1)]
  have "(2 :: rat) powi (min_exp f + int (precision f) - 1) < 2 powi (expo q + 1)" by linarith
  then have "ulp_exp f q = expo q - int (precision f) + 1" by (simp add: ulp_exp_def)
  then have "(2 powi ulp_exp f q / 2 :: rat) = 2 powi (expo q - int (precision f))" by (simp add: power_int_add)
  also have "\<dots> = 2 powi expo q / 2 ^ precision f" by (simp add: power_int_diff)
  also have "\<dots> \<le> q / 2 ^ precision f" using expo_bounds(1) [OF assms(1)] by (simp add: divide_right_mono)
  finally show ?thesis using round_mag_error [OF assms(1), of f] by linarith
qed

section \<open>Well-formed values\<close>

definition ieee_wf :: "fp_format \<Rightarrow> ieee \<Rightarrow> bool" where
  "ieee_wf f x \<longleftrightarrow>
     (case x of Num s q \<Rightarrow> 0 \<le> q \<and> representable f q \<and> q < 2 powi max_exp f | _ \<Rightarrow> True)"

lemma ieee_wf_fp: "0 \<le> q \<Longrightarrow> 0 < precision f \<Longrightarrow> ieee_wf f (fp f s q)"
  by (simp add: ieee_wf_def fp_def Let_def round_mag_nonneg round_mag_fits)

lemma formats [simp]:
  "0 < precision f64" "0 < precision f32" "precision f64 = 53" "precision f32 = 24"
  "min_exp f64 = - 1074" "min_exp f32 = - 149" "max_exp f64 = 1024" "max_exp f32 = 128"
  by (simp_all add: f64_def f32_def)

text \<open>Numbers from zero to one, and not-a-number.\<close>

definition in_unit :: "ieee \<Rightarrow> bool" where
  "in_unit x \<longleftrightarrow> (\<exists>s q. x = Num s q \<and> 0 \<le> q \<and> q \<le> 1 \<and> (s \<longrightarrow> q = 0))"

abbreviation zero_f :: ieee where "zero_f \<equiv> Num False 0"
abbreviation one_f :: ieee where "one_f \<equiv> Num False 1"

text \<open>Values of which the magnitude is not negative.\<close>

definition mag_ok :: "ieee \<Rightarrow> bool" where
  "mag_ok x \<longleftrightarrow> (case x of Num s q \<Rightarrow> 0 \<le> q | _ \<Rightarrow> True)"

lemma wf_mag_ok: "ieee_wf f x \<Longrightarrow> mag_ok x"
  by (simp add: ieee_wf_def mag_ok_def split: ieee.splits)

lemma mag_ok_fp: "0 \<le> q \<Longrightarrow> mag_ok (fp f s q)"
  by (simp add: fp_def mag_ok_def Let_def round_mag_nonneg)

lemma mag_ok_div: "mag_ok x \<Longrightarrow> mag_ok y \<Longrightarrow> mag_ok (fp_div f x y)"
  by (cases x; cases y) (auto simp: mag_ok_def intro: mag_ok_fp [unfolded mag_ok_def])

lemma clamp_unit:
  assumes "mag_ok x"
  shows "fp_clamp zero_f one_f x = NaN \<and> x = NaN \<or> in_unit (fp_clamp zero_f one_f x)"
  using assms by (cases x) (auto simp: fp_clamp_def in_unit_def mag_ok_def signed_def Let_def split: if_splits)

lemma round_mag_one: "round_mag f32 1 = 1" "round_mag f64 1 = 1"
  using representable_pow2 [of f32 0] representable_pow2 [of f64 0] by (simp_all add: round_mag_representable)

lemma cast_unit:
  assumes "in_unit x"
  shows "in_unit (fp_cast f32 x)" "ieee_wf f32 (fp_cast f32 x)"
proof -
  from assms obtain s q where x: "x = Num s q" "0 \<le> q" "q \<le> 1" "s \<longrightarrow> q = 0" by (auto simp: in_unit_def)
  have "round_mag f32 q \<le> 1" using round_mag_mono [OF x(2,3), of f32] by (simp add: round_mag_one)
  moreover have "(1 :: rat) < 2 powi 128" by simp
  ultimately have "\<not> 2 powi 128 \<le> round_mag f32 q" by linarith
  then have "fp_cast f32 x = Num s (round_mag f32 q)" by (simp add: x fp_def Let_def)
  with x \<open>round_mag f32 q \<le> 1\<close> show "in_unit (fp_cast f32 x)" by (auto simp: in_unit_def round_mag_nonneg)
  show "ieee_wf f32 (fp_cast f32 x)" using x by (simp add: ieee_wf_fp)
qed

end
