(* ===== verification/Features.thy ===== *)
theory Features
  imports Ieee_Float
begin

text \<open>
  Feature extraction: \<open>ners-ml/src/features.rs\<close>. Raw metrics are normalised to \<open>f32\<close> numbers
  between zero and one, a load category is derived from the throughput, and a window keeps the
  newest feature vectors. Floating-point operations are those of \<open>Ieee_Float\<close>.
\<close>

record feature_vector =
  p50_latency :: ieee
  p99_latency :: ieee
  p100_latency :: ieee
  latency_trend :: ieee
  queue_depth :: ieee
  queue_overflow_rate :: ieee
  queue_trend :: ieee
  throughput :: ieee
  throughput_trend :: ieee
  memory_pressure :: ieee
  error_rate :: ieee
  load_category :: ieee

definition feature_zeros :: feature_vector where
  "feature_zeros =
     \<lparr> p50_latency = zero_f, p99_latency = zero_f, p100_latency = zero_f, latency_trend = zero_f,
       queue_depth = zero_f, queue_overflow_rate = zero_f, queue_trend = zero_f, throughput = zero_f,
       throughput_trend = zero_f, memory_pressure = zero_f, error_rate = zero_f, load_category = zero_f \<rparr>"

definition as_array :: "feature_vector \<Rightarrow> ieee list" where
  "as_array v =
     [p50_latency v, p99_latency v, p100_latency v, latency_trend v, queue_depth v, queue_overflow_rate v,
      queue_trend v, throughput v, throughput_trend v, memory_pressure v, error_rate v, load_category v]"

definition FEATURE_COUNT :: usize where "FEATURE_COUNT = 12"

text \<open>A decimal literal is the nearest number of its format.\<close>

definition f64_lit :: "rat \<Rightarrow> ieee" where "f64_lit q = fp f64 False q"
definition f32_lit :: "rat \<Rightarrow> ieee" where "f32_lit q = fp f32 False q"

record feature_normalizer =
  p99_max_ns :: nat
  queue_max_size :: usize
  throughput_max :: ieee
  memory_max_bytes :: nat

definition normalizer_new :: feature_normalizer where
  "normalizer_new =
     \<lparr> p99_max_ns = 10000000, queue_max_size = 100000, throughput_max = f64_lit 200000,
       memory_max_bytes = 8 * 1024 * 1024 * 1024 \<rparr>"

definition normalize :: "ieee \<Rightarrow> ieee \<Rightarrow> ieee" where
  "normalize raw_value max_value = fp_cast f32 (fp_clamp zero_f one_f (fp_div f64 raw_value max_value))"

text \<open>The integer fields are \<open>u64\<close> or \<open>usize\<close>; they are only converted to \<open>f64\<close>.\<close>

record raw_metrics =
  rm_p50_latency_ns :: nat
  rm_p99_latency_ns :: nat
  rm_p100_latency_ns :: nat
  rm_latency_trend :: ieee
  rm_queue_len :: usize
  rm_queue_overflows :: usize
  rm_queue_trend :: ieee
  rm_requests_per_sec :: ieee
  rm_throughput_trend :: ieee
  rm_memory_used :: nat
  rm_total_requests :: nat
  rm_error_count :: nat

definition load_category_of :: "ieee \<Rightarrow> ieee" where
  "load_category_of tput =
     (if fp_less tput (f32_lit (1 / 4)) then f32_lit 0
      else if fp_less tput (f32_lit (1 / 2)) then f32_lit (33 / 100)
      else if fp_less tput (f32_lit (3 / 4)) then f32_lit (67 / 100)
      else f32_lit 1)"

definition extract_features :: "feature_normalizer \<Rightarrow> raw_metrics \<Rightarrow> feature_vector" where
  "extract_features nz m =
     (let tput = normalize (rm_requests_per_sec m) (throughput_max nz)
      in \<lparr> p50_latency = normalize (fp_of_nat f64 (rm_p50_latency_ns m)) (fp_of_nat f64 (p99_max_ns nz)),
           p99_latency = normalize (fp_of_nat f64 (rm_p99_latency_ns m)) (fp_of_nat f64 (p99_max_ns nz)),
           p100_latency = normalize (fp_of_nat f64 (rm_p100_latency_ns m)) (fp_of_nat f64 (p99_max_ns nz)),
           latency_trend = rm_latency_trend m,
           queue_depth = normalize (fp_of_nat f64 (rm_queue_len m)) (fp_of_nat f64 (queue_max_size nz)),
           queue_overflow_rate = normalize (fp_of_nat f64 (rm_queue_overflows m)) (f64_lit 1000),
           queue_trend = rm_queue_trend m,
           throughput = tput,
           throughput_trend = rm_throughput_trend m,
           memory_pressure = normalize (fp_of_nat f64 (rm_memory_used m)) (fp_of_nat f64 (memory_max_bytes nz)),
           error_rate = normalize (fp_of_nat f64 (rm_error_count m)) (fp_of_nat f64 (max (rm_total_requests m) 1)),
           load_category = load_category_of tput \<rparr>)"

section \<open>The window\<close>

record metrics_window =
  features :: "feature_vector list"
  window_size :: usize

definition window_new :: "usize \<Rightarrow> metrics_window" where
  "window_new n = \<lparr> features = [], window_size = n \<rparr>"

definition window_push :: "feature_vector \<Rightarrow> metrics_window \<Rightarrow> metrics_window" where
  "window_push v w = w\<lparr>features := push_bounded (window_size w) v (features w)\<rparr>"

definition as_tensor :: "metrics_window \<Rightarrow> ieee list" where
  "as_tensor w = concat (map as_array (features w))"

definition latest :: "metrics_window \<Rightarrow> feature_vector option" where
  "latest w = (if features w = [] then None else Some (last (features w)))"

definition is_full :: "metrics_window \<Rightarrow> bool" where
  "is_full w = (window_size w \<le> length (features w))"

definition window_len :: "metrics_window \<Rightarrow> usize" where
  "window_len w = length (features w)"

section \<open>Normalisation\<close>

lemma mag_ok_nat: "mag_ok (fp_of_nat f n)"
  by (simp add: fp_of_nat_def mag_ok_fp)

text \<open>Below the largest numbers an integer becomes a positive finite number.\<close>

lemma round_nat_less:
  assumes "n < 2 ^ 64"
  shows "round_mag f64 (of_nat n) < 2 powi 1024"
proof -
  have "of_nat n \<le> (2 :: rat) powi 64"
    using assms by (metis less_imp_le of_nat_le_iff of_nat_numeral of_nat_power power_int_numeral)
  from round_mag_mono [OF _ this, of f64] have "round_mag f64 (of_nat n) \<le> 2 powi 64"
    using representable_pow2 [of f64 64] by (simp add: round_mag_representable)
  moreover have "(2 :: rat) powi 64 < 2 powi 1024" by (simp only: pow2_less)
  ultimately show ?thesis by linarith
qed

lemma fp_of_nat_num: "n < 2 ^ 64 \<Longrightarrow> fp_of_nat f64 n = Num False (round_mag f64 (of_nat n))"
  using round_nat_less [of n] by (simp add: fp_of_nat_def fp_def Let_def not_le)

lemma round_nat_pos:
  assumes "0 < n"
  shows "1 \<le> round_mag f64 (of_nat n)"
proof -
  have "(1 :: rat) \<le> of_nat n" using assms by (metis One_nat_def Suc_leI of_nat_1 of_nat_le_iff)
  from round_mag_mono [OF _ this, of f64] show ?thesis by (simp add: round_mag_one)
qed

lemma clamp_fp: "0 \<le> q \<Longrightarrow> fp_clamp zero_f one_f (fp f64 False q) = Num False (min 1 (round_mag f64 q))"
proof -
  assume "0 \<le> q"
  then have "0 \<le> round_mag f64 q" by (rule round_mag_nonneg)
  moreover have "(1 :: rat) < 2 powi 1024" by (metis pow2_less power_int_0_right zero_less_numeral)
  ultimately show ?thesis
    by (auto simp: fp_def fp_clamp_def signed_def Let_def)
qed

lemma cast_unit_num:
  assumes "0 \<le> q" and "q \<le> 1"
  shows "fp_cast f32 (Num s q) = Num s (round_mag f32 q)"
proof -
  have "round_mag f32 q \<le> 1" using round_mag_mono [OF assms, of f32] by (simp add: round_mag_one)
  moreover have "(1 :: rat) < 2 powi 128" by (metis pow2_less power_int_0_right zero_less_numeral)
  ultimately show ?thesis by (simp add: fp_def Let_def)
qed

definition norm_value :: "nat \<Rightarrow> nat \<Rightarrow> rat" where
  "norm_value n m = round_mag f32 (min 1 (round_mag f64 (round_mag f64 (of_nat n) / round_mag f64 (of_nat m))))"

lemma normalize_nat:
  assumes "n < 2 ^ 64" "m < 2 ^ 64" "0 < m"
  shows "normalize (fp_of_nat f64 n) (fp_of_nat f64 m) = Num False (norm_value n m)"
proof -
  let ?q = "round_mag f64 (of_nat n) / round_mag f64 (of_nat m)"
  have "0 \<le> round_mag f64 (of_nat n)" "1 \<le> round_mag f64 (of_nat m)"
    using round_nat_pos [OF assms(3)] by (simp_all add: round_mag_nonneg)
  then have q: "0 \<le> ?q" "round_mag f64 (of_nat m) \<noteq> 0" by auto
  have "fp_div f64 (fp_of_nat f64 n) (fp_of_nat f64 m) = fp f64 False ?q"
    using assms q(2) by (simp add: fp_of_nat_num)
  moreover have "0 \<le> min 1 (round_mag f64 ?q)" using round_mag_nonneg [OF q(1)] by simp
  ultimately show ?thesis
    using clamp_fp [OF q(1)]
    by (simp add: normalize_def norm_value_def cast_unit_num del: fp_cast.simps)
qed

lemma norm_value_unit: "0 \<le> norm_value n m \<and> norm_value n m \<le> 1"
proof -
  have "0 \<le> round_mag f64 (of_nat n) / round_mag f64 (of_nat m)" by (simp add: round_mag_nonneg)
  then have "0 \<le> min 1 (round_mag f64 (round_mag f64 (of_nat n) / round_mag f64 (of_nat m)))"
    by (simp add: round_mag_nonneg)
  from round_mag_nonneg [OF this, of f32] round_mag_mono [OF this min.cobounded1, of f32]
  show ?thesis by (simp add: norm_value_def round_mag_one)
qed

lemma norm_value_mono:
  assumes "n \<le> k" and "0 < m"
  shows "norm_value n m \<le> norm_value k m"
proof -
  let ?m = "round_mag f64 (of_nat m)"
  have m: "1 \<le> ?m" using round_nat_pos [OF assms(2)] .
  have "(of_nat n :: rat) \<le> of_nat k" using assms(1) by simp
  then have "round_mag f64 (of_nat n) \<le> round_mag f64 (of_nat k)" by (intro round_mag_mono) simp_all
  then have "round_mag f64 (of_nat n) / ?m \<le> round_mag f64 (of_nat k) / ?m" using m by (simp add: divide_right_mono)
  then have q: "round_mag f64 (round_mag f64 (of_nat n) / ?m) \<le> round_mag f64 (round_mag f64 (of_nat k) / ?m)"
    using m by (intro round_mag_mono) (simp_all add: round_mag_nonneg)
  have "0 \<le> round_mag f64 (round_mag f64 (of_nat n) / ?m)" using m by (simp add: round_mag_nonneg)
  with q show ?thesis unfolding norm_value_def by (intro round_mag_mono) auto
qed

lemma norm_value_full:
  assumes "m \<le> n" and "0 < m"
  shows "norm_value n m = 1"
proof -
  let ?m = "round_mag f64 (of_nat m)"
  have m: "1 \<le> ?m" using round_nat_pos [OF assms(2)] .
  have "?m \<le> round_mag f64 (of_nat n)" using assms(1) by (intro round_mag_mono) simp_all
  then have "1 \<le> round_mag f64 (of_nat n) / ?m" using m by simp
  from round_mag_mono [OF _ this, of f64] have "1 \<le> round_mag f64 (round_mag f64 (of_nat n) / ?m)"
    by (simp add: round_mag_one)
  then show ?thesis by (simp add: norm_value_def round_mag_one)
qed

text \<open>Any quotient of numbers that are not NaN, with a divisor that is not zero, is in range.\<close>

lemma normalize_unit:
  assumes "mag_ok x" "mag_ok y" and "fp_div f64 x y \<noteq> NaN"
  shows "in_unit (normalize x y) \<and> ieee_wf f32 (normalize x y)"
proof -
  have "in_unit (fp_clamp zero_f one_f (fp_div f64 x y))"
    using clamp_unit [OF mag_ok_div [OF assms(1,2)]] assms(3) by auto
  from cast_unit [OF this] show ?thesis by (simp add: normalize_def)
qed

section \<open>Properties\<close>

lemma f64_lit_pos:
  assumes "1 \<le> q" and "q < 2 ^ 64"
  shows "f64_lit q = Num False (round_mag f64 q) \<and> 1 \<le> round_mag f64 q"
proof -
  have "round_mag f64 q \<le> round_mag f64 (of_nat (2 ^ 64 - 1) + 1)" using assms by (intro round_mag_mono) simp_all
  moreover have "of_nat (2 ^ 64 - 1) + 1 = (2 powi 64 :: rat)" by simp
  moreover have "round_mag f64 (2 powi 64) = 2 powi 64"
    by (intro round_mag_representable representable_pow2) simp_all
  moreover have "(2 :: rat) powi 64 < 2 powi 1024" by (simp only: pow2_less)
  ultimately have "\<not> 2 powi 1024 \<le> round_mag f64 q" by simp
  moreover have "1 \<le> round_mag f64 q" using round_mag_mono [of 1 q f64] assms(1) by (simp add: round_mag_one)
  ultimately show ?thesis by (simp add: f64_lit_def fp_def Let_def)
qed

lemma normalize_nat_unit:
  assumes "n < 2 ^ 64" "m < 2 ^ 64" "0 < m"
  shows "in_unit (normalize (fp_of_nat f64 n) (fp_of_nat f64 m)) \<and> ieee_wf f32 (normalize (fp_of_nat f64 n) (fp_of_nat f64 m))"
proof (rule normalize_unit)
  show "fp_div f64 (fp_of_nat f64 n) (fp_of_nat f64 m) \<noteq> NaN"
    using assms round_nat_pos [OF assms(3)] by (simp add: fp_of_nat_num fp_def Let_def)
qed (rule mag_ok_nat)+

lemma load_categories:
  "load_category_of x \<in> {f32_lit 0, f32_lit (33 / 100), f32_lit (67 / 100), f32_lit 1}"
  by (simp add: load_category_of_def)

lemma f32_lit_unit: "0 \<le> q \<Longrightarrow> q \<le> 1 \<Longrightarrow> in_unit (f32_lit q) \<and> ieee_wf f32 (f32_lit q)"
proof -
  assume "0 \<le> q" "q \<le> 1"
  then have "in_unit (Num False q)" by (auto simp: in_unit_def intro: exI [of _ False])
  from cast_unit [OF this] show ?thesis by (simp add: f32_lit_def)
qed

definition raw_u64 :: "raw_metrics \<Rightarrow> bool" where
  "raw_u64 m \<longleftrightarrow> (\<forall>n \<in> set [rm_p50_latency_ns m, rm_p99_latency_ns m, rm_p100_latency_ns m, rm_queue_len m,
     rm_queue_overflows m, rm_memory_used m, rm_total_requests m, rm_error_count m]. n < 2 ^ 64)"

definition normalizer_ok :: "feature_normalizer \<Rightarrow> bool" where
  "normalizer_ok nz \<longleftrightarrow> (\<forall>n \<in> set [p99_max_ns nz, queue_max_size nz, memory_max_bytes nz]. 0 < n \<and> n < 2 ^ 64)
     \<and> (\<exists>t. throughput_max nz = Num False t \<and> 0 < t)"

lemma normalizer_new_ok: "normalizer_ok normalizer_new"
  using f64_lit_pos [of 200000] by (auto simp: normalizer_ok_def normalizer_new_def)

text \<open>
  C30: Every extracted feature is a valid model input. With a normaliser whose maxima are not
  zero, as \<open>FeatureNormalizer::new\<close> gives, each of the nine features computed from the metrics
  is a number of the format \<open>f32\<close> between zero and one, for all integer metrics and every
  request rate that is a number, and the load category is one of the four constants, also in
  that range.
\<close>

theorem features_in_range:
  assumes "normalizer_ok nz" and "raw_u64 m" and "ieee_wf f64 (rm_requests_per_sec m)"
    and "rm_requests_per_sec m \<noteq> NaN" and "v = extract_features nz m"
  shows "(\<forall>x \<in> set [p50_latency v, p99_latency v, p100_latency v, queue_depth v, queue_overflow_rate v,
      throughput v, memory_pressure v, error_rate v, load_category v]. in_unit x \<and> ieee_wf f32 x)
    \<and> load_category v \<in> {f32_lit 0, f32_lit (33 / 100), f32_lit (67 / 100), f32_lit 1}"
proof -
  note raw = assms(2) [unfolded raw_u64_def, simplified]
  note nz = assms(1) [unfolded normalizer_ok_def, simplified]
  from nz obtain t where t: "throughput_max nz = Num False t" "0 < t" by auto
  have rate: "in_unit (throughput v) \<and> ieee_wf f32 (throughput v)"
  proof -
    have "fp_div f64 (rm_requests_per_sec m) (throughput_max nz) \<noteq> NaN"
      using assms(4) t by (cases "rm_requests_per_sec m") (auto simp: fp_def Let_def)
    then have "in_unit (normalize (rm_requests_per_sec m) (throughput_max nz))
        \<and> ieee_wf f32 (normalize (rm_requests_per_sec m) (throughput_max nz))"
      using wf_mag_ok [OF assms(3)] t by (intro normalize_unit) (simp_all add: mag_ok_def)
    then show ?thesis by (simp add: assms(5) extract_features_def Let_def)
  qed
  have over: "in_unit (queue_overflow_rate v) \<and> ieee_wf f32 (queue_overflow_rate v)"
    using normalize_nat_unit [of "rm_queue_overflows m" 1000] raw
    by (simp add: assms(5) extract_features_def Let_def f64_lit_def fp_of_nat_def)
  have err: "in_unit (error_rate v) \<and> ieee_wf f32 (error_rate v)"
    using normalize_nat_unit [of "rm_error_count m" "max (rm_total_requests m) 1"] raw
    by (simp add: assms(5) extract_features_def Let_def)
  have cat: "load_category v \<in> {f32_lit 0, f32_lit (33 / 100), f32_lit (67 / 100), f32_lit 1}"
    using load_categories by (simp add: assms(5) extract_features_def Let_def)
  then have load: "in_unit (load_category v) \<and> ieee_wf f32 (load_category v)"
    using f32_lit_unit [of 0] f32_lit_unit [of "33 / 100"] f32_lit_unit [of "67 / 100"] f32_lit_unit [of 1] by auto
  have "\<forall>x \<in> set [p50_latency v, p99_latency v, p100_latency v, queue_depth v, queue_overflow_rate v,
      throughput v, memory_pressure v, error_rate v, load_category v]. in_unit x \<and> ieee_wf f32 x"
    using rate over err load raw nz
    by (simp add: assms(5) extract_features_def Let_def normalize_nat_unit)
  with cat show ?thesis by blast
qed

theorem features_in_range_witness:
  "in_unit (throughput (extract_features normalizer_new
     \<lparr> rm_p50_latency_ns = 1, rm_p99_latency_ns = 20000000, rm_p100_latency_ns = 3, rm_latency_trend = zero_f,
       rm_queue_len = 5, rm_queue_overflows = 0, rm_queue_trend = zero_f, rm_requests_per_sec = Infty False,
       rm_throughput_trend = zero_f, rm_memory_used = 7, rm_total_requests = 0, rm_error_count = 0 \<rparr>))"
  using features_in_range [OF normalizer_new_ok _ _ _ refl, of
     "\<lparr> rm_p50_latency_ns = 1, rm_p99_latency_ns = 20000000, rm_p100_latency_ns = 3, rm_latency_trend = zero_f,
       rm_queue_len = 5, rm_queue_overflows = 0, rm_queue_trend = zero_f, rm_requests_per_sec = Infty False,
       rm_throughput_trend = zero_f, rm_memory_used = 7, rm_total_requests = 0, rm_error_count = 0 \<rparr>"]
  by (simp add: raw_u64_def ieee_wf_def)

text \<open>
  Features keep the order of the metrics and saturate. More latency, a longer queue or more
  memory never gives a smaller feature, through the rounding of three floating-point operations,
  and a metric at or above its maximum gives exactly one.
\<close>

lemma features_monotone:
  assumes "normalizer_ok nz" and "raw_u64 m" and "raw_u64 m'"
    and "rm_p99_latency_ns m \<le> rm_p99_latency_ns m'" and "rm_queue_len m \<le> rm_queue_len m'"
    and "rm_memory_used m \<le> rm_memory_used m'"
  shows "fp_le (p99_latency (extract_features nz m)) (p99_latency (extract_features nz m'))
    \<and> fp_le (queue_depth (extract_features nz m)) (queue_depth (extract_features nz m'))
    \<and> fp_le (memory_pressure (extract_features nz m)) (memory_pressure (extract_features nz m'))
    \<and> (p99_max_ns nz \<le> rm_p99_latency_ns m \<longrightarrow> p99_latency (extract_features nz m) = one_f)
    \<and> (queue_max_size nz \<le> rm_queue_len m \<longrightarrow> queue_depth (extract_features nz m) = one_f)
    \<and> (memory_max_bytes nz \<le> rm_memory_used m \<longrightarrow> memory_pressure (extract_features nz m) = one_f)"
proof -
  note raw = assms(2,3) [unfolded raw_u64_def, simplified]
  note nz = assms(1) [unfolded normalizer_ok_def, simplified]
  show ?thesis
    using raw nz assms(4-6)
    by (simp add: extract_features_def Let_def normalize_nat signed_def norm_value_mono norm_value_full)
qed

theorem features_monotone_witness:
  "let m = \<lparr> rm_p50_latency_ns = 1, rm_p99_latency_ns = 20000000, rm_p100_latency_ns = 3, rm_latency_trend = zero_f,
       rm_queue_len = 5, rm_queue_overflows = 0, rm_queue_trend = zero_f, rm_requests_per_sec = NaN,
       rm_throughput_trend = zero_f, rm_memory_used = 7, rm_total_requests = 0, rm_error_count = 0 \<rparr>
   in p99_latency (extract_features normalizer_new m) = one_f"
  unfolding Let_def
  using features_monotone [OF normalizer_new_ok, of
     "\<lparr> rm_p50_latency_ns = 1, rm_p99_latency_ns = 20000000, rm_p100_latency_ns = 3, rm_latency_trend = zero_f,
       rm_queue_len = 5, rm_queue_overflows = 0, rm_queue_trend = zero_f, rm_requests_per_sec = NaN,
       rm_throughput_trend = zero_f, rm_memory_used = 7, rm_total_requests = 0, rm_error_count = 0 \<rparr>"
     "\<lparr> rm_p50_latency_ns = 1, rm_p99_latency_ns = 20000000, rm_p100_latency_ns = 3, rm_latency_trend = zero_f,
       rm_queue_len = 5, rm_queue_overflows = 0, rm_queue_trend = zero_f, rm_requests_per_sec = NaN,
       rm_throughput_trend = zero_f, rm_memory_used = 7, rm_total_requests = 0, rm_error_count = 0 \<rparr>"]
  by (simp add: raw_u64_def normalizer_new_def)

text \<open>A request rate that is not a number passes every test of the category as the peak load.\<close>

lemma nan_rate_is_peak_load:
  "rm_requests_per_sec m = NaN \<Longrightarrow> throughput (extract_features nz m) = NaN
     \<and> load_category (extract_features nz m) = f32_lit 1"
  by (cases "throughput_max nz")
    (simp_all add: extract_features_def Let_def normalize_def fp_clamp_def load_category_of_def)

text \<open>
  The window holds the newest feature vectors, oldest first: after any pushes these are the
  last \<open>window_size\<close> (at least one), the tensor lists twelve numbers for each, and \<open>latest\<close> is
  the vector pushed last.
\<close>

lemma window_keeps_newest:
  "features (fold window_push vs (window_new n)) = newest (max 1 n) vs
   \<and> length (as_tensor (fold window_push vs (window_new n))) = FEATURE_COUNT * min (max 1 n) (length vs)
   \<and> latest (fold window_push (vs @ [v]) (window_new n)) = Some v"
proof -
  have f: "features (fold window_push vs w) = fold (push_bounded (window_size w)) vs (features w)" for vs w
    by (induction vs arbitrary: w) (simp_all add: window_push_def)
  have "features (fold window_push vs (window_new n)) = newest (max 1 n) vs" for vs
    by (simp only: f fold_push_bounded window_new_def metrics_window.simps)
  moreover have "length (concat (map as_array xs)) = 12 * length xs" for xs
    by (induction xs) (simp_all add: as_array_def)
  moreover have "newest (max 1 n) (vs @ [v]) \<noteq> [] \<and> last (newest (max 1 n) (vs @ [v])) = v"
    unfolding push_bounded_newest [symmetric] by (simp add: push_bounded_def)
  ultimately show ?thesis by (simp only: as_tensor_def latest_def FEATURE_COUNT_def length_newest) simp
qed

end
