(* ===== verification/Analyzer.thy ===== *)
theory Analyzer
  imports Metrics Features
begin

text \<open>
  The metrics analyzer: \<open>ners-core/src/analyzer.rs\<close>. It keeps the newest sixty snapshots and a
  trend per stage, and answers which stage is the bottleneck, which queues overflow and how full
  the queues are. Sums of \<open>u64\<close> wrap around. The order of a list of stages is the iteration
  order of its map, so a lemma for all lists holds for every order.
\<close>

datatype direction = Increasing | Decreasing | Stable

record stage_trend =
  trend_stage :: str
  trend_latency :: direction
  trend_queue :: direction
  trend_throughput :: direction

record analysis_rules =
  p99_target_ns :: u64
  queue_threshold :: u64
  trend_window :: usize
  memory_pressure_threshold :: ieee

definition rules_default :: analysis_rules where
  "rules_default =
     \<lparr> p99_target_ns = 5000000, queue_threshold = 500, trend_window = 3,
       memory_pressure_threshold = f64_lit (8 / 10) \<rparr>"

record metrics_analyzer =
  history :: "metrics_snapshot list"
  trends :: "(str \<times> stage_trend) list"
  rules :: analysis_rules
  max_history :: usize

definition analyzer_new :: "analysis_rules \<Rightarrow> metrics_analyzer" where
  "analyzer_new r = \<lparr> history = [], trends = [], rules = r, max_history = 60 \<rparr>"

definition calculate_direction :: "u64 list \<Rightarrow> u64 \<Rightarrow> direction" where
  "calculate_direction hist current =
     (if hist = [] then Stable
      else
        let avg = sum_list hist div of_nat (length hist);
            threshold = avg div 10
        in if avg + threshold < current then Increasing
           else if current + threshold < avg then Decreasing
           else Stable)"

definition stage_trend_of :: "str \<Rightarrow> stage_metrics list \<Rightarrow> stage_metrics \<Rightarrow> stage_trend" where
  "stage_trend_of name historical current =
     \<lparr> trend_stage = name,
       trend_latency = calculate_direction (map avg_latency_ns historical) (avg_latency_ns current),
       trend_queue = calculate_direction (map current_queue_len historical) (current_queue_len current),
       trend_throughput = calculate_direction (map processed_count historical) (processed_count current) \<rparr>"

text \<open>The metrics of a stage in the window: the history after skipping all but the last snapshots.\<close>

definition historical :: "str \<Rightarrow> metrics_analyzer \<Rightarrow> stage_metrics list" where
  "historical name a =
     List.map_filter (\<lambda>s. hm_get name (snap_stages s)) (newest (trend_window (rules a)) (history a))"

definition compute_trends :: "metrics_snapshot \<Rightarrow> metrics_analyzer \<Rightarrow> metrics_analyzer" where
  "compute_trends current a =
     (if length (history a) < trend_window (rules a) then a
      else
        let step = (\<lambda>(name, m) tr.
              if historical name a = [] then tr
              else hm_insert name (stage_trend_of name (historical name a) m) tr)
        in a\<lparr>trends := fold step (snap_stages current) (trends a)\<rparr>)"

definition add_snapshot :: "metrics_snapshot \<Rightarrow> metrics_analyzer \<Rightarrow> metrics_analyzer" where
  "add_snapshot s a =
     (let a = (if max_history a \<le> length (history a) then a\<lparr>history := tl (history a)\<rparr> else a);
          a = compute_trends s a
      in a\<lparr>history := history a @ [s]\<rparr>)"

definition analyzer_latest :: "metrics_analyzer \<Rightarrow> metrics_snapshot option" where
  "analyzer_latest a = (if history a = [] then None else Some (last (history a)))"

definition bottleneck_step :: "u64 \<Rightarrow> str \<times> stage_metrics \<Rightarrow> u64 \<times> str option \<Rightarrow> u64 \<times> str option" where
  "bottleneck_step target = (\<lambda>(name, m) (max_latency, found).
     if max_latency < avg_latency_ns m \<and> target < avg_latency_ns m
     then (avg_latency_ns m, Some name) else (max_latency, found))"

definition identify_bottleneck :: "metrics_analyzer \<Rightarrow> str option" where
  "identify_bottleneck a =
     (case analyzer_latest a of
        None \<Rightarrow> None
      | Some s \<Rightarrow> snd (fold (bottleneck_step (p99_target_ns (rules a))) (snap_stages s) (0, None)))"

definition detect_queue_overflow :: "metrics_analyzer \<Rightarrow> str list" where
  "detect_queue_overflow a =
     (case analyzer_latest a of
        None \<Rightarrow> []
      | Some s \<Rightarrow> map fst (filter (\<lambda>(_, m). queue_threshold (rules a) < current_queue_len m) (snap_stages s)))"

definition get_memory_pressure :: "metrics_analyzer \<Rightarrow> ieee" where
  "get_memory_pressure a =
     (case analyzer_latest a of
        None \<Rightarrow> zero_f
      | Some s \<Rightarrow>
          let total_queue = sum_list (map (current_queue_len \<circ> snd) (snap_stages s))
          in fp_min (fp_div f64 (fp_of_nat f64 (unat total_queue)) (f64_lit 10000)) one_f)"

definition get_trend :: "str \<Rightarrow> metrics_analyzer \<Rightarrow> stage_trend option" where
  "get_trend name a = hm_get name (trends a)"

definition history_len :: "metrics_analyzer \<Rightarrow> usize" where
  "history_len a = length (history a)"

section \<open>The history\<close>

lemma compute_trends_fields [simp]:
  "history (compute_trends s a) = history a" "rules (compute_trends s a) = rules a"
  "max_history (compute_trends s a) = max_history a"
  by (simp_all add: compute_trends_def Let_def)

lemma add_snapshot_fields [simp]:
  "history (add_snapshot s a) = push_bounded (max_history a) s (history a)"
  "rules (add_snapshot s a) = rules a" "max_history (add_snapshot s a) = max_history a"
  by (simp_all add: add_snapshot_def push_bounded_def Let_def)

lemma history_fold:
  "history (fold add_snapshot ss a) = fold (push_bounded (max_history a)) ss (history a)
   \<and> rules (fold add_snapshot ss a) = rules a \<and> max_history (fold add_snapshot ss a) = max_history a"
  by (induction ss arbitrary: a) simp_all

lemma latest_add_snapshot [simp]: "analyzer_latest (add_snapshot s a) = Some s"
  by (simp add: analyzer_latest_def push_bounded_def)

section \<open>The bottleneck\<close>

lemma bottleneck_fold:
  assumes "fold (bottleneck_step target) ms (l, b) = (l', b')"
  shows "l \<le> l' \<and> (\<forall>(name, m) \<in> set ms. target < avg_latency_ns m \<longrightarrow> avg_latency_ns m \<le> l')
    \<and> (l' = l \<and> b' = b \<or> target < l' \<and> (\<exists>m. (the b', m) \<in> set ms \<and> b' \<noteq> None \<and> avg_latency_ns m = l'))"
  using assms
proof (induction ms arbitrary: l b)
  case (Cons p ms)
  obtain name m where p: "p = (name, m)" by (cases p)
  show ?case
  proof (cases "l < avg_latency_ns m \<and> target < avg_latency_ns m")
    case True
    with Cons.prems have "fold (bottleneck_step target) ms (avg_latency_ns m, Some name) = (l', b')"
      by (simp add: p bottleneck_step_def)
    from Cons.IH [OF this] have
      IH: "avg_latency_ns m \<le> l'" "\<forall>(name, m) \<in> set ms. target < avg_latency_ns m \<longrightarrow> avg_latency_ns m \<le> l'"
        "l' = avg_latency_ns m \<and> b' = Some name
         \<or> target < l' \<and> (\<exists>m. (the b', m) \<in> set ms \<and> b' \<noteq> None \<and> avg_latency_ns m = l')"
      by blast+
    have "target < l' \<and> (\<exists>m. (the b', m) \<in> set (p # ms) \<and> b' \<noteq> None \<and> avg_latency_ns m = l')"
      using IH(3) True p by auto
    moreover have "l \<le> l'" using True IH(1) by (meson less_imp_le order.trans)
    ultimately show ?thesis using IH(1,2) by (simp add: p)
  next
    case False
    with Cons.prems have "fold (bottleneck_step target) ms (l, b) = (l', b')"
      by (simp add: p bottleneck_step_def)
    from Cons.IH [OF this] False show ?thesis
      by (auto simp: p not_less intro: order.trans)
  qed
qed simp

section \<open>Averages\<close>

lemma unat_u64_less: "unat (x :: u64) < 2 ^ 64"
  using unsigned_less [of x, where ?'a = nat] by simp

text \<open>When the sum does not wrap around, the average lies between the extremes.\<close>

lemma sum_list_unat:
  fixes xs :: "u64 list"
  assumes "sum_list (map unat xs) < 2 ^ 64"
  shows "unat (sum_list xs) = sum_list (map unat xs)"
  using assms
proof (induction xs)
  case (Cons x xs)
  then have "unat (sum_list xs) = sum_list (map unat xs)" by simp
  with Cons.prems show ?case by (simp add: unat_word_ariths)
qed simp

text \<open>The tests of a trend as exact arithmetic.\<close>

definition trend_of_average :: "nat \<Rightarrow> nat \<Rightarrow> direction" where
  "trend_of_average avg current =
     (if avg + avg div 10 < current then Increasing
      else if current + avg div 10 < avg then Decreasing else Stable)"

lemma calculate_direction_exact:
  assumes "hist \<noteq> []" and "sum_list (map unat hist) < 2 ^ 63" and "unat current < 2 ^ 63"
    and "length hist < 2 ^ 64"
  shows "calculate_direction hist current = trend_of_average (sum_list (map unat hist) div length hist) (unat current)"
proof -
  let ?s = "sum_list (map unat hist)" and ?n = "length hist"
  define avg th where "avg = sum_list hist div of_nat ?n" and "th = avg div 10"
  have "unat (of_nat ?n :: u64) = ?n" using assms(4) by (simp add: unat_of_nat take_bit_nat_eq_self)
  then have avg: "unat avg = ?s div ?n"
    using sum_list_unat [of hist] assms(2) by (simp add: avg_def unat_div_distrib)
  then have th: "unat th = ?s div ?n div 10" by (simp add: th_def unat_div_distrib)
  have small: "?s div ?n < 2 ^ 63" "?s div ?n div 10 \<le> ?s div ?n"
    using le_less_trans [OF div_le_dividend assms(2)] by simp_all
  have "unat (avg + th) = ?s div ?n + ?s div ?n div 10"
    using small by (simp add: unat_word_ariths avg th)
  moreover have "unat (current + th) = unat current + ?s div ?n div 10"
    using small assms(3) by (simp add: unat_word_ariths th)
  moreover have "calculate_direction hist current =
      (if avg + th < current then Increasing else if current + th < avg then Decreasing else Stable)"
    using assms(1) by (simp add: calculate_direction_def avg_def th_def Let_def)
  ultimately show ?thesis by (simp add: trend_of_average_def word_less_nat_alt avg)
qed

section \<open>Trends\<close>

lemma hm_get_fold_trends:
  assumes "hm_distinct ms"
  shows "hm_get name (fold (\<lambda>(n, m) tr. if h n = [] then tr else hm_insert n (stage_trend_of n (h n) m) tr) ms tr)
    = (case hm_get name ms of
         Some m \<Rightarrow> if h name = [] then hm_get name tr else Some (stage_trend_of name (h name) m)
       | None \<Rightarrow> hm_get name tr)"
  using assms
proof (induction ms arbitrary: tr)
  case (Cons p ms)
  obtain n m where p: "p = (n, m)" by (cases p)
  have "hm_get n ms = None" using Cons.prems by (simp add: p hm_get_def map_of_eq_None_iff)
  with Cons show ?case by (auto simp: p hm_get_def hm_insert_def update_conv split: option.splits)
qed (simp add: hm_get_def)

lemma compute_trends_get:
  assumes "hm_distinct (snap_stages s)" and "trend_window (rules a) \<le> length (history a)"
  shows "get_trend name (compute_trends s a) =
    (case hm_get name (snap_stages s) of
       Some m \<Rightarrow> if historical name a = [] then get_trend name a
         else Some (stage_trend_of name (historical name a) m)
     | None \<Rightarrow> get_trend name a)"
  using hm_get_fold_trends [OF assms(1), of name "\<lambda>n. historical n a" "trends a"] assms(2)
  by (simp add: get_trend_def compute_trends_def not_less split: option.split)

lemma newest_newest: "k \<le> n \<Longrightarrow> newest k (newest n xs) = newest k xs"
  by (simp add: newest_def) (metis (no_types, opaque_lifting) add.commute diff_diff_left le_add_diff_inverse min.commute
    min_absorb2 nat_le_linear diff_le_mono2 le_add_diff_inverse2)

section \<open>Memory pressure\<close>

lemma f64_ten_thousand: "f64_lit 10000 = Num False 10000"
proof -
  have "round_mag f64 (of_nat 10000) = of_nat 10000"
    by (intro round_mag_representable representable_nat) simp_all
  then show ?thesis using f64_lit_pos [of 10000] by simp
qed

definition pressure_value :: "nat \<Rightarrow> rat" where
  "pressure_value n = min (round_mag f64 (round_mag f64 (of_nat n) / 10000)) 1"

lemma pressure_num:
  assumes "n < 2 ^ 64"
  shows "fp_min (fp_div f64 (fp_of_nat f64 n) (f64_lit 10000)) one_f = Num False (pressure_value n)"
proof -
  let ?q = "round_mag f64 (of_nat n) / 10000"
  have d: "fp_div f64 (fp_of_nat f64 n) (f64_lit 10000) = fp f64 False ?q"
    by (simp add: fp_of_nat_num [OF assms] f64_ten_thousand)
  have "(1 :: rat) < 2 powi 1024" by (metis pow2_less power_int_0_right zero_less_numeral)
  then show ?thesis
    unfolding d by (auto simp: fp_def fp_min_def signed_def pressure_value_def Let_def min_def)
qed

text \<open>The pressure keeps the order of the queue lengths and stops at one.\<close>

lemma pressure_value_unit: "0 \<le> pressure_value n \<and> pressure_value n \<le> 1"
  by (simp add: pressure_value_def round_mag_nonneg)

lemma pressure_value_full:
  assumes "10000 \<le> n"
  shows "pressure_value n = 1"
proof -
  have "round_mag f64 (of_nat 10000) = of_nat 10000"
    by (intro round_mag_representable representable_nat) simp_all
  moreover have "(of_nat 10000 :: rat) \<le> of_nat n" using assms by (simp only: of_nat_le_iff)
  ultimately have "1 \<le> round_mag f64 (of_nat n) / 10000"
    using round_mag_mono [of "of_nat 10000" "of_nat n" f64] by simp
  from round_mag_mono [OF _ this, of f64] show ?thesis by (simp add: pressure_value_def round_mag_one)
qed

section \<open>Properties\<close>

text \<open>
  The bottleneck is found. After a snapshot has been added, in whatever order its map lists
  the stages, \<open>identify_bottleneck\<close> names a stage whose average latency is above the target and
  the largest of all, and it names none exactly when no stage is above the target.
\<close>

lemma bottleneck_correct:
  "(case identify_bottleneck (add_snapshot s a) of
      None \<Rightarrow> \<forall>(name, m) \<in> set (snap_stages s). avg_latency_ns m \<le> p99_target_ns (rules a)
    | Some name \<Rightarrow> \<exists>m. (name, m) \<in> set (snap_stages s) \<and> p99_target_ns (rules a) < avg_latency_ns m
        \<and> (\<forall>(_, m') \<in> set (snap_stages s). avg_latency_ns m' \<le> avg_latency_ns m))"
proof -
  let ?t = "p99_target_ns (rules a)"
  obtain l b where f: "fold (bottleneck_step ?t) (snap_stages s) (0, None) = (l, b)"
    by (cases "fold (bottleneck_step ?t) (snap_stages s) (0, None)")
  then have i: "identify_bottleneck (add_snapshot s a) = b" by (simp add: identify_bottleneck_def)
  from bottleneck_fold [OF f] have
    le: "\<forall>(name, m) \<in> set (snap_stages s). ?t < avg_latency_ns m \<longrightarrow> avg_latency_ns m \<le> l"
    and cases: "l = 0 \<and> b = None
      \<or> ?t < l \<and> (\<exists>m. (the b, m) \<in> set (snap_stages s) \<and> b \<noteq> None \<and> avg_latency_ns m = l)" by blast+
  show ?thesis
  proof (cases b)
    case None
    with cases have "l = 0" by blast
    with le have "\<forall>(name, m) \<in> set (snap_stages s). avg_latency_ns m \<le> ?t"
      by (fastforce simp: word_le_0_iff not_less)
    with i None show ?thesis by simp
  next
    case (Some name)
    with cases obtain m where m: "(name, m) \<in> set (snap_stages s)" "?t < l" "avg_latency_ns m = l" by auto
    have "\<forall>(_, m') \<in> set (snap_stages s). avg_latency_ns m' \<le> l"
      using le m(2) by (fastforce simp: not_less intro: less_imp_le order.trans)
    with m i Some show ?thesis by auto
  qed
qed

definition sample_stage :: "u64 \<Rightarrow> u64 \<Rightarrow> stage_metrics" where
  "sample_stage queue latency = (stage_metrics_new (lit ''parse''))
     \<lparr>processed_count := 1, current_queue_len := queue, latency_sum_ns := latency\<rparr>"

definition sample_snapshot :: "u64 \<Rightarrow> u64 \<Rightarrow> metrics_snapshot" where
  "sample_snapshot queue latency =
     \<lparr> snap_timestamp = 0, snap_stages = [(lit ''parse'', sample_stage queue latency)],
       snap_total_conns = 0, snap_total_requests = 0 \<rparr>"

theorem bottleneck_correct_witness:
  "identify_bottleneck (add_snapshot (sample_snapshot 0 10000000) (analyzer_new rules_default)) \<noteq> None"
proof
  assume "identify_bottleneck (add_snapshot (sample_snapshot 0 10000000) (analyzer_new rules_default)) = None"
  with bottleneck_correct [of "sample_snapshot 0 10000000" "analyzer_new rules_default"]
  show False by (simp add: sample_snapshot_def sample_stage_def avg_latency_ns_def analyzer_new_def rules_default_def)
qed

text \<open>
  C32: What a trend means. After any snapshots \<open>ss\<close> have been added to a new analyzer whose window
  of \<open>w\<close> snapshots is shorter than its history, adding another gives each of its stages the
  trend of its metrics against the newest \<open>w\<close> snapshots; and a direction is the exact comparison
  with their average, ten per cent (rounded down) above or below it, as long as no sum reaches
  \<open>2 ^ 63\<close>.
\<close>

theorem trend_from_window:
  assumes "a = fold add_snapshot ss (analyzer_new r)" and "trend_window r = w" and "w < 60" and "w \<le> length ss"
    and "hm_distinct (snap_stages s)" and "hm_get name (snap_stages s) = Some m"
    and "hist = List.map_filter (\<lambda>t. hm_get name (snap_stages t)) (newest w ss)" and "hist \<noteq> []"
    and "sum_list (map (unat \<circ> current_queue_len) hist) < 2 ^ 63" and "unat (current_queue_len m) < 2 ^ 63"
    and "length hist < 2 ^ 64"
  shows "get_trend name (add_snapshot s a) = Some (stage_trend_of name hist m)
    \<and> trend_queue (stage_trend_of name hist m) = trend_of_average
        (sum_list (map (unat \<circ> current_queue_len) hist) div length hist) (unat (current_queue_len m))"
proof
  have h: "history a = newest 60 ss" "rules a = r" "max_history a = 60"
    using history_fold [of ss "analyzer_new r"] fold_push_bounded [of 60 ss]
    by (simp_all add: assms(1) analyzer_new_def)
  let ?b = "if max_history a \<le> length (history a) then a\<lparr>history := tl (history a)\<rparr> else a"
  have hb: "newest w (history ?b) = newest w ss \<and> w \<le> length (history ?b)"
  proof (cases "60 \<le> length ss")
    case True
    then have "tl (newest 60 ss) = newest 59 ss"
      by (simp add: newest_def Suc_diff_le tl_drop drop_Suc flip: drop_Suc)
        (simp add: drop_tl [symmetric] drop_Suc [symmetric] Suc_diff_Suc numeral_eq_Suc)
    with True assms(3) show ?thesis by (simp add: h newest_newest)
  next
    case False
    with assms(3,4) show ?thesis by (simp add: h newest_newest)
  qed
  have rb: "rules ?b = r" by (simp add: h)
  have "historical name ?b = hist" using hb assms(2,7) rb by (simp add: historical_def)
  with compute_trends_get [OF assms(5), of ?b name] hb rb assms(2,6,8)
  have "get_trend name (compute_trends s ?b) = Some (stage_trend_of name hist m)" by simp
  then show "get_trend name (add_snapshot s a) = Some (stage_trend_of name hist m)"
    by (simp add: add_snapshot_def get_trend_def Let_def)
  show "trend_queue (stage_trend_of name hist m) = trend_of_average
      (sum_list (map (unat \<circ> current_queue_len) hist) div length hist) (unat (current_queue_len m))"
    using calculate_direction_exact [of "map current_queue_len hist" "current_queue_len m"] assms(8-11)
    by (simp add: stage_trend_of_def comp_def)
qed

theorem trend_from_window_witness:
  "get_trend (lit ''parse'') (add_snapshot (sample_snapshot 112 0)
     (fold add_snapshot (replicate 3 (sample_snapshot 100 0)) (analyzer_new rules_default)))
   = Some (stage_trend_of (lit ''parse'') (replicate 3 (sample_stage 100 0)) (sample_stage 112 0))
   \<and> trend_queue (stage_trend_of (lit ''parse'') (replicate 3 (sample_stage 100 0)) (sample_stage 112 0)) = Increasing"
proof -
  define nm where "nm = lit ''parse''"
  have q: "current_queue_len (sample_stage n 0) = n" for n by (simp add: sample_stage_def)
  have get: "hm_get nm (snap_stages (sample_snapshot n 0)) = Some (sample_stage n 0)"
    and dist: "hm_distinct (snap_stages (sample_snapshot n 0))" for n
    by (simp_all add: sample_snapshot_def hm_get_def nm_def)
  have hist: "replicate 3 (sample_stage 100 0) = List.map_filter (\<lambda>t. hm_get nm (snap_stages t))
      (newest 3 (replicate 3 (sample_snapshot 100 0)))"
    by (simp add: newest_def List.map_filter_def get)
  have w: "trend_window rules_default = 3" by (simp add: rules_default_def)
  have sum: "sum_list (map (unat \<circ> current_queue_len) (replicate 3 (sample_stage 100 0))) = 300"
    by (simp add: q sum_list_replicate)
  have small: "unat (current_queue_len (sample_stage 112 0)) < 2 ^ 63"
    "sum_list (map (unat \<circ> current_queue_len) (replicate 3 (sample_stage 100 0))) < 2 ^ 63"
    "length (replicate 3 (sample_stage 100 0)) < 2 ^ 64"
    unfolding sum q by simp_all
  have "get_trend nm (add_snapshot (sample_snapshot 112 0)
     (fold add_snapshot (replicate 3 (sample_snapshot 100 0)) (analyzer_new rules_default)))
   = Some (stage_trend_of nm (replicate 3 (sample_stage 100 0)) (sample_stage 112 0))
   \<and> trend_queue (stage_trend_of nm (replicate 3 (sample_stage 100 0)) (sample_stage 112 0))
     = trend_of_average (sum_list (map (unat \<circ> current_queue_len) (replicate 3 (sample_stage 100 0)))
         div length (replicate 3 (sample_stage 100 0))) (unat (current_queue_len (sample_stage 112 0)))"
    by (rule trend_from_window [OF refl w _ _ dist get hist _ small(2,1,3)]) simp_all
  then show ?thesis unfolding sum nm_def [symmetric] by (simp add: q trend_of_average_def)
qed

text \<open>
  The memory pressure is a number from zero to one, and it is one as soon as ten thousand
  entries are queued.
\<close>

lemma memory_pressure_range:
  "\<exists>q. get_memory_pressure (add_snapshot s a) = Num False q \<and> 0 \<le> q \<and> q \<le> 1
    \<and> (10000 \<le> unat (sum_list (map (current_queue_len \<circ> snd) (snap_stages s))) \<longrightarrow> q = 1)"
proof -
  let ?n = "unat (sum_list (map (current_queue_len \<circ> snd) (snap_stages s)))"
  have "?n < 2 ^ 64" by (rule unat_u64_less)
  from pressure_num [OF this] have
    "get_memory_pressure (add_snapshot s a) = Num False (pressure_value ?n)"
    by (simp add: get_memory_pressure_def Let_def)
  then show ?thesis using pressure_value_unit [of ?n] pressure_value_full [of ?n] by blast
qed

theorem memory_pressure_range_witness:
  "get_memory_pressure (add_snapshot (sample_snapshot 20000 0) (analyzer_new rules_default)) = one_f"
  using memory_pressure_range [of "sample_snapshot 20000 0" "analyzer_new rules_default"]
  by (simp add: sample_snapshot_def sample_stage_def)

end
