(* ===== verification/Policy.thy ===== *)
theory Policy
  imports Analyzer
begin

text \<open>
  The tuning policies: \<open>ners-core/src/policy.rs\<close>. A policy turns a snapshot and the analyzer into
  at most a few actions. The readings of the clock are arguments, in nanoseconds: \<open>now\<close> at the
  cooldown test and \<open>later\<close> when the last action is noted. The new queue sizes are computed in
  floating-point arithmetic; the lemmas show which integers come out.
\<close>

datatype tuning_action =
    IncreaseQueueSize str usize
  | DecreaseQueueSize str usize
  | EnableBatching str
  | AdjustBackpressure ieee

text \<open>\<open>fmt2\<close> is the standard library's \<open>{:.2}\<close>.\<close>

definition description :: "(ieee \<Rightarrow> str) \<Rightarrow> tuning_action \<Rightarrow> str" where
  "description fmt2 action =
     (case action of
        IncreaseQueueSize st new_size \<Rightarrow> lit ''Increase '' @ st @ lit '' queue to '' @ show_nat new_size
      | DecreaseQueueSize st new_size \<Rightarrow> lit ''Decrease '' @ st @ lit '' queue to '' @ show_nat new_size
      | EnableBatching st \<Rightarrow> lit ''Enable batching for '' @ st
      | AdjustBackpressure threshold \<Rightarrow> lit ''Adjust backpressure to '' @ fmt2 threshold)"

definition seconds :: "int \<Rightarrow> int" where "seconds n = n * 1000000000"

text \<open>\<open>Instant::elapsed\<close> saturates at zero.\<close>

definition elapsed :: "int \<Rightarrow> int \<Rightarrow> int" where "elapsed now since = max 0 (now - since)"

section \<open>The conservative policy\<close>

record conservative_policy =
  cons_rules :: analysis_rules
  cons_cooldown :: int
  cons_last_action :: int
  cons_step_size :: ieee

definition conservative_new :: "int \<Rightarrow> analysis_rules \<Rightarrow> conservative_policy" where
  "conservative_new now r =
     \<lparr> cons_rules = r, cons_cooldown = seconds 10, cons_last_action = now - seconds 60,
       cons_step_size = f64_lit (1 / 10) \<rparr>"

definition cons_in_cooldown :: "int \<Rightarrow> conservative_policy \<Rightarrow> bool" where
  "cons_in_cooldown now p = (elapsed now (cons_last_action p) < cons_cooldown p)"

text \<open>\<open>((n as f64) * (1.0 + step)) as usize\<close>, at most 10000; and with \<open>1.0 - step\<close>, at least 100.\<close>

definition resize_up :: "ieee \<Rightarrow> usize \<Rightarrow> usize" where
  "resize_up step current_queue =
     min (fp_to_unsigned USIZE_MAX (fp_mul f64 (fp_of_nat f64 current_queue) (fp_add f64 one_f step))) 10000"

definition resize_down :: "ieee \<Rightarrow> usize \<Rightarrow> usize" where
  "resize_down step current_queue =
     max (fp_to_unsigned USIZE_MAX (fp_mul f64 (fp_of_nat f64 current_queue) (fp_sub f64 one_f step))) 100"

text \<open>Rule 1: a bottleneck gets a longer queue.\<close>

definition cons_increase :: "metrics_snapshot \<Rightarrow> metrics_analyzer \<Rightarrow> conservative_policy \<Rightarrow> tuning_action list" where
  "cons_increase s a p =
     (case identify_bottleneck a of
        None \<Rightarrow> []
      | Some bottleneck \<Rightarrow>
          (case hm_get bottleneck (snap_stages s) of
             None \<Rightarrow> []
           | Some m \<Rightarrow>
               if p99_target_ns (cons_rules p) < avg_latency_ns m then
                 let current_queue = unat (current_queue_len m);
                     new_size = resize_up (cons_step_size p) current_queue
                 in if current_queue < new_size then [IncreaseQueueSize bottleneck new_size] else []
               else []))"

text \<open>Rule 2, for a pressure above \<open>threshold\<close>: every queue longer than 100 is shortened.\<close>

definition decrease_queues :: "ieee \<Rightarrow> ieee \<Rightarrow> metrics_snapshot \<Rightarrow> metrics_analyzer \<Rightarrow> tuning_action list" where
  "decrease_queues threshold step s a =
     (if fp_less threshold (get_memory_pressure a) then
        List.map_filter (\<lambda>(st, m).
          let current_queue = unat (current_queue_len m)
          in if 100 < current_queue then Some (DecreaseQueueSize st (resize_down step current_queue)) else None)
        (snap_stages s)
      else [])"

text \<open>Rule 3: a queue that overflows more and more is batched.\<close>

definition enable_batching :: "metrics_analyzer \<Rightarrow> tuning_action list" where
  "enable_batching a =
     List.map_filter (\<lambda>st. case get_trend st a of
         None \<Rightarrow> None
       | Some t \<Rightarrow> if trend_queue t = Increasing then Some (EnableBatching st) else None)
     (detect_queue_overflow a)"

definition conservative_analyze ::
    "int \<Rightarrow> int \<Rightarrow> metrics_snapshot \<Rightarrow> metrics_analyzer \<Rightarrow> conservative_policy
       \<Rightarrow> tuning_action list \<times> conservative_policy" where
  "conservative_analyze now later s a p =
     (if cons_in_cooldown now p then ([], p)
      else
        let actions = cons_increase s a p
              @ decrease_queues (memory_pressure_threshold (cons_rules p)) (cons_step_size p) s a
              @ enable_batching a;
            p = (if actions \<noteq> [] then p\<lparr>cons_last_action := later\<rparr> else p)
        in (take 3 actions, p))"

section \<open>The aggressive policy\<close>

record aggressive_policy =
  aggr_rules :: analysis_rules
  aggr_cooldown :: int
  aggr_last_action :: int
  aggr_step_size :: ieee

definition aggressive_new :: "int \<Rightarrow> analysis_rules \<Rightarrow> aggressive_policy" where
  "aggressive_new now r =
     \<lparr> aggr_rules = r, aggr_cooldown = seconds 5, aggr_last_action = now - seconds 60,
       aggr_step_size = f64_lit (2 / 10) \<rparr>"

definition aggr_in_cooldown :: "int \<Rightarrow> aggressive_policy \<Rightarrow> bool" where
  "aggr_in_cooldown now p = (elapsed now (aggr_last_action p) < aggr_cooldown p)"

definition aggr_increase :: "metrics_snapshot \<Rightarrow> metrics_analyzer \<Rightarrow> aggressive_policy \<Rightarrow> tuning_action list" where
  "aggr_increase s a p =
     (case identify_bottleneck a of
        None \<Rightarrow> []
      | Some bottleneck \<Rightarrow>
          (case hm_get bottleneck (snap_stages s) of
             None \<Rightarrow> []
           | Some m \<Rightarrow>
               [IncreaseQueueSize bottleneck (resize_up (aggr_step_size p) (unat (current_queue_len m)))]))"

definition aggressive_analyze ::
    "int \<Rightarrow> int \<Rightarrow> metrics_snapshot \<Rightarrow> metrics_analyzer \<Rightarrow> aggressive_policy
       \<Rightarrow> tuning_action list \<times> aggressive_policy" where
  "aggressive_analyze now later s a p =
     (if aggr_in_cooldown now p then ([], p)
      else
        let actions = aggr_increase s a p @ decrease_queues (f64_lit (7 / 10)) (aggr_step_size p) s a;
            p = (if actions \<noteq> [] then p\<lparr>aggr_last_action := later\<rparr> else p)
        in (take 5 actions, p))"

section \<open>The steps in floating-point arithmetic\<close>

lemma rne_eqI: "\<bar>x - of_int n\<bar> < 1 / 2 \<Longrightarrow> rne x = n"
  using rne_near [of x] by linarith

lemma round_mag_eqI:
  assumes "2 powi e \<le> q" and "q < 2 powi (e + 1)" and "int k = 52 - e" and "- 1022 \<le> e" and "rne (q * 2 ^ k) = n"
  shows "round_mag f64 q = of_int n / 2 ^ k"
proof -
  have e: "expo q = e" by (rule expo_eqI [OF assms(1,2)])
  have u: "ulp_exp f64 q = - int k" using assms(3,4) by (simp add: ulp_exp_def e)
  have q: "q \<noteq> 0" using assms(1) by (metis not_less zero_less_numeral zero_less_power_int)
  show ?thesis using q assms(5) by (simp add: round_mag_def u power_int_minus divide_inverse)
qed

lemma round_one_tenth: "round_mag f64 (1 / 10) = 7205759403792794 / 2 ^ 56"
  using round_mag_eqI [of "- 4" "1 / 10" 56 7205759403792794, OF _ _ _ _ rne_eqI]
  by (simp add: power_int_def power_divide)

lemma round_two_tenths: "round_mag f64 (2 / 10) = 7205759403792794 / 2 ^ 55"
  using round_mag_eqI [of "- 3" "2 / 10" 55 7205759403792794, OF _ _ _ _ rne_eqI]
  by (simp add: power_int_def power_divide)

text \<open>The factors: \<open>1.0 + 0.1\<close>, \<open>1.0 - 0.1\<close>, \<open>1.0 + 0.2\<close> and \<open>1.0 - 0.2\<close>.\<close>

definition factor_11 :: rat where "factor_11 = 4953959590107546 / 2 ^ 52"
definition factor_9 :: rat where "factor_9 = 8106479329266893 / 2 ^ 53"
definition factor_12 :: rat where "factor_12 = 5404319552844595 / 2 ^ 52"
definition factor_8 :: rat where "factor_8 = 7205759403792794 / 2 ^ 53"

lemma below_overflow: "q \<le> 2 ^ 100 \<Longrightarrow> \<not> 2 powi 1024 \<le> (q :: rat)"
proof -
  assume "q \<le> 2 ^ 100"
  also have "(2 :: rat) ^ 100 = 2 powi 100" by simp
  also have "\<dots> < 2 powi 1024" by (simp only: pow2_less)
  finally show ?thesis by simp
qed

lemma f64_lit_tenths: "f64_lit (1 / 10) = Num False (7205759403792794 / 2 ^ 56)"
  "f64_lit (2 / 10) = Num False (7205759403792794 / 2 ^ 55)"
  unfolding f64_lit_def fp_def round_one_tenth round_two_tenths Let_def formats
  by (simp_all add: below_overflow)

text \<open>The last one is a tie, which goes to the even neighbour.\<close>

lemma round_factors:
  "round_mag f64 (1 + 7205759403792794 / 2 ^ 56) = factor_11"
  "round_mag f64 (1 - 7205759403792794 / 2 ^ 56) = factor_9"
  "round_mag f64 (1 + 7205759403792794 / 2 ^ 55) = factor_12"
  "round_mag f64 (1 - 7205759403792794 / 2 ^ 55) = factor_8"
proof -
  show "round_mag f64 (1 + 7205759403792794 / 2 ^ 56) = factor_11"
    using round_mag_eqI [of 0 "1 + 7205759403792794 / 2 ^ 56" 52 4953959590107546, OF _ _ _ _ rne_eqI]
    by (simp add: factor_11_def)
  show "round_mag f64 (1 - 7205759403792794 / 2 ^ 56) = factor_9"
    using round_mag_eqI [of "- 1" "1 - 7205759403792794 / 2 ^ 56" 53 8106479329266893, OF _ _ _ _ rne_eqI]
    by (simp add: factor_9_def power_int_def)
  show "round_mag f64 (1 + 7205759403792794 / 2 ^ 55) = factor_12"
    using round_mag_eqI [of 0 "1 + 7205759403792794 / 2 ^ 55" 52 5404319552844595, OF _ _ _ _ rne_eqI]
    by (simp add: factor_12_def)
  have "rne ((1 - 7205759403792794 / 2 ^ 55) * 2 ^ 53) = 7205759403792794"
    using floor_unique [of 7205759403792793 "14411518807585587 / 2 :: rat"] by (simp add: rne_def Let_def)
  then show "round_mag f64 (1 - 7205759403792794 / 2 ^ 55) = factor_8"
    using round_mag_eqI [of "- 1" "1 - 7205759403792794 / 2 ^ 55" 53 7205759403792794]
    by (simp add: factor_8_def power_int_def)
qed

lemma steps:
  "fp_add f64 one_f (f64_lit (1 / 10)) = Num False factor_11"
  "fp_sub f64 one_f (f64_lit (1 / 10)) = Num False factor_9"
  "fp_add f64 one_f (f64_lit (2 / 10)) = Num False factor_12"
  "fp_sub f64 one_f (f64_lit (2 / 10)) = Num False factor_8"
proof -
  have fp: "fp f64 False q = Num False r" if "round_mag f64 q = r" "r \<le> 2 ^ 100" for q r
    using that below_overflow [of r] by (simp add: fp_def)
  have le: "factor_11 \<le> 2 ^ 100" "factor_9 \<le> 2 ^ 100" "factor_12 \<le> 2 ^ 100" "factor_8 \<le> 2 ^ 100"
    by (simp_all add: factor_11_def factor_9_def factor_12_def factor_8_def)
  show "fp_add f64 one_f (f64_lit (1 / 10)) = Num False factor_11"
    using fp [OF round_factors(1) le(1)] unfolding f64_lit_tenths by (simp add: signed_def Let_def)
  show "fp_sub f64 one_f (f64_lit (1 / 10)) = Num False factor_9"
    using fp [OF round_factors(2) le(2)] unfolding f64_lit_tenths fp_sub_def by (simp add: signed_def Let_def)
  show "fp_add f64 one_f (f64_lit (2 / 10)) = Num False factor_12"
    using fp [OF round_factors(3) le(3)] unfolding f64_lit_tenths by (simp add: signed_def Let_def)
  show "fp_sub f64 one_f (f64_lit (2 / 10)) = Num False factor_8"
    using fp [OF round_factors(4) le(4)] unfolding f64_lit_tenths fp_sub_def by (simp add: signed_def Let_def)
qed

section \<open>Resizing is integer arithmetic\<close>

lemma round_small_nat: "n < 2 ^ 53 \<Longrightarrow> round_mag f64 (of_nat n) = of_nat n"
  by (intro round_mag_representable representable_nat) simp_all

text \<open>A product a little above an integer keeps its integer part.\<close>

lemma round_floor:
  assumes "of_nat n \<le> q" and "q \<le> of_nat n + 15 / 16" and "n < 2 ^ 48"
  shows "nat \<lfloor>round_mag f64 q\<rfloor> = n"
proof -
  have n: "round_mag f64 (of_nat n) = of_nat n" using assms(3) by (intro round_small_nat) simp
  have "representable f64 (of_nat n + 15 / 16)"
    unfolding representable_def
    by (intro exI [of _ "int (16 * n + 15)"] exI [of _ "- 4"])
      (use assms(3) in \<open>simp add: power_int_def power_divide add_divide_distrib\<close>)
  then have "round_mag f64 (of_nat n + 15 / 16) = of_nat n + 15 / 16" by (rule round_mag_representable)
  moreover have "0 \<le> q" using assms(1) of_nat_0_le_iff [of n, where ?'a = rat] by linarith
  ultimately have "of_nat n \<le> round_mag f64 q" "round_mag f64 q \<le> of_nat n + 15 / 16"
    using round_mag_mono [of "of_nat n" q f64] round_mag_mono [of q "of_nat n + 15 / 16" f64] assms(1,2) n
    by simp_all
  then have "\<lfloor>round_mag f64 q\<rfloor> = int n" by (intro floor_unique) simp_all
  then show ?thesis by simp
qed

text \<open>A product very close to an integer becomes that integer.\<close>

lemma round_near_nat:
  assumes "0 < n" and "n < 2 ^ 50" and "\<bar>q - of_nat n\<bar> < q / 2 ^ 54"
  shows "round_mag f64 q = of_nat n"
proof -
  have n1: "(1 :: rat) \<le> of_nat n" using assms(1) by (metis One_nat_def Suc_leI of_nat_1 of_nat_le_iff)
  have n2: "of_nat n < (2 :: rat) ^ 50" using assms(2) by (metis of_nat_less_iff of_nat_numeral of_nat_power)
  have "0 < q"
  proof (rule ccontr)
    assume "\<not> 0 < q"
    then have "q / 2 ^ 54 \<le> 0" by (simp add: divide_nonpos_pos)
    with assms(3) show False by linarith
  qed
  have lt: "q - of_nat n < q / 2 ^ 54" "of_nat n - q < q / 2 ^ 54" using assms(3) by linarith+
  have "q / 2 ^ 54 \<le> q / 4" using \<open>0 < q\<close> by (intro divide_left_mono) simp_all
  moreover have "(2 :: rat) ^ 52 = 4 * 2 ^ 50" by simp
  ultimately have q: "1 / 2 < q" "q < 2 ^ 52" using lt n1 n2 by linarith+
  have e1: "- 1 \<le> expo q"
  proof (rule ccontr)
    assume "\<not> - 1 \<le> expo q"
    then have "expo q + 1 \<le> - 1" by simp
    then have "(2 :: rat) powi (expo q + 1) \<le> 2 powi - 1" by (simp only: pow2_le)
    with expo_bounds(2) [OF \<open>0 < q\<close>] q(1) show False by (simp add: power_int_def)
  qed
  have "(2 :: rat) powi expo q < 2 powi 52" using expo_bounds(1) [OF \<open>0 < q\<close>] q(2) by simp
  then have e2: "expo q < 52" by (simp only: pow2_less)
  have u: "ulp_exp f64 q = expo q - 52" using e1 by (simp add: ulp_exp_def)
  let ?k = "nat (52 - expo q)"
  have pk: "(2 :: rat) powi (expo q - 52) = 1 / 2 ^ ?k" using e2 by (simp add: power_int_def power_divide)
  have "\<bar>q - of_nat n\<bar> * 2 ^ ?k < q / 2 ^ 54 * 2 ^ ?k" using assms(3) by (intro mult_strict_right_mono) simp_all
  also have "\<dots> < 2 powi (expo q + 1) / 2 ^ 54 * 2 ^ ?k"
    using expo_bounds(2) [OF \<open>0 < q\<close>] by (intro mult_strict_right_mono divide_strict_right_mono) simp_all
  also have "\<dots> = 2 powi (expo q + 1) * 2 powi (52 - expo q) / 2 ^ 54" using e2 by (simp add: power_int_def)
  also have "(2 :: rat) powi (expo q + 1) * 2 powi (52 - expo q) = 2 powi 53" by (simp flip: power_int_add)
  also have "(2 :: rat) powi 53 / 2 ^ 54 = 1 / 2" by simp
  finally have "\<bar>q * 2 ^ ?k - of_int (int n * 2 ^ ?k)\<bar> < 1 / 2"
    by (simp add: abs_mult_pos left_diff_distrib)
  then have "rne (q * 2 ^ ?k) = int n * 2 ^ ?k" by (rule rne_eqI)
  then show ?thesis using \<open>0 < q\<close> by (simp add: round_mag_def u pk)
qed

lemma to_unsigned_fp:
  "fp_to_unsigned most (fp f64 False q)
     = (if 2 powi 1024 \<le> round_mag f64 q then most else min most (nat \<lfloor>round_mag f64 q\<rfloor>))"
  by (simp add: fp_def Let_def)

lemma to_unsigned_small:
  assumes "nat \<lfloor>round_mag f64 q\<rfloor> = n" and "n < 2 ^ 48"
  shows "fp_to_unsigned USIZE_MAX (fp f64 False q) = n"
proof -
  have "int n < 2 ^ 48" using assms(2) by (metis of_nat_less_iff of_nat_numeral of_nat_power)
  then have "\<lfloor>round_mag f64 q\<rfloor> < 2 ^ 48" using assms(1) by linarith
  then have "round_mag f64 q < 2 ^ 48" by (simp add: floor_less_iff)
  then have "\<not> 2 powi 1024 \<le> round_mag f64 q" by (intro below_overflow) simp
  moreover have "n \<le> USIZE_MAX" using assms(2) by (simp add: USIZE_MAX_def)
  ultimately show ?thesis using assms(1) by (simp add: to_unsigned_fp)
qed

lemma fp_of_small: "c < 2 ^ 53 \<Longrightarrow> fp_of_nat f64 c = Num False (of_nat c)"
  by (simp add: fp_of_nat_num round_small_nat)

text \<open>
  A factor a little above \<open>a / b\<close> scales as the integers do; so does one a little below, where the
  exact product is not an integer.
\<close>

lemma scale_near:
  assumes "c < 2 ^ 40"
    and "of_nat a / of_nat b \<le> r \<or> a * c mod b \<noteq> 0 \<and> of_nat a / of_nat b - 1 / 2 ^ 45 \<le> r" and "r \<le> of_nat a / of_nat b + 1 / 2 ^ 45"
    and "0 < b" and "b \<le> 10" and "a \<le> 2 * b"
  shows "fp_to_unsigned USIZE_MAX (fp_mul f64 (fp_of_nat f64 c) (Num False r)) = a * c div b"
proof -
  have b: "(0 :: rat) < of_nat b" "(of_nat b :: rat) \<le> 10" using assms(4,5) by (simp, metis of_nat_le_iff of_nat_numeral)
  have c: "(of_nat c :: rat) < 2 ^ 40" using assms(1) by (metis of_nat_less_iff of_nat_numeral of_nat_power)
  let ?n = "a * c div b" and ?e = "of_nat (a * c) / of_nat b :: rat"
  have e: "?e = of_nat ?n + of_nat (a * c mod b) / of_nat b"
  proof -
    have "(of_nat (a * c) :: rat) = of_nat b * of_nat ?n + of_nat (a * c mod b)"
      by (metis mult_div_mod_eq of_nat_add of_nat_mult)
    then show ?thesis using b(1) by (simp only: add_divide_distrib) simp
  qed
  have "a * c mod b \<le> b - 1" using mod_less_divisor [OF assms(4), of "a * c"] by linarith
  then have "(of_nat (a * c mod b) :: rat) \<le> of_nat (b - 1)" by (simp only: of_nat_le_iff)
  also have "\<dots> = of_nat b - 1" using assms(4) by (simp add: of_nat_diff)
  finally have "(of_nat (a * c mod b) :: rat) \<le> of_nat b - 1" .
  then have "of_nat (a * c mod b) / of_nat b \<le> (of_nat b - 1) / (of_nat b :: rat)"
    using b(1) by (simp add: divide_right_mono)
  also have "\<dots> = 1 - 1 / of_nat b" using b(1) by (simp add: diff_divide_distrib)
  also have "\<dots> \<le> 9 / 10" using b by (simp add: field_simps)
  finally have rem: "of_nat (a * c mod b) / of_nat b \<le> (9 / 10 :: rat)" .
  have lo: "of_nat ?n \<le> of_nat c * r"
  proof (cases "of_nat a / of_nat b \<le> r")
    case True
    have "(0 :: rat) \<le> of_nat (a * c mod b) / of_nat b" using b by simp
    moreover have "?e \<le> of_nat c * r" using mult_left_mono [OF True, of "of_nat c"] by (simp add: mult.commute)
    ultimately show ?thesis using e by linarith
  next
    case False
    with assms(2) have r: "a * c mod b \<noteq> 0" "of_nat a / of_nat b - 1 / 2 ^ 45 \<le> r" by auto
    from r(1) have "(1 :: rat) \<le> of_nat (a * c mod b)" by (metis less_one linorder_not_less of_nat_1 of_nat_le_iff)
    then have "1 / of_nat b \<le> of_nat (a * c mod b) / (of_nat b :: rat)" using b(1) by (simp add: divide_right_mono)
    moreover have "1 / 10 \<le> 1 / (of_nat b :: rat)" using b by (intro divide_left_mono) simp_all
    moreover have "?e - of_nat c / 2 ^ 45 \<le> of_nat c * r"
      using mult_left_mono [OF r(2), of "of_nat c"] by (simp add: right_diff_distrib mult.commute)
    moreover have "of_nat c / 2 ^ 45 \<le> (1 / 32 :: rat)" using c by simp
    ultimately show ?thesis using e by linarith
  qed
  have "of_nat c * r \<le> of_nat c * (of_nat a / of_nat b + 1 / 2 ^ 45)" using assms(3) by (intro mult_left_mono) simp_all
  also have "\<dots> = ?e + of_nat c / 2 ^ 45" by (simp add: distrib_left mult.commute)
  also have "\<dots> \<le> ?e + 1 / 32" using c by simp
  finally have hi: "of_nat c * r \<le> ?e + 1 / 32" .
  have n: "?n < 2 ^ 48"
  proof -
    have "a * c \<le> (2 * c) * b" using assms(6) by (simp add: mult.commute mult.left_commute)
    then have "?n \<le> 2 * c" using assms(4) by (metis div_le_mono nonzero_mult_div_cancel_right not_less0)
    with assms(1) show ?thesis by simp
  qed
  from e lo hi rem have "of_nat ?n \<le> of_nat c * r" "of_nat c * r \<le> of_nat ?n + 15 / 16" by linarith+
  from to_unsigned_small [OF round_floor [OF this n] n] show ?thesis
    using assms(1) by (simp add: fp_of_small)
qed

lemma scale_12:
  assumes "c < 2 ^ 40"
  shows "fp_to_unsigned USIZE_MAX (fp_mul f64 (fp_of_nat f64 c) (Num False factor_12)) = 6 * c div 5"
proof (cases "6 * c mod 5 = 0")
  case False
  with assms show ?thesis by (intro scale_near) (simp_all add: factor_12_def)
next
  case True
  then have "5 dvd c" by presburger
  then obtain d where d: "c = 5 * d" by blast
  show ?thesis
  proof (cases "d = 0")
    case True
    then show ?thesis by (simp add: d fp_of_nat_def fp_def)
  next
    case False
    have "\<bar>of_nat c * factor_12 - of_nat (6 * d)\<bar> < of_nat c * factor_12 / 2 ^ 54"
      using False by (simp add: d factor_12_def abs_less_iff)
    then have "round_mag f64 (of_nat c * factor_12) = of_nat (6 * d)"
      using False assms d by (intro round_near_nat) simp_all
    then have "nat \<lfloor>round_mag f64 (of_nat c * factor_12)\<rfloor> = 6 * d" by (metis floor_of_nat nat_int)
    from to_unsigned_small [OF this] show ?thesis using assms d by (simp add: fp_of_small)
  qed
qed

text \<open>Beyond ten thousand the product stays beyond ten thousand, overflow included.\<close>

lemma scale_large:
  assumes "10000 \<le> c" and "c < 2 ^ 64" and "1 \<le> r"
  shows "10000 \<le> fp_to_unsigned USIZE_MAX (fp_mul f64 (fp_of_nat f64 c) (Num False r))"
proof -
  have "(of_nat 10000 :: rat) \<le> of_nat c" using assms(1) by (simp only: of_nat_le_iff)
  then have "round_mag f64 (of_nat 10000) \<le> round_mag f64 (of_nat c)" by (intro round_mag_mono) simp_all
  then have "10000 \<le> round_mag f64 (of_nat c)" using round_small_nat [of 10000] by simp
  with mult_mono [OF this assms(3)] have "10000 \<le> round_mag f64 (of_nat c) * r" by simp
  then have "round_mag f64 (of_nat 10000) \<le> round_mag f64 (round_mag f64 (of_nat c) * r)"
    by (intro round_mag_mono) simp_all
  then have "10000 \<le> round_mag f64 (round_mag f64 (of_nat c) * r)" using round_small_nat [of 10000] by simp
  then have "10000 \<le> nat \<lfloor>round_mag f64 (round_mag f64 (of_nat c) * r)\<rfloor>"
    by (simp add: le_nat_iff le_floor_iff)
  then show ?thesis using assms(2) by (simp add: fp_of_nat_num to_unsigned_fp USIZE_MAX_def)
qed

lemma resize_up_conservative:
  assumes "c < 2 ^ 64"
  shows "resize_up (f64_lit (1 / 10)) c = min (11 * c div 10) 10000"
proof (cases "c < 2 ^ 40")
  case True
  then have "fp_to_unsigned USIZE_MAX (fp_mul f64 (fp_of_nat f64 c) (Num False factor_11)) = 11 * c div 10"
    by (intro scale_near) (simp_all add: factor_11_def)
  then show ?thesis unfolding resize_up_def steps by simp
next
  case False
  then have "10000 \<le> fp_to_unsigned USIZE_MAX (fp_mul f64 (fp_of_nat f64 c) (Num False factor_11))"
    using assms by (intro scale_large) (simp_all add: factor_11_def)
  moreover have "10000 \<le> 11 * c div 10" using False by simp
  ultimately show ?thesis unfolding resize_up_def steps by simp
qed

lemma resize_up_aggressive:
  assumes "c < 2 ^ 64"
  shows "resize_up (f64_lit (2 / 10)) c = min (6 * c div 5) 10000"
proof (cases "c < 2 ^ 40")
  case True
  then show ?thesis unfolding resize_up_def steps by (simp only: scale_12)
next
  case False
  then have "10000 \<le> fp_to_unsigned USIZE_MAX (fp_mul f64 (fp_of_nat f64 c) (Num False factor_12))"
    using assms by (intro scale_large) (simp_all add: factor_12_def)
  moreover have "10000 \<le> 6 * c div 5" using False by simp
  ultimately show ?thesis unfolding resize_up_def steps by simp
qed

lemma resize_down_conservative:
  assumes "c < 2 ^ 40"
  shows "resize_down (f64_lit (1 / 10)) c = max (9 * c div 10) 100"
proof -
  have "fp_to_unsigned USIZE_MAX (fp_mul f64 (fp_of_nat f64 c) (Num False factor_9)) = 9 * c div 10"
    using assms by (intro scale_near) (simp_all add: factor_9_def)
  then show ?thesis unfolding resize_down_def steps by simp
qed

lemma resize_down_aggressive:
  assumes "c < 2 ^ 40"
  shows "resize_down (f64_lit (2 / 10)) c = max (4 * c div 5) 100"
proof -
  have "fp_to_unsigned USIZE_MAX (fp_mul f64 (fp_of_nat f64 c) (Num False factor_8)) = 4 * c div 5"
    using assms by (intro scale_near) (simp_all add: factor_8_def)
  then show ?thesis unfolding resize_down_def steps by simp
qed

section \<open>The pressure thresholds are queue lengths\<close>

text \<open>\<open>u\<close> and \<open>v\<close> are numbers of the format that separate the rounded threshold from the next pressure.\<close>

lemma pressure_threshold:
  assumes "n < 2 ^ 64" and "k < 10000"
    and "of_nat k / 10000 \<le> u" and "u < v" and "v \<le> of_nat (k + 1) / 10000"
    and "representable f64 u" and "representable f64 v"
  shows "round_mag f64 (of_nat k / 10000) < pressure_value n \<longleftrightarrow> k < n"
proof
  have k0: "(0 :: rat) \<le> of_nat k / 10000" by simp
  have "round_mag f64 (of_nat k / 10000) \<le> round_mag f64 u" by (intro round_mag_mono assms(3)) simp_all
  then have ku: "round_mag f64 (of_nat k / 10000) \<le> u" using round_mag_representable [OF assms(6)] by simp
  have k1: "v \<le> 1"
  proof -
    have "(of_nat (k + 1) :: rat) \<le> of_nat 10000" using assms(2) by (simp only: of_nat_le_iff)
    then show ?thesis using assms(5) by simp
  qed
  show "round_mag f64 (of_nat k / 10000) < pressure_value n" if "k < n"
  proof -
    have "round_mag f64 (of_nat (k + 1)) \<le> round_mag f64 (of_nat n)" using that
      by (intro round_mag_mono) (simp_all only: of_nat_le_iff, simp_all)
    then have "of_nat (k + 1) \<le> round_mag f64 (of_nat n)" using round_small_nat [of "k + 1"] assms(2) by simp
    then have "v \<le> round_mag f64 (of_nat n) / 10000" using assms(5) by simp
    then have "round_mag f64 v \<le> round_mag f64 (round_mag f64 (of_nat n) / 10000)"
      using assms(3,4) k0 by (intro round_mag_mono) simp_all
    then have "v \<le> round_mag f64 (round_mag f64 (of_nat n) / 10000)"
      using round_mag_representable [OF assms(7)] by simp
    with k1 ku assms(4) show ?thesis by (simp add: pressure_value_def)
  qed
  show "k < n" if less: "round_mag f64 (of_nat k / 10000) < pressure_value n"
  proof (rule ccontr)
    assume "\<not> k < n"
    then have "round_mag f64 (of_nat n) \<le> round_mag f64 (of_nat k)"
      by (intro round_mag_mono) (simp_all only: of_nat_le_iff, simp_all)
    then have "round_mag f64 (of_nat n) / 10000 \<le> of_nat k / 10000"
      using round_small_nat [of k] assms(2) by simp
    then have "round_mag f64 (round_mag f64 (of_nat n) / 10000) \<le> round_mag f64 (of_nat k / 10000)"
      by (intro round_mag_mono) (simp_all add: round_mag_nonneg)
    with less show False by (simp add: pressure_value_def)
  qed
qed

lemma representable_quotient:
  "m < 2 ^ 53 \<Longrightarrow> k \<le> 1000 \<Longrightarrow> representable f64 (of_nat m / 2 ^ k)"
  unfolding representable_def
  by (intro exI [of _ "int m"] exI [of _ "- int k"])
    (simp add: power_int_def power_divide flip: of_nat_power)

lemma pressure_conservative:
  assumes "n < 2 ^ 64"
  shows "fp_less (f64_lit (8 / 10)) (Num False (pressure_value n)) \<longleftrightarrow> 8000 < n"
proof -
  have r: "round_mag f64 (of_nat 8000 / 10000) = factor_8"
    using round_mag_eqI [of "- 1" "8 / 10" 53 7205759403792794, OF _ _ _ _ rne_eqI]
    by (simp add: factor_8_def power_int_def)
  then have "f64_lit (8 / 10) = Num False factor_8"
    unfolding f64_lit_def fp_def by (simp add: factor_8_def below_overflow)
  moreover have "round_mag f64 (of_nat 8000 / 10000) < pressure_value n \<longleftrightarrow> 8000 < n"
    using representable_quotient [of 52429 16] representable_quotient [of 13108 14] assms
    by (intro pressure_threshold [where u = "52429 / 2 ^ 16" and v = "13108 / 2 ^ 14"]) simp_all
  ultimately show ?thesis unfolding r by (simp add: signed_def)
qed

lemma pressure_aggressive:
  assumes "n < 2 ^ 64"
  shows "fp_less (f64_lit (7 / 10)) (Num False (pressure_value n)) \<longleftrightarrow> 7000 < n"
proof -
  have r: "round_mag f64 (of_nat 7000 / 10000) = 6305039478318694 / 2 ^ 53"
    using round_mag_eqI [of "- 1" "7 / 10" 53 6305039478318694, OF _ _ _ _ rne_eqI]
    by (simp add: power_int_def)
  then have "f64_lit (7 / 10) = Num False (6305039478318694 / 2 ^ 53)"
    unfolding f64_lit_def fp_def by (simp add: below_overflow)
  moreover have "round_mag f64 (of_nat 7000 / 10000) < pressure_value n \<longleftrightarrow> 7000 < n"
    using representable_quotient [of 45876 16] representable_quotient [of 11470 14] assms
    by (intro pressure_threshold [where u = "45876 / 2 ^ 16" and v = "11470 / 2 ^ 14"]) simp_all
  ultimately show ?thesis unfolding r by (simp add: signed_def)
qed

text \<open>The number of queued entries that the pressure is computed from.\<close>

definition total_queued :: "metrics_snapshot \<Rightarrow> nat" where
  "total_queued s = unat (sum_list (map (current_queue_len \<circ> snd) (snap_stages s)))"

lemma pressure_of_total:
  "get_memory_pressure (add_snapshot s a) = Num False (pressure_value (total_queued s))"
proof -
  have "total_queued s < 2 ^ 64" by (simp only: total_queued_def unat_u64_less)
  from pressure_num [OF this] show ?thesis by (simp add: get_memory_pressure_def total_queued_def Let_def)
qed

section \<open>The policies over integers\<close>

definition queue_of :: "stage_metrics \<Rightarrow> nat" where "queue_of m = unat (current_queue_len m)"

definition increase_reference :: "(u64 \<Rightarrow> nat \<Rightarrow> bool) \<Rightarrow> (nat \<Rightarrow> nat) \<Rightarrow> metrics_snapshot \<Rightarrow> metrics_analyzer
    \<Rightarrow> tuning_action list" where
  "increase_reference wanted grow s a =
     (case identify_bottleneck a of
        None \<Rightarrow> []
      | Some b \<Rightarrow> (case hm_get b (snap_stages s) of
            None \<Rightarrow> []
          | Some m \<Rightarrow> if wanted (avg_latency_ns m) (queue_of m)
              then [IncreaseQueueSize b (min (grow (queue_of m)) 10000)] else []))"

definition decrease_reference :: "nat \<Rightarrow> (nat \<Rightarrow> nat) \<Rightarrow> metrics_snapshot \<Rightarrow> tuning_action list" where
  "decrease_reference limit shrink s =
     (if limit < total_queued s
      then map (\<lambda>(st, m). DecreaseQueueSize st (max (shrink (queue_of m)) 100))
        (filter (\<lambda>(_, m). 100 < queue_of m) (snap_stages s))
      else [])"

definition conservative_reference ::
    "int \<Rightarrow> int \<Rightarrow> metrics_snapshot \<Rightarrow> metrics_analyzer \<Rightarrow> tuning_action list" where
  "conservative_reference since now s a =
     (if now < since + 10000000000 then []
      else take 3 (increase_reference (\<lambda>l n. 5000000 < l \<and> 10 \<le> n \<and> n < 10000) (\<lambda>n. 11 * n div 10) s a
        @ decrease_reference 8000 (\<lambda>n. 9 * n div 10) s @ enable_batching a))"

definition aggressive_reference ::
    "int \<Rightarrow> int \<Rightarrow> metrics_snapshot \<Rightarrow> metrics_analyzer \<Rightarrow> tuning_action list" where
  "aggressive_reference since now s a =
     (if now < since + 5000000000 then []
      else take 5 (increase_reference (\<lambda>_ _. True) (\<lambda>n. 6 * n div 5) s a
        @ decrease_reference 7000 (\<lambda>n. 4 * n div 5) s))"

text \<open>No queue is longer than any memory could hold.\<close>

definition queues_bounded :: "metrics_snapshot \<Rightarrow> bool" where
  "queues_bounded s \<longleftrightarrow> (\<forall>(st, m) \<in> set (snap_stages s). queue_of m < 2 ^ 40)"

lemma queue_of_less: "queue_of m < 2 ^ 64"
  by (simp only: queue_of_def unat_u64_less)

lemma decrease_queues_reference:
  assumes "queues_bounded s"
    and "fp_less threshold (Num False (pressure_value (total_queued s))) \<longleftrightarrow> limit < total_queued s"
    and "\<And>n. n < 2 ^ 40 \<Longrightarrow> resize_down step n = max (shrink n) 100"
  shows "decrease_queues threshold step s (add_snapshot s a) = decrease_reference limit shrink s"
proof -
  have "List.map_filter (\<lambda>(st, m).
      let current_queue = unat (current_queue_len m)
      in if 100 < current_queue then Some (DecreaseQueueSize st (resize_down step current_queue)) else None) ms
    = map (\<lambda>(st, m). DecreaseQueueSize st (max (shrink (queue_of m)) 100))
        (filter (\<lambda>(_, m). 100 < queue_of m) ms)" if "\<forall>(st, m) \<in> set ms. queue_of m < 2 ^ 40" for ms
    using that by (induction ms) (auto simp: List.map_filter_def queue_of_def Let_def assms(3) split: if_splits)
  with assms(1,2) show ?thesis
    by (simp add: decrease_queues_def decrease_reference_def pressure_of_total queues_bounded_def)
qed

lemma cons_increase_reference:
  "cons_increase s a ((conservative_new start rules_default)\<lparr>cons_last_action := since\<rparr>)
     = increase_reference (\<lambda>l n. 5000000 < l \<and> 10 \<le> n \<and> n < 10000) (\<lambda>n. 11 * n div 10) s a"
proof -
  have "n < 11 * n div 10 \<longleftrightarrow> 10 \<le> n" for n :: nat by linarith
  moreover have "resize_up (f64_lit (1 / 10)) (queue_of m) = min (11 * queue_of m div 10) 10000" for m
    using queue_of_less by (rule resize_up_conservative)
  ultimately show ?thesis
    by (simp add: cons_increase_def increase_reference_def conservative_new_def rules_default_def Let_def
        queue_of_def [symmetric] split: option.split)
qed

lemma aggr_increase_reference:
  "aggr_increase s a ((aggressive_new start r)\<lparr>aggr_last_action := since\<rparr>)
     = increase_reference (\<lambda>_ _. True) (\<lambda>n. 6 * n div 5) s a"
proof -
  have "resize_up (f64_lit (2 / 10)) (queue_of m) = min (6 * queue_of m div 5) 10000" for m
    using queue_of_less by (rule resize_up_aggressive)
  then show ?thesis
    by (simp add: aggr_increase_def increase_reference_def aggressive_new_def queue_of_def [symmetric]
        split: option.split)
qed

section \<open>Properties\<close>

text \<open>
  C20: The conservative policy is integer arithmetic. With the default rules, whatever its last
  action, the actions that \<open>analyze\<close> computes with floating-point steps and pressures are those
  of \<open>conservative_reference\<close>: a bottleneck above 5 ms with a queue of 10 to 9999 entries grows by
  exactly a tenth (rounded down, at most 10000), every queue above 100 shrinks to nine tenths
  (at least 100) exactly when more than 8000 entries are queued in all, overflowing and growing queues
  are batched, at most three actions are taken and none within ten seconds of the last.
\<close>

theorem conservative_integer:
  assumes "queues_bounded s"
  shows "fst (conservative_analyze now later s (add_snapshot s a)
      ((conservative_new start rules_default)\<lparr>cons_last_action := since\<rparr>))
    = conservative_reference since now s (add_snapshot s a)"
proof -
  let ?p = "(conservative_new start rules_default)\<lparr>cons_last_action := since\<rparr>"
  have "decrease_queues (f64_lit (8 / 10)) (f64_lit (1 / 10)) s (add_snapshot s a)
      = decrease_reference 8000 (\<lambda>n. 9 * n div 10) s"
    using assms pressure_conservative [of "total_queued s"] resize_down_conservative
    by (intro decrease_queues_reference) (simp_all only: total_queued_def unat_u64_less)
  moreover have "cons_step_size ?p = f64_lit (1 / 10)" "memory_pressure_threshold (cons_rules ?p) = f64_lit (8 / 10)"
    by (simp_all only: conservative_new_def rules_default_def conservative_policy.simps analysis_rules.simps)
  moreover have "cons_in_cooldown now ?p \<longleftrightarrow> now < since + 10000000000"
    by (auto simp: cons_in_cooldown_def elapsed_def conservative_new_def seconds_def)
  ultimately show ?thesis
    unfolding conservative_analyze_def conservative_reference_def
    by (simp only: cons_increase_reference Let_def split: if_split) simp
qed

lemma sample_bottleneck:
  "identify_bottleneck (add_snapshot (sample_snapshot n 10000000) (analyzer_new rules_default)) = Some (lit ''parse'')"
  by (simp add: identify_bottleneck_def sample_snapshot_def bottleneck_step_def sample_stage_def avg_latency_ns_def
      analyzer_new_def rules_default_def)

lemma sample_stages:
  "snap_stages (sample_snapshot n l) = [(lit ''parse'', sample_stage n l)]" "queue_of (sample_stage n l) = unat n"
  "avg_latency_ns (sample_stage n l) = l" "total_queued (sample_snapshot n l) = unat n"
  by (simp_all add: sample_snapshot_def sample_stage_def avg_latency_ns_def queue_of_def total_queued_def)

theorem conservative_integer_witness:
  "fst (conservative_analyze 0 5 (sample_snapshot 208 10000000)
      (add_snapshot (sample_snapshot 208 10000000) (analyzer_new rules_default))
      ((conservative_new 0 rules_default)\<lparr>cons_last_action := - 10000000000\<rparr>))
    = [IncreaseQueueSize (lit ''parse'') 228]"
proof -
  let ?s = "sample_snapshot 208 10000000" and ?a = "analyzer_new rules_default"
  have "queues_bounded ?s" by (simp add: queues_bounded_def sample_stages)
  moreover have "enable_batching (add_snapshot ?s ?a) = []"
    by (simp add: enable_batching_def detect_queue_overflow_def sample_snapshot_def sample_stage_def analyzer_new_def
        rules_default_def List.map_filter_def)
  ultimately show ?thesis
    by (simp add: conservative_integer conservative_reference_def increase_reference_def decrease_reference_def
        sample_bottleneck sample_stages hm_get_def del: latest_add_snapshot)
qed

text \<open>
  The aggressive policy is integer arithmetic: every bottleneck is resized to six fifths of its
  length (at most 10000), every queue above 100 shrinks to four fifths (at least 100) exactly when more
  than 7000 entries are queued, at most five actions are taken and none within five seconds of the last.
\<close>

lemma aggressive_integer:
  assumes "queues_bounded s"
  shows "fst (aggressive_analyze now later s (add_snapshot s a)
      ((aggressive_new start r)\<lparr>aggr_last_action := since\<rparr>))
    = aggressive_reference since now s (add_snapshot s a)"
proof -
  let ?p = "(aggressive_new start r)\<lparr>aggr_last_action := since\<rparr>"
  have "decrease_queues (f64_lit (7 / 10)) (f64_lit (2 / 10)) s (add_snapshot s a)
      = decrease_reference 7000 (\<lambda>n. 4 * n div 5) s"
    using assms pressure_aggressive [of "total_queued s"] resize_down_aggressive
    by (intro decrease_queues_reference) (simp_all only: total_queued_def unat_u64_less)
  moreover have "aggr_step_size ?p = f64_lit (2 / 10)"
    by (simp only: aggressive_new_def aggressive_policy.simps)
  moreover have "aggr_in_cooldown now ?p \<longleftrightarrow> now < since + 5000000000"
    by (auto simp: aggr_in_cooldown_def elapsed_def aggressive_new_def seconds_def)
  ultimately show ?thesis
    unfolding aggressive_analyze_def aggressive_reference_def
    by (simp only: aggr_increase_reference Let_def split: if_split) simp
qed

theorem aggressive_integer_witness:
  "fst (aggressive_analyze 0 5 (sample_snapshot 20000 10000000)
      (add_snapshot (sample_snapshot 20000 10000000) (analyzer_new rules_default))
      ((aggressive_new 0 rules_default)\<lparr>aggr_last_action := - 10000000000\<rparr>))
    = [IncreaseQueueSize (lit ''parse'') 10000, DecreaseQueueSize (lit ''parse'') 16000]"
proof -
  let ?s = "sample_snapshot 20000 10000000" and ?a = "analyzer_new rules_default"
  have "queues_bounded ?s" by (simp add: queues_bounded_def sample_stages)
  then show ?thesis
    by (simp add: aggressive_integer aggressive_reference_def increase_reference_def decrease_reference_def
        sample_bottleneck sample_stages hm_get_def del: latest_add_snapshot)
qed

text \<open>
  The aggressive policy does not compare the new size with the old one: an empty queue is
  "increased" to zero entries and one above ten thousand is cut to ten thousand.
\<close>

lemma aggressive_increase_is_no_increase:
  assumes "identify_bottleneck a = Some b" and "hm_get b (snap_stages s) = Some m"
    and "queue_of m = 0 \<or> 10000 \<le> queue_of m"
  shows "\<exists>n \<le> queue_of m. aggr_increase s a (aggressive_new start r) = [IncreaseQueueSize b n]"
proof -
  have "aggr_increase s a (aggressive_new start r) = [IncreaseQueueSize b (min (6 * queue_of m div 5) 10000)]"
    using assms(1,2) resize_up_aggressive [OF queue_of_less [of m]]
    by (simp add: aggr_increase_def aggressive_new_def flip: queue_of_def)
  moreover have "min (6 * queue_of m div 5) 10000 \<le> queue_of m" using assms(3) by auto
  ultimately show ?thesis by blast
qed

section \<open>What every policy guarantees\<close>

definition action_in_bounds :: "tuning_action \<Rightarrow> bool" where
  "action_in_bounds action =
     (case action of
        IncreaseQueueSize st n \<Rightarrow> n \<le> 10000
      | DecreaseQueueSize st n \<Rightarrow> 100 \<le> n
      | EnableBatching st \<Rightarrow> True
      | AdjustBackpressure t \<Rightarrow> fp_le zero_f t \<and> fp_le t one_f)"

lemma map_filter_bounds: "(\<And>x y. f x = Some y \<Longrightarrow> P y) \<Longrightarrow> y \<in> set (List.map_filter f xs) \<Longrightarrow> P y"
  by (auto simp: List.map_filter_def)

lemma rules_in_bounds:
  "action \<in> set (cons_increase s a p) \<Longrightarrow> action_in_bounds action"
  "action \<in> set (aggr_increase s a q) \<Longrightarrow> action_in_bounds action"
  "action \<in> set (decrease_queues threshold step s a) \<Longrightarrow> action_in_bounds action"
  "action \<in> set (enable_batching a) \<Longrightarrow> action_in_bounds action"
proof -
  show "action \<in> set (cons_increase s a p) \<Longrightarrow> action_in_bounds action"
    by (auto simp: cons_increase_def action_in_bounds_def resize_up_def Let_def split: option.splits if_splits)
  show "action \<in> set (aggr_increase s a q) \<Longrightarrow> action_in_bounds action"
    by (auto simp: aggr_increase_def action_in_bounds_def resize_up_def split: option.splits)
  show "action \<in> set (decrease_queues threshold step s a) \<Longrightarrow> action_in_bounds action"
    unfolding decrease_queues_def
    by (auto simp: action_in_bounds_def resize_down_def Let_def split: if_splits elim!: map_filter_bounds [rotated])
  show "action \<in> set (enable_batching a) \<Longrightarrow> action_in_bounds action"
    unfolding enable_batching_def
    by (auto simp: action_in_bounds_def split: option.splits if_splits elim!: map_filter_bounds [rotated])
qed

text \<open>The trait \<open>TuningPolicy\<close> as its client uses it.\<close>

locale bounded_policy =
  fixes analyze :: "int \<Rightarrow> int \<Rightarrow> metrics_snapshot \<Rightarrow> metrics_analyzer \<Rightarrow> 'p \<Rightarrow> tuning_action list \<times> 'p"
    and most :: nat
  assumes few: "length (fst (analyze now later s a p)) \<le> most"
    and in_bounds: "action \<in> set (fst (analyze now later s a p)) \<Longrightarrow> action_in_bounds action"

interpretation conservative: bounded_policy conservative_analyze 3
  by unfold_locales
    (auto simp: conservative_analyze_def Let_def split: if_splits dest!: in_set_takeD intro: rules_in_bounds)

interpretation aggressive: bounded_policy aggressive_analyze 5
  by unfold_locales
    (auto simp: aggressive_analyze_def Let_def split: if_splits dest!: in_set_takeD intro: rules_in_bounds)

end
