(* ===== verification/Pipeline_Tuning.thy ===== *)
theory Pipeline_Tuning
  imports Pipeline_Data Policy
begin

text \<open>
  What the tuner sees of the multi-core server: the metrics that \<open>main.rs\<close> and the stages of
  \<open>stage.rs\<close> update, the snapshot of \<open>ners-metrics/src/lib.rs\<close> and the rules of
  \<open>analyzer.rs\<close> and \<open>policy.rs\<close> put together. The main thread counts every connection into the
  gauge of the parse queue and no executor counts one out, so what the rules take for the number
  of queued connections is the number of connections ever queued.
\<close>

section \<open>Connections queued in a run\<close>

text \<open>A step of the main thread that puts a connection into the parse queue.\<close>

definition queues_one :: "pipeline \<Rightarrow> pipeline \<Rightarrow> bool" where
  "queues_one p p' \<longleftrightarrow> p_main p \<noteq> MIdle \<and> p_main p' = MIdle
     \<and> ring_contents (p_queues p' 0) \<noteq> ring_contents (p_queues p 0)"

inductive queued_run :: "stage_env \<Rightarrow> pipeline \<Rightarrow> nat \<Rightarrow> pipeline \<Rightarrow> bool" for env p where
  no_step: "queued_run env p 0 p"
| one_step: "queued_run env p n q \<Longrightarrow> pipeline_step env q q' \<Longrightarrow>
    queued_run env p (if queues_one q q' then Suc n else n) q'"

lemma queued_run_steps: "queued_run env p n q \<Longrightarrow> (pipeline_step env)\<^sup>*\<^sup>* p q"
  by (induction rule: queued_run.induct) auto

lemma queued_run_exists: "(pipeline_step env)\<^sup>*\<^sup>* p q \<Longrightarrow> \<exists>n. queued_run env p n q"
  by (induction rule: rtranclp_induct) (blast intro: no_step one_step)+

section \<open>The gauges of all stages\<close>

text \<open>The gauge of the parse queue counts, those of the other stages stay zero.\<close>

definition gauges_count :: "nat \<Rightarrow> metrics_collector \<Rightarrow> bool" where
  "gauges_count n m \<longleftrightarrow>
     map (\<lambda>(k, s). (k, current_queue_len s)) (stages m)
       = map (\<lambda>k. (k, if k = lit ''parse'' then of_nat n else 0)) stage_ids"

lemma distinct_stage_ids: "distinct stage_ids"
  by (simp add: stage_ids_def lit_def)

lemma gauges_count_keys: "gauges_count n m \<Longrightarrow> map fst (stages m) = stage_ids"
proof -
  assume "gauges_count n m"
  then have "map fst (map (\<lambda>(k, s). (k, current_queue_len s)) (stages m)) = stage_ids"
    unfolding gauges_count_def by (simp add: comp_def)
  then show ?thesis by (simp add: comp_def split_def)
qed

lemma update_map:
  "distinct (map fst m) \<Longrightarrow> map_of m k = Some v \<Longrightarrow>
   AList.update k (f v) m = map (\<lambda>(k', v). (k', if k' = k then f v else v)) m"
proof (induction m)
  case (Cons a m)
  have "map (\<lambda>(k', v). (k', if k' = fst a then f v else v)) m = m"
    using Cons.prems by (intro map_idI) (auto simp: image_iff)
  with Cons show ?case by (cases a) (simp split: if_splits)
qed simp

lemma hm_modify_map:
  assumes "distinct (map fst m)"
  shows "hm_modify k f m = map (\<lambda>(k', v). (k', if k' = k then f v else v)) m"
proof (cases "map_of m k")
  case None
  then have "map (\<lambda>(k', v). (k', if k' = k then f v else v)) m = m"
    by (intro map_idI) (auto simp: map_of_eq_None_iff image_iff)
  with None show ?thesis by (simp add: hm_modify_def hm_get_def)
next
  case (Some v)
  with update_map [OF assms Some, of f] show ?thesis by (simp add: hm_modify_def hm_get_def hm_insert_def)
qed

lemma hm_map_mem: "(k, v) \<in> set (hm_map f m) \<longleftrightarrow> (\<exists>u. (k, u) \<in> set m \<and> v = f u)"
  by (force simp: hm_map_def)

lemma gauges_on_stage:
  assumes "gauges_count n m" and "\<And>s. current_queue_len (f s) = current_queue_len s"
  shows "gauges_count n (on_stage name f m)"
proof -
  have "distinct (map fst (stages m))" using gauges_count_keys [OF assms(1)] distinct_stage_ids by simp
  then have "map (\<lambda>(k, s). (k, current_queue_len s)) (stages (on_stage name f m))
      = map (\<lambda>(k, s). (k, current_queue_len s)) (stages m)"
    by (auto simp: on_stage_def hm_modify_map assms(2))
  with assms(1) show ?thesis by (simp add: gauges_count_def)
qed

lemma gauges_queued:
  assumes "gauges_count n m"
  shows "gauges_count (Suc n) (inc_queue_len (lit ''parse'') m)"
proof -
  have "distinct (map fst (stages m))" using gauges_count_keys [OF assms] distinct_stage_ids by simp
  then have "map (\<lambda>(k, s). (k, current_queue_len s)) (stages (inc_queue_len (lit ''parse'') m))
      = map (\<lambda>(k, l). (k, if k = lit ''parse'' then l + 1 else l)) (map (\<lambda>(k, s). (k, current_queue_len s)) (stages m))"
    by (auto simp: inc_queue_len_def on_stage_def hm_modify_map stage_inc_queue_len_def)
  with assms show ?thesis by (auto simp: gauges_count_def add.commute)
qed

lemma gauges_same [simp]:
  "gauges_count n (inc_total_requests m) = gauges_count n m" "gauges_count n (inc_total_conns m) = gauges_count n m"
  "gauges_count n (dec_total_conns m) = gauges_count n m"
  by (simp_all add: gauges_count_def inc_total_requests_def inc_total_conns_def dec_total_conns_def)

lemma gauges_errors [simp]: "gauges_count n m \<Longrightarrow> gauges_count n (on_stage name inc_errors m)"
  by (rule gauges_on_stage) (simp_all add: inc_errors_def)

lemma gauges_stage:
  assumes "stage_of env i cid slab m = ((slab', m'), r)" and "gauges_count n m"
  shows "gauges_count n m'"
proof -
  have rem: "remove_conn cid s1 m1 = ((slab', m'), r) \<Longrightarrow> m' = m1" for s1 m1
    by (auto simp: remove_conn_def split: prod.splits sum.splits)
  show ?thesis
    using assms
    by (auto simp: stage_of_def parse_one_def route_one_def app_one_def encode_one_def net_out_one_def Let_def
        dest!: rem split: if_splits option.splits sum.splits fault.splits parse_error.splits prod.splits)
qed

lemma gauges_step:
  assumes inv: "pipeline_inv c p" and step: "pipeline_step env p p'" and "gauges_count n (p_metrics p)"
  shows "gauges_count (if queues_one p p' then Suc n else n) (p_metrics p')"
  using step
proof cases
  case (queue_accepted cid q u)
  have "cid \<in> set (ids_at p AtMain)" using queue_accepted by simp
  from push_contents [OF pipeline_invD(4) [OF inv] live_index [OF inv pipeline_invD(7) [OF inv this]] queue_accepted(3)]
  have "queues_one p p'" using queue_accepted by (auto simp: queues_one_def)
  with queue_accepted gauges_queued [OF assms(3)] show ?thesis by simp
next
  case (drop_accepted cid q e)
  have "cid \<in> set (ids_at p AtMain)" using drop_accepted by simp
  from push_contents [OF pipeline_invD(4) [OF inv] live_index [OF inv pipeline_invD(7) [OF inv this]] drop_accepted(3)]
  have "\<not> queues_one p p'" using drop_accepted by (auto simp: queues_one_def)
  with drop_accepted assms(3) show ?thesis by simp
next
  case (process i cid slab' m' r)
  then have "\<not> queues_one p p'" by (simp add: queues_one_def)
  with process gauges_stage [OF process(4) assms(3)] show ?thesis by simp
qed (use assms(3) in \<open>auto simp: queues_one_def\<close>)

lemma gauges_new: "gauges_count 0 metrics_new"
  by (simp add: gauges_count_def metrics_new_def stage_ids_def hm_insert_def stage_metrics_new_def lit_def)

lemma gauges_run:
  assumes "queued_run env (pipeline_init scap qcap) n p" and "scap < 2 ^ 64" and "0 < qcap"
  shows "gauges_count n (p_metrics p)"
  using assms(1)
proof (induction rule: queued_run.induct)
  case no_step
  show ?case using gauges_new by (simp add: pipeline_init_def)
next
  case (one_step n q q')
  from pipeline_inv_reachable [OF queued_run_steps [OF one_step.hyps(1)] assms(2,3)]
  show ?case by (rule gauges_step [OF _ one_step.hyps(2) one_step.IH])
qed

section \<open>What the rules make of it\<close>

lemma total_queued_count:
  assumes "gauges_count n m" and order: "\<And>l. mset (order l) = mset l"
  shows "total_queued (collector_snapshot now order m) = n mod 2 ^ 64"
proof -
  let ?l = "hm_map stage_snapshot (stages m)"
  have "sum_list (map (current_queue_len \<circ> snd) (order ?l)) = sum_list (map (current_queue_len \<circ> snd) ?l)"
    using order [of ?l] by (metis mset_map sum_mset_sum_list)
  also have "\<dots> = sum_list (map snd (map (\<lambda>(k, s). (k, current_queue_len s)) (stages m)))"
    by (simp add: hm_map_def comp_def split_def stage_snapshot_def)
  also have "\<dots> = sum_list (map snd (map (\<lambda>k. (k, if k = lit ''parse'' then of_nat n else 0)) stage_ids))"
    using assms(1) by (simp only: gauges_count_def)
  also have "\<dots> = of_nat n" by (simp add: stage_ids_def lit_def)
  finally show ?thesis
    by (simp add: total_queued_def collector_snapshot_def unat_of_nat)
qed

lemma overflow_count:
  assumes "gauges_count n m" and order: "\<And>l. mset (order l) = mset l"
  shows "lit ''parse'' \<in> set (detect_queue_overflow (add_snapshot (collector_snapshot now order m) (analyzer_new rules_default)))
    \<longleftrightarrow> 500 < n mod 2 ^ 64"
proof -
  have set: "set (order l) = set l" for l using order [of l] by (rule mset_eq_setD)
  have "(\<exists>s. (lit ''parse'', s) \<in> set (stages m) \<and> 500 < current_queue_len s)
      \<longleftrightarrow> (\<exists>l. (lit ''parse'', l) \<in> set (map (\<lambda>(k, s). (k, current_queue_len s)) (stages m)) \<and> 500 < l)"
    by force
  also have "\<dots> \<longleftrightarrow> 500 < (of_nat n :: u64)"
    using assms(1) by (auto simp: gauges_count_def stage_ids_def lit_def)
  also have "\<dots> \<longleftrightarrow> 500 < n mod 2 ^ 64"
    by (simp add: word_less_nat_alt unat_of_nat)
  finally have *: "(\<exists>s. (lit ''parse'', s) \<in> set (stages m) \<and> 500 < current_queue_len s) \<longleftrightarrow> 500 < n mod 2 ^ 64" .
  have "queue_threshold (rules (analyzer_new rules_default)) = 500"
    by (simp add: analyzer_new_def rules_default_def)
  then have "lit ''parse'' \<in> set (detect_queue_overflow (add_snapshot (collector_snapshot now order m) (analyzer_new rules_default)))
    \<longleftrightarrow> (\<exists>u. (lit ''parse'', u) \<in> set (order (hm_map stage_snapshot (stages m))) \<and> 500 < current_queue_len u)"
    by (force simp: detect_queue_overflow_def collector_snapshot_def)
  also have "\<dots> \<longleftrightarrow> (\<exists>s. (lit ''parse'', s) \<in> set (stages m) \<and> 500 < current_queue_len s)"
    by (auto simp: set hm_map_mem stage_snapshot_def)
  finally show ?thesis unfolding * .
qed

text \<open>A request served from quiet to quiet leaves the gauge of the parse queue one higher.\<close>

lemma gauges_run_stages:
  "run_stages env i k cid slab m = ((slab', m'), r) \<Longrightarrow> gauges_count n m \<Longrightarrow> gauges_count n m'"
proof (induction k arbitrary: i cid slab m)
  case (Suc k)
  obtain slab1 m1 r1 where 1: "stage_of env i cid slab m = ((slab1, m1), r1)"
    by (cases "stage_of env i cid slab m") auto
  from Suc.prems(1) Suc.IH [OF _ gauges_stage [OF 1 Suc.prems(2)]] gauges_stage [OF 1 Suc.prems(2)] show ?case
    by (auto simp: 1 split: sum.splits option.splits)
qed simp

definition small_request :: "stage_env \<Rightarrow> tcp_stream" where
  "small_request env =
     \<lparr> rx = [ReadOk (request_head [71] [47] [49] [(lit ''Content-Length'', [0x32])] @ [104, 105])],
       tx = [WriteOk (length (to_bytes (header_order env) (response_for env [47])))], wire = [] \<rparr>"

lemma quiet_serves:
  assumes "quiet p" and "pipeline_inv c p" and "0 < vacant_count (p_slab p)" and "gauges_count n (p_metrics p)"
  shows "\<exists>p'. (pipeline_step env)\<^sup>*\<^sup>* p p' \<and> quiet p' \<and> pipeline_inv c p' \<and> 0 < vacant_count (p_slab p')
    \<and> gauges_count (Suc n) (p_metrics p')"
proof -
  let ?hs = "[(lit ''Content-Length'', [0x32])]"
  let ?s = "small_request env"
  have len: "length (request_head [71] [47] [49] ?hs) = 28"
    by (simp add: request_head_def request_lines_def header_line_def lit_def)
  have hs: "\<forall>h \<in> set ?hs. header_wf h" using length_header_wf by simp
  have av: "available (rx ?s) = request_head [71] [47] [49] ?hs @ [104, 105]" by (simp add: small_request_def)
  have tx: "tx ?s = WriteOk (length (to_bytes (header_order env) (response_for env [47]))) # []"
    by (simp add: small_request_def)
  have "valid_utf8 [104, 105]" "content_length (header_map ?hs) = length [104, 105 :: u8]"
    "length (request_head [71] [47] [49] ?hs @ [104, 105]) < 2 ^ 64"
    by (simp_all add: length_header_map len valid_utf8_ascii_Cons)
  from quiet_answers_core [where env = env and g = Map.empty, OF assms(1-3) av token_simple hs _ this tx]
  obtain cid p1 p2 slab0 slab4 m4 where
    2: "(tracked_step env)\<^sup>*\<^sup>* (p, Map.empty) (p1, [cid \<mapsto> ?s])" "tracked_step env (p1, [cid \<mapsto> ?s]) (p2, [cid \<mapsto> ?s])"
      "quiet p2" "pipeline_inv c p2" "vacant_count (p_slab p2) = vacant_count (p_slab p)"
      "run_stages env 0 4 cid slab0 (inc_queue_len (lit ''parse'') (inc_total_conns (p_metrics p)))
        = ((slab4, m4), Inr (Some cid))"
      "p_metrics p2 = dec_total_conns m4"
    by auto
  have "gauges_count (Suc n) (inc_queue_len (lit ''parse'') (inc_total_conns (p_metrics p)))"
    using assms(4) by (intro gauges_queued) simp
  from gauges_run_stages [OF 2(6) this] have "gauges_count (Suc n) (p_metrics p2)" by (simp add: 2(7))
  moreover have "(pipeline_step env)\<^sup>*\<^sup>* p p2"
    by (rule tracked_run [OF rtranclp.rtrancl_into_rtrancl [OF 2(1,2)]])
  ultimately show ?thesis using 2(3-5) assms(3) by auto
qed

lemma quiet_after:
  assumes "0 < scap" and "scap < 2 ^ 64" and "2 \<le> qcap"
  shows "\<exists>p. (pipeline_step env)\<^sup>*\<^sup>* (pipeline_init scap qcap) p \<and> quiet p \<and> pipeline_inv scap p
    \<and> 0 < vacant_count (p_slab p) \<and> gauges_count n (p_metrics p)"
proof (induction n)
  case 0
  have "pipeline_inv scap (pipeline_init scap qcap)" using assms by (intro pipeline_inv_init) simp_all
  moreover have "0 < vacant_count (p_slab (pipeline_init scap qcap))"
    using assms(1) by (simp add: pipeline_init_def slab_new_def vacant_count_def Let_def)
  moreover have "gauges_count 0 (p_metrics (pipeline_init scap qcap))"
    using gauges_new by (simp add: pipeline_init_def)
  ultimately show ?case using quiet_init [OF assms(3), of scap] by blast
next
  case (Suc n)
  then obtain p where p: "(pipeline_step env)\<^sup>*\<^sup>* (pipeline_init scap qcap) p" "quiet p" "pipeline_inv scap p"
    "0 < vacant_count (p_slab p)" "gauges_count n (p_metrics p)" by blast
  from quiet_serves [OF p(2-5), of env] p(1) show ?case by (meson rtranclp_trans)
qed

section \<open>Properties\<close>

text \<open>
  C11: The tuner takes the connections ever queued for the connections queued. In every run of the
  server in which the main thread has put \<open>n\<close> connections into the parse queue, whatever the
  executors have done with them since, the snapshot of the metrics shows \<open>n\<close> queued connections
  (modulo \<open>2 ^ 64\<close>), in any iteration order of its map: the parse queue is reported to overflow
  exactly when \<open>n\<close> is above 500, and the memory pressure is above the threshold of the
  conservative rules exactly when \<open>n\<close> is above 8000.
\<close>

theorem tuner_counts_ever_queued:
  assumes "queued_run env (pipeline_init slab_cap queue_cap) n p"
    and "slab_cap < 2 ^ 64" and "0 < queue_cap" and "\<And>l. mset (order l) = mset l"
  shows "total_queued (collector_snapshot now order (p_metrics p)) = n mod 2 ^ 64
    \<and> (lit ''parse'' \<in> set (detect_queue_overflow
          (add_snapshot (collector_snapshot now order (p_metrics p)) (analyzer_new rules_default)))
        \<longleftrightarrow> 500 < n mod 2 ^ 64)
    \<and> (fp_less (f64_lit (8 / 10)) (get_memory_pressure
          (add_snapshot (collector_snapshot now order (p_metrics p)) (analyzer_new rules_default)))
        \<longleftrightarrow> 8000 < n mod 2 ^ 64)"
proof -
  note gauges = gauges_run [OF assms(1-3)]
  have "n mod 2 ^ 64 < 2 ^ 64" by simp
  from pressure_conservative [OF this] overflow_count [OF gauges assms(4), of now] total_queued_count [OF gauges assms(4), of now]
  show ?thesis by (simp only: pressure_of_total)
qed

theorem tuner_counts_ever_queued_witness:
  "\<exists>n p. queued_run \<lparr> landing_page = [], header_order = id, unicode_lower = id \<rparr> (pipeline_init 1 2) n p
    \<and> p_execs p 0 = EHold (ConnId 0) \<and> total_queued (collector_snapshot 0 rev (p_metrics p)) = n mod 2 ^ 64"
proof -
  let ?env = "\<lparr> landing_page = [], header_order = id, unicode_lower = id \<rparr>"
  obtain p where p: "(pipeline_step ?env)\<^sup>*\<^sup>* (pipeline_init 1 2) p" "p_execs p 0 = EHold (ConnId 0)"
    using held_reachable by blast
  from queued_run_exists [OF p(1)] obtain n where n: "queued_run ?env (pipeline_init 1 2) n p" by blast
  have "total_queued (collector_snapshot 0 rev (p_metrics p)) = n mod 2 ^ 64"
    using tuner_counts_ever_queued [OF n, of rev 0] by simp
  with n p(2) show ?thesis by blast
qed

text \<open>
  An idle server can be under memory pressure. For every number \<open>n\<close> the server as \<open>main.rs\<close>
  configures it has a state in which all queues are empty, all threads idle and slots free, and
  whose snapshot shows \<open>n\<close> queued connections: it has served \<open>n\<close> requests, one after another.
\<close>

lemma quiet_server_false_alarm:
  "\<exists>p. (pipeline_step env)\<^sup>*\<^sup>* (pipeline_init 10000 4096) p \<and> quiet p \<and> 0 < vacant_count (p_slab p)
    \<and> total_queued (collector_snapshot now id (p_metrics p)) = n mod 2 ^ 64
    \<and> fp_less (f64_lit (8 / 10)) (get_memory_pressure
        (add_snapshot (collector_snapshot now id (p_metrics p)) (analyzer_new rules_default)))
      = (8000 < n mod 2 ^ 64)"
proof -
  have "\<exists>p. (pipeline_step env)\<^sup>*\<^sup>* (pipeline_init 10000 4096) p \<and> quiet p \<and> pipeline_inv 10000 p
    \<and> 0 < vacant_count (p_slab p) \<and> gauges_count n (p_metrics p)" by (rule quiet_after) simp_all
  then obtain p where p: "(pipeline_step env)\<^sup>*\<^sup>* (pipeline_init 10000 4096) p" "quiet p" "0 < vacant_count (p_slab p)"
    "gauges_count n (p_metrics p)" by blast
  have t: "total_queued (collector_snapshot now id (p_metrics p)) = n mod 2 ^ 64"
    using total_queued_count [OF p(4), of id now] by simp
  have "n mod 2 ^ 64 < 2 ^ 64" by simp
  from pressure_conservative [OF this] t p(1-3) show ?thesis
    by (intro exI [of _ p]) (simp only: pressure_of_total simp_thms)
qed

end
