(* ===== verification/Shutdown.thy ===== *)
theory Shutdown
  imports Executor Fair_Runs "HOL-Library.Product_Lexorder"
begin

text \<open>
  The end of the program: what \<open>main.rs\<close> does after its loop, \<open>Orchestrator::shutdown\<close> and
  \<open>Orchestrator::join\<close> of \<open>orchestrator.rs\<close>, \<open>StageExecutor::join\<close> and its \<open>Drop\<close> of
  \<open>executor.rs\<close>, call by call, while the executors still run.
\<close>

section \<open>The calls after the loop\<close>

text \<open>
  \<open>CShut i\<close>: the loop of \<open>shutdown\<close> is at executor \<open>i\<close>. \<open>CSignal i\<close>: \<open>join\<close> has drained executor
  \<open>i\<close> and calls its \<open>join\<close>, which first signals. \<open>CWait i\<close>: it waits for the thread. \<open>CDrop i\<close>: the
  executor is dropped, which signals once more.
\<close>

datatype closing_pc = CStart | CShut nat | CSignal nat | CWait nat | CDrop nat | CDone

record closing =
  c_sys :: system
  c_flag :: bool \<comment> \<open>the flag of the orchestrator\<close>
  c_pc :: closing_pc

definition is_shutdown :: "closing \<Rightarrow> bool" where
  "is_shutdown c = c_flag c"

text \<open>A thread has ended when it has left its loop or panicked; the error of \<open>handle.join()\<close> is ignored.\<close>

definition ended_thread :: "nat \<Rightarrow> system \<Rightarrow> bool" where
  "ended_thread i s \<longleftrightarrow> loop_pc (sys_loops s i) \<in> {LExited, LDead}"

text \<open>\<open>join\<close> takes the executor by value, so it drops it when it returns.\<close>

definition executor_drop :: "nat \<Rightarrow> system \<Rightarrow> system" where
  "executor_drop i s = executor_shutdown i s"

inductive executor_join :: "closing \<Rightarrow> closing \<Rightarrow> bool" where
  signal: "c_pc c = CSignal i \<Longrightarrow> i < stage_count \<Longrightarrow>
    executor_join c (c\<lparr>c_sys := executor_shutdown i (c_sys c), c_pc := CWait i\<rparr>)"
| joined: "c_pc c = CWait i \<Longrightarrow> ended_thread i (c_sys c) \<Longrightarrow> executor_join c (c\<lparr>c_pc := CDrop i\<rparr>)"
| dropped: "c_pc c = CDrop i \<Longrightarrow>
    executor_join c (c\<lparr>c_sys := executor_drop i (c_sys c), c_pc := CSignal (i + 1)\<rparr>)"

inductive orchestrator_closing :: "closing \<Rightarrow> closing \<Rightarrow> bool" where
  store_flag: "c_pc c = CStart \<Longrightarrow> orchestrator_closing c (c\<lparr>c_flag := True, c_pc := CShut 0\<rparr>)"
| shut: "c_pc c = CShut i \<Longrightarrow> i < stage_count \<Longrightarrow>
    orchestrator_closing c (c\<lparr>c_sys := executor_shutdown i (c_sys c), c_pc := CShut (i + 1)\<rparr>)"
| shut_all: "c_pc c = CShut i \<Longrightarrow> \<not> i < stage_count \<Longrightarrow> orchestrator_closing c (c\<lparr>c_pc := CSignal 0\<rparr>)"
| join_one: "executor_join c c' \<Longrightarrow> orchestrator_closing c c'"
| stopped: "c_pc c = CSignal i \<Longrightarrow> \<not> i < stage_count \<Longrightarrow> orchestrator_closing c (c\<lparr>c_pc := CDone\<rparr>)"

text \<open>The executors run on meanwhile. When \<open>main\<close> has returned nothing changes any more.\<close>

inductive closing_step :: "stage_env \<Rightarrow> closing \<Rightarrow> closing \<Rightarrow> bool" for env where
  main: "orchestrator_closing c c' \<Longrightarrow> closing_step env c c'"
| executor: "i < stage_count \<Longrightarrow> exec_step env i (c_sys c) s' \<Longrightarrow> closing_step env c (c\<lparr>c_sys := s'\<rparr>)"
| over: "c_pc c = CDone \<Longrightarrow> closing_step env c c"

inductive_cases executor_joinE: "executor_join c c'"
inductive_cases orchestrator_closingE: "orchestrator_closing c c'"
inductive_cases closing_stepE: "closing_step env c c'"

section \<open>The invariant\<close>

text \<open>How many executors \<open>join\<close> is through with.\<close>

fun joined_count :: "closing_pc \<Rightarrow> nat" where
  "joined_count (CSignal i) = i"
| "joined_count (CWait i) = i"
| "joined_count (CDrop i) = Suc i"
| "joined_count CDone = stage_count"
| "joined_count _ = 0"

definition closing_inv :: "usize \<Rightarrow> closing \<Rightarrow> bool" where
  "closing_inv cap c \<longleftrightarrow> system_ok cap (c_sys c) \<and> joined_count (c_pc c) \<le> stage_count
     \<and> (\<forall>i < joined_count (c_pc c). ended_thread i (c_sys c))
     \<and> (\<forall>i. c_pc c = CShut i \<longrightarrow> i \<le> stage_count)
     \<and> (\<forall>i. c_pc c = CWait i \<longrightarrow> i < stage_count \<and> shutdown_flag (sys_loops (c_sys c) i))"

lemma executor_shutdown_simps [simp]:
  "sys_pipe (executor_shutdown i s) = sys_pipe s"
  "loop_pc (sys_loops (executor_shutdown i s) j) = loop_pc (sys_loops s j)"
  "shutdown_flag (sys_loops (executor_shutdown i s) j) \<longleftrightarrow> j = i \<or> shutdown_flag (sys_loops s j)"
  "ended_thread j (executor_shutdown i s) = ended_thread j s"
  "left_of (executor_shutdown i s) j = left_of s j"
  by (simp_all add: executor_shutdown_def ended_thread_def left_of_def)

lemma executor_shutdown_ok [simp]: "system_ok cap (executor_shutdown i s) = system_ok cap s"
  by (simp add: system_ok_def)

text \<open>A thread that has ended makes no step; a step of another thread does not touch it.\<close>

lemma ended_no_step: "ended_thread i s \<Longrightarrow> \<not> exec_step env i s s'"
  by (auto simp: ended_thread_def elim!: exec_stepE)

lemma exec_step_others:
  assumes "system_ok cap s" and "exec_step env i s s'" and "j \<noteq> i"
  shows "loop_pc (sys_loops s' j) = loop_pc (sys_loops s j)" "p_execs (sys_pipe s') j = p_execs (sys_pipe s) j"
    "shutdown_flag (sys_loops s' j) = shutdown_flag (sys_loops s j)"
  using assms exec_step_loops [OF assms(2)] by (auto simp: system_ok_def)

lemma exec_step_changes:
  "exec_step env i s s' \<Longrightarrow> (loop_pc (sys_loops s' i), p_execs (sys_pipe s') i) \<noteq> (loop_pc (sys_loops s i), p_execs (sys_pipe s) i)"
  by (auto elim!: exec_stepE simp: after_one_def after_process_def split: exec_pc.splits sum.splits option.splits if_splits)

lemma closing_inv_step:
  assumes inv: "closing_inv cap c" and step: "closing_step env c c'"
  shows "closing_inv cap c'"
  using step
proof cases
  case main
  from main inv show ?thesis
    by cases (auto simp: closing_inv_def less_Suc_eq executor_drop_def elim!: executor_joinE)
next
  case (executor i s')
  have ok: "system_ok cap (c_sys c)" using inv by (simp add: closing_inv_def)
  have "ended_thread j s'" if "ended_thread j (c_sys c)" for j
    using that ended_no_step [of i "c_sys c"] executor(3) exec_step_others(1) [OF ok executor(3), of j]
    by (cases "j = i") (auto simp: ended_thread_def)
  moreover have "shutdown_flag (sys_loops s' j) = shutdown_flag (sys_loops (c_sys c) j)" for j
    using exec_step_flags [OF executor(3)] by blast
  moreover have "system_ok cap s'" using system_step_ok [OF ok system_step.executor [OF executor(2,3)]] by blast
  ultimately show ?thesis using inv executor(1) by (simp add: closing_inv_def)
qed (use inv in simp)

section \<open>The ranking\<close>

fun main_left_of :: "closing_pc \<Rightarrow> nat" where
  "main_left_of CStart = 25"
| "main_left_of (CShut i) = 24 - i"
| "main_left_of (CSignal i) = 18 - 3 * i"
| "main_left_of (CWait i) = 17 - 3 * i"
| "main_left_of (CDrop i) = 16 - 3 * i"
| "main_left_of CDone = 0"

definition closing_rank :: "closing \<Rightarrow> nat \<times> nat" where
  "closing_rank c = (main_left_of (c_pc c), case c_pc c of CWait i \<Rightarrow> left_of (c_sys c) i | _ \<Rightarrow> 0)"

definition closing_helper :: "closing \<Rightarrow> thread" where
  "closing_helper c = (case c_pc c of
     CWait i \<Rightarrow> if ended_thread i (c_sys c) then MainThread else ExecThread i | _ \<Rightarrow> MainThread)"

fun closing_ready :: "thread \<Rightarrow> closing \<Rightarrow> bool" where
  "closing_ready MainThread c \<longleftrightarrow> c_pc c \<noteq> CDone \<and> (\<forall>i. c_pc c = CWait i \<longrightarrow> ended_thread i (c_sys c))"
| "closing_ready (ExecThread i) c \<longleftrightarrow> i < stage_count \<and> \<not> ended_thread i (c_sys c)"

fun closing_moves :: "thread \<Rightarrow> closing \<Rightarrow> closing \<Rightarrow> bool" where
  "closing_moves MainThread c c' \<longleftrightarrow> c_pc c' \<noteq> c_pc c"
| "closing_moves (ExecThread i) c c' \<longleftrightarrow>
     (loop_pc (sys_loops (c_sys c') i), p_execs (sys_pipe (c_sys c')) i)
       \<noteq> (loop_pc (sys_loops (c_sys c) i), p_execs (sys_pipe (c_sys c)) i)"

lemma closing_can_move:
  assumes inv: "closing_inv cap c" and ready: "closing_ready t c"
  shows "\<exists>c'. closing_step env c c' \<and> closing_moves t c c'"
proof (cases t)
  case MainThread
  have "\<exists>c'. orchestrator_closing c c' \<and> c_pc c' \<noteq> c_pc c"
  proof (cases "c_pc c")
    case CStart then show ?thesis by (intro exI conjI, rule store_flag) simp_all
  next
    case (CShut i)
    show ?thesis
    proof (cases "i < stage_count")
      case True with CShut show ?thesis by (intro exI conjI, rule shut) simp_all
    next
      case False with CShut show ?thesis by (intro exI conjI, rule shut_all) simp_all
    qed
  next
    case (CSignal i)
    show ?thesis
    proof (cases "i < stage_count")
      case True with CSignal join_one [OF signal [of c i]] show ?thesis by fastforce
    next
      case False with CSignal show ?thesis by (intro exI conjI, rule stopped) simp_all
    qed
  next
    case (CWait i)
    then have "ended_thread i (c_sys c)" using ready MainThread by simp
    with CWait join_one [OF joined [of c i]] show ?thesis by fastforce
  next
    case (CDrop i) then show ?thesis using join_one [OF dropped [of c i]] by fastforce
  qed (use ready MainThread in simp)
  with MainThread show ?thesis using closing_step.main by fastforce
next
  case (ExecThread i)
  have ok: "system_ok cap (c_sys c)" using inv by (simp add: closing_inv_def)
  have i: "i < stage_count" "loop_pc (sys_loops (c_sys c) i) \<notin> {LExited, LDead}"
    using ready ExecThread by (simp_all add: ended_thread_def)
  from exec_progress [OF ok i(2), of env] obtain s' where s': "exec_step env i (c_sys c) s'" by blast
  from closing_step.executor [OF i(1) s'] exec_step_changes [OF s'] ExecThread show ?thesis
    by (intro exI [of _ "c\<lparr>c_sys := s'\<rparr>"]) simp
qed

lemma closing_progress:
  assumes inv: "closing_inv cap c" and wait: "c_pc c \<noteq> CDone" and step: "closing_step env c c'"
  shows "c_pc c' = CDone \<or> closing_rank c' < closing_rank c
    \<or> closing_rank c' = closing_rank c \<and> closing_helper c' = closing_helper c
      \<and> \<not> closing_moves (closing_helper c) c c'"
  using step
proof cases
  case main
  then have "c_pc c' = CDone \<or> main_left_of (c_pc c') < main_left_of (c_pc c)"
    using inv by cases (auto simp: closing_inv_def stage_count_def elim!: executor_joinE)
  then show ?thesis by (auto simp: closing_rank_def less_prod_def)
next
  case (executor j s')
  have ok: "system_ok cap (c_sys c)" using inv by (simp add: closing_inv_def)
  show ?thesis
  proof (cases "c_pc c")
    case (CWait i)
    show ?thesis
    proof (cases "j = i")
      case True
      have "shutdown_flag (sys_loops (c_sys c) i)" using inv CWait by (simp add: closing_inv_def)
      with exec_step_left [OF executor(3)] ok True have "left_of s' i < left_of (c_sys c) i"
        by (simp add: system_ok_def)
      with executor(1) CWait show ?thesis by (simp add: closing_rank_def less_prod_def)
    next
      case False
      note same = exec_step_others [OF ok executor(3) False [symmetric]]
      then have "left_of s' i = left_of (c_sys c) i" "ended_thread i s' = ended_thread i (c_sys c)"
        by (simp_all add: left_of_def ended_thread_def)
      with same executor(1) CWait show ?thesis by (auto simp: closing_rank_def closing_helper_def)
    qed
  qed (use executor(1) in \<open>simp_all add: closing_rank_def closing_helper_def\<close>)
qed (use wait in simp)

interpretation closing: live_goal "closing_step env" "closing_inv cap" "\<lambda>c. c_pc c \<noteq> CDone"
  "\<lambda>c c'. c_pc c' = CDone" closing_rank closing_helper closing_ready closing_moves for env cap
proof unfold_locales
  fix c :: closing
  assume "closing_inv cap c" "c_pc c \<noteq> CDone"
  then show "closing_ready (closing_helper c) c"
    by (cases "c_pc c") (auto simp: closing_helper_def closing_inv_def)
next
  fix c c' :: closing
  assume "closing_inv cap c" "c_pc c \<noteq> CDone" "closing_step env c c'"
  then show "c_pc c' = CDone \<or> c_pc c' \<noteq> CDone \<and> (closing_rank c' < closing_rank c
      \<or> closing_rank c' = closing_rank c \<and> closing_helper c' = closing_helper c
        \<and> \<not> closing_moves (closing_helper c) c c')"
    using closing_progress by blast
next
  fix c t assume "closing_inv cap c" "closing_ready t c"
  then show "\<exists>c'. closing_step env c c' \<and> closing_moves t c c'" by (rule closing_can_move)
next
  fix c c' assume "closing_inv cap c" "closing_step env c c'"
  then show "closing_inv cap c'" by (rule closing_inv_step)
qed

section \<open>Fair runs\<close>

text \<open>\<open>main\<close> calls \<open>shutdown\<close> and then \<open>join\<close>; \<open>join\<close> alone starts at \<open>CSignal 0\<close>.\<close>

definition fair_closing :: "stage_env \<Rightarrow> system \<Rightarrow> closing run \<Rightarrow> bool" where
  "fair_closing env s r \<longleftrightarrow> c_sys (r 0) = s \<and> c_pc (r 0) \<in> {CStart, CSignal 0}
     \<and> is_run (closing_step env) r \<and> (\<forall>t. fair_to (closing_ready t) (closing_moves t) r)"

lemma closing_inv_start: "system_ok cap (c_sys c) \<Longrightarrow> c_pc c \<in> {CStart, CSignal 0} \<Longrightarrow> closing_inv cap c"
  by (auto simp: closing_inv_def)

lemma closing_inv_run:
  assumes "closing_inv cap (r 0)" and "is_run (closing_step env) r"
  shows "closing_inv cap (r n)"
  using assms by (induction n) (auto simp: is_run_def intro: closing_inv_step)

lemma closing_step_pipe:
  assumes inv: "closing_inv cap c" and step: "closing_step env c c'"
  shows "(pipeline_step env)\<^sup>*\<^sup>* (sys_pipe (c_sys c)) (sys_pipe (c_sys c'))"
  using step
proof cases
  case main
  then have "sys_pipe (c_sys c') = sys_pipe (c_sys c)"
    by cases (auto simp: executor_drop_def elim!: executor_joinE)
  then show ?thesis by simp
next
  case (executor i s')
  have "loop_ok (loop_pc (sys_loops (c_sys c) i)) (p_execs (sys_pipe (c_sys c)) i)"
    using inv by (simp add: closing_inv_def system_ok_def)
  from exec_step_pipeline [OF executor(2,3) this] executor(1) show ?thesis by auto
qed simp

lemma closing_run_pipe:
  assumes "closing_inv cap (r 0)" and "is_run (closing_step env) r"
  shows "(pipeline_step env)\<^sup>*\<^sup>* (sys_pipe (c_sys (r 0))) (sys_pipe (c_sys (r n)))"
proof (induction n)
  case (Suc n)
  have "closing_step env (r n) (r (Suc n))" using assms(2) by (simp add: is_run_def)
  from closing_step_pipe [OF closing_inv_run [OF assms] this] Suc show ?case by simp
qed simp

text \<open>From every state there is such a run.\<close>

lemma fair_closing_exists:
  assumes ok: "system_ok cap s"
  shows "\<exists>r. fair_closing env s r"
proof -
  let ?c = "\<lparr> c_sys = s, c_flag = False, c_pc = CStart \<rparr>"
  have inv: "closing_inv cap ?c" using ok by (intro closing_inv_start) simp_all
  from closing.goal_within_reach [OF inv, of env] obtain k c1 c2 where
    c: "(closing_step env ^^ k) ?c c1" "closing_step env c1 c2" "c_pc c2 = CDone" by auto
  from c(1,2) have to: "(closing_step env ^^ Suc k) ?c c2" by auto
  have "\<exists>r. is_run (closing_step env) r \<and> r 0 = ?c \<and> r 0 = ?c \<and> (\<forall>n \<ge> 0. \<exists>i. (closing_step env ^^ i) ?c (r n))
      \<and> (\<forall>n \<ge> 0 + Suc k. r n = c2)"
    by (rule run_then_rest [OF _ to _ over]) (simp_all add: c(3))
  then obtain r where r: "is_run (closing_step env) r" "r 0 = ?c" "\<forall>n \<ge> Suc k. r n = c2" by auto
  have "closing_inv cap c2" using closing_inv_run [of cap r env "Suc k"] r inv by simp
  then have idle: "\<not> closing_ready t c2" for t
    using c(3) by (cases t) (auto simp: closing_inv_def)
  have "fair_to (closing_ready t) (closing_moves t) r" for t
    unfolding fair_to_def
  proof
    fix n
    have "r (max n (Suc k)) = c2" using r(3) by simp
    with idle show "\<exists>m \<ge> n. \<not> closing_ready t (r m) \<or> closing_moves t (r m) (r (Suc m))"
      by (intro exI [of _ "max n (Suc k)"]) simp
  qed
  with r(1,2) have "fair_closing env s r" by (simp add: fair_closing_def)
  then show ?thesis by blast
qed

section \<open>Properties\<close>

text \<open>
  C18: The server can be stopped. Whenever \<open>shutdown\<close> and then \<open>join\<close>, or \<open>join\<close> alone, are called
  in a reachable state, under any scheduler that is fair to the main thread and the executors \<open>join\<close>
  returns. Then every executor has left its loop or panicked, none of them in the middle of a
  connection, and the shared data is in a state that the pipeline reaches, with what is still in
  the queues left there.
\<close>

theorem join_returns:
  assumes "(system_step env)\<^sup>*\<^sup>* (system_init scap qcap) s" and "scap < 2 ^ 64" and "0 < qcap"
    and "fair_closing env s r"
  shows "\<exists>m. c_pc (r m) = CDone
    \<and> (\<forall>i < stage_count. ended_thread i (c_sys (r m)) \<and> exec_ids (p_execs (sys_pipe (c_sys (r m))) i) = [])
    \<and> (pipeline_step env)\<^sup>*\<^sup>* (pipeline_init scap qcap) (sys_pipe (c_sys (r m)))"
proof -
  have r: "c_sys (r 0) = s" "c_pc (r 0) \<in> {CStart, CSignal 0}" "is_run (closing_step env) r"
    and fair: "\<And>t. fair_to (closing_ready t) (closing_moves t) r"
    using assms(4) by (simp_all add: fair_closing_def)
  note sys = system_reachable [OF assms(1-3)]
  have inv0: "closing_inv scap (r 0)" using sys r by (intro closing_inv_start) auto
  note inv = closing_inv_run [OF inv0 r(3)]
  have "c_pc (r 0) \<noteq> CDone" using r(2) by auto
  from closing.fair_reaches [OF r(3) fair inv this] obtain m where m: "c_pc (r (Suc m)) = CDone" by blast
  have "ended_thread i (c_sys (r (Suc m))) \<and> exec_ids (p_execs (sys_pipe (c_sys (r (Suc m)))) i) = []"
    if "i < stage_count" for i
  proof -
    have e: "ended_thread i (c_sys (r (Suc m)))" using inv [of "Suc m"] m that by (simp add: closing_inv_def)
    moreover have "loop_ok (loop_pc (sys_loops (c_sys (r (Suc m))) i)) (p_execs (sys_pipe (c_sys (r (Suc m)))) i)"
      using inv [of "Suc m"] by (simp add: closing_inv_def system_ok_def)
    ultimately show ?thesis by (auto simp: ended_thread_def loop_ok_def)
  qed
  moreover have "(pipeline_step env)\<^sup>*\<^sup>* (pipeline_init scap qcap) (sys_pipe (c_sys (r (Suc m))))"
    using sys closing_run_pipe [OF inv0 r(3), of "Suc m"] r(1) by auto
  ultimately show ?thesis using m by blast
qed

theorem join_returns_witness:
  "\<exists>r m. fair_closing \<lparr> landing_page = [], header_order = id, unicode_lower = id \<rparr> (system_init 1 2) r \<and> c_pc (r m) = CDone"
proof -
  let ?env = "\<lparr> landing_page = [], header_order = id, unicode_lower = id \<rparr>"
  have "system_ok 1 (system_init 1 2)" by (rule system_ok_init) simp_all
  from fair_closing_exists [OF this] obtain r where r: "fair_closing ?env (system_init 1 2) r" by blast
  from join_returns [OF rtranclp.rtrancl_refl _ _ r] r show ?thesis by auto
qed

end
