(* ===== verification/Sharded_Slab.thy ===== *)
theory Sharded_Slab
  imports Conn_Slab
begin

text \<open>
  The sharded slab: \<open>ners-core/src/slab/sharded.rs\<close> and \<open>slab/numa.rs\<close>. One slab shard per core,
  each with its own slots, free list and counter, and a manager that finds the shard by core.
  A shard seen without its counter is a \<open>ConnSlab\<close>; the lemmas prove that every call does to it
  what the call of \<open>ConnSlab\<close> does, so that the shard is a slot store for the same reasons.
\<close>

section \<open>The NUMA topology\<close>

record numa_info =
  num_nodes :: usize
  cores_per_node :: usize
  total_cores :: usize
  core_to_node :: "usize list"

text \<open>
  \<open>entries\<close> are the names the directory of nodes lists, \<open>None\<close> when it cannot be read. The
  division by \<open>cores_per_node\<close> panics when there are more nodes than cores.
\<close>

definition detect_linux :: "str list option \<Rightarrow> usize \<Rightarrow> (unit, numa_info) result" where
  "detect_linux entries cores =
     (let nodes = max 1 (case entries of
            None \<Rightarrow> 1
          | Some names \<Rightarrow> length (filter (\<lambda>name. take 4 name = lit ''node'') names));
          per_node = cores div nodes
      in if per_node = 0 \<and> 0 < cores then Inl Panic
         else Inr \<lparr> num_nodes = nodes, cores_per_node = per_node, total_cores = cores,
                    core_to_node = map (\<lambda>core. core div per_node) [0..<cores] \<rparr>)"

text \<open>
  \<open>linux\<close> is the build's operating system and \<open>parallelism\<close> the answer of
  \<open>available_parallelism\<close>.
\<close>

definition numa_detect :: "bool \<Rightarrow> (unit + usize) \<Rightarrow> str list option \<Rightarrow> (unit, numa_info) result" where
  "numa_detect linux parallelism entries =
     (let cores = (case parallelism of Inr n \<Rightarrow> n | Inl _ \<Rightarrow> 1)
      in if linux then detect_linux entries cores
         else Inr \<lparr> num_nodes = 1, cores_per_node = cores, total_cores = cores,
                    core_to_node = replicate cores 0 \<rparr>)"

definition node_for_core :: "numa_info \<Rightarrow> usize \<Rightarrow> usize" where
  "node_for_core info core_id =
     (if core_id < length (core_to_node info) then core_to_node info ! core_id else 0)"

definition cores_in_node :: "numa_info \<Rightarrow> usize \<Rightarrow> usize list" where
  "cores_in_node info node =
     map fst (filter (\<lambda>(_, n). n = node) (List.enumerate 0 (core_to_node info)))"

lemma set_cores_in_node:
  "set (cores_in_node info node) = {i. i < length (core_to_node info) \<and> core_to_node info ! i = node}"
  unfolding cores_in_node_def enumerate_eq_zip by (force simp: set_zip)

definition same_node :: "numa_info \<Rightarrow> usize \<Rightarrow> usize \<Rightarrow> bool" where
  "same_node info core_a core_b = (node_for_core info core_a = node_for_core info core_b)"

section \<open>A shard\<close>

record slab_shard =
  core_id :: usize
  numa_node :: usize
  sh_slots :: "conn_state option list"
  sh_free :: "usize list" \<comment> \<open>a stack whose top is the last element\<close>
  allocated :: usize
  sh_capacity :: usize

definition shard_new :: "usize \<Rightarrow> usize \<Rightarrow> usize \<Rightarrow> slab_shard" where
  "shard_new core node cap =
     \<lparr> core_id = core, numa_node = node, sh_slots = map (\<lambda>_. None) [0..<cap], sh_free = rev [0..<cap],
       allocated = 0, sh_capacity = cap \<rparr>"

definition shard_allocate :: "slab_shard \<Rightarrow> slab_shard \<times> usize option" where
  "shard_allocate sh =
     (if sh_free sh = [] then (sh, None)
      else (sh\<lparr>sh_free := butlast (sh_free sh), allocated := usize_add (allocated sh) 1\<rparr>,
            Some (last (sh_free sh))))"

definition shard_deallocate :: "slab_shard \<Rightarrow> usize \<Rightarrow> slab_shard \<times> (unit, unit) result" where
  "shard_deallocate sh slot_idx =
     (if slot_idx < sh_capacity sh then
        if slot_idx < length (sh_slots sh)
        then (sh\<lparr>sh_slots := (sh_slots sh)[slot_idx := None], sh_free := sh_free sh @ [slot_idx],
                 allocated := usize_sub (allocated sh) 1\<rparr>, Inr ())
        else (sh, Inl Panic)
      else (sh, Inr ()))"

definition shard_insert :: "slab_shard \<Rightarrow> usize \<Rightarrow> conn_state \<Rightarrow> slab_shard \<times> (unit, bool) result" where
  "shard_insert sh slot_idx conn =
     (if slot_idx < sh_capacity sh then
        if slot_idx < length (sh_slots sh)
        then (sh\<lparr>sh_slots := (sh_slots sh)[slot_idx := Some conn]\<rparr>, Inr True)
        else (sh, Inl Panic)
      else (sh, Inr False))"

definition shard_get :: "slab_shard \<Rightarrow> usize \<Rightarrow> conn_state option" where
  "shard_get sh slot_idx = (if slot_idx < length (sh_slots sh) then sh_slots sh ! slot_idx else None)"

definition shard_len :: "slab_shard \<Rightarrow> usize" where
  "shard_len sh = allocated sh"

definition shard_is_empty :: "slab_shard \<Rightarrow> bool" where
  "shard_is_empty sh = (shard_len sh = 0)"

section \<open>The manager\<close>

record slab_manager =
  shards :: "slab_shard list"
  num_shards :: usize
  numa :: numa_info
  capacity_per_shard :: usize

definition manager_new :: "numa_info \<Rightarrow> usize \<Rightarrow> usize \<Rightarrow> slab_manager" where
  "manager_new info n cap =
     \<lparr> shards = map (\<lambda>core. shard_new core (node_for_core info core) cap) [0..<n],
       num_shards = n, numa = info, capacity_per_shard = cap \<rparr>"

definition manager_default :: "numa_info \<Rightarrow> (unit + usize) \<Rightarrow> slab_manager" where
  "manager_default info parallelism =
     manager_new info (case parallelism of Inr n \<Rightarrow> n | Inl _ \<Rightarrow> 4) 1000"

text \<open>\<open>shard.insert(slot_idx, conn)\<close>: its result is not looked at.\<close>

definition shard_store :: "slab_shard \<Rightarrow> conn_state \<Rightarrow> slab_shard \<times> (unit, usize option) result" where
  "shard_store sh conn =
     (case shard_allocate sh of
        (sh', None) \<Rightarrow> (sh', Inr None)
      | (sh', Some slot_idx) \<Rightarrow>
          (case shard_insert sh' slot_idx conn of
             (sh'', Inl e) \<Rightarrow> (sh'', Inl e)
           | (sh'', Inr _) \<Rightarrow> (sh'', Inr (Some slot_idx))))"

definition manager_allocate ::
    "slab_manager \<Rightarrow> usize \<Rightarrow> conn_state \<Rightarrow> slab_manager \<times> (unit, (usize \<times> usize) option) result" where
  "manager_allocate mgr core conn =
     (if core < length (shards mgr) then
        (case shard_store (shards mgr ! core) conn of
           (sh, r) \<Rightarrow> (mgr\<lparr>shards := (shards mgr)[core := sh]\<rparr>, map_sum id (map_option (Pair core)) r))
      else (mgr, Inr None))"

definition manager_deallocate :: "slab_manager \<Rightarrow> usize \<Rightarrow> usize \<Rightarrow> slab_manager \<times> (unit, unit) result" where
  "manager_deallocate mgr core slot_idx =
     (if core < length (shards mgr) then
        (case shard_deallocate (shards mgr ! core) slot_idx of
           (sh, r) \<Rightarrow> (mgr\<lparr>shards := (shards mgr)[core := sh]\<rparr>, r))
      else (mgr, Inr ()))"

definition manager_get :: "slab_manager \<Rightarrow> usize \<Rightarrow> usize \<Rightarrow> conn_state option" where
  "manager_get mgr core slot_idx =
     (if core < length (shards mgr) then shard_get (shards mgr ! core) slot_idx else None)"

definition total_allocated :: "slab_manager \<Rightarrow> usize" where
  "total_allocated mgr = fold (\<lambda>sh n. usize_add n (shard_len sh)) (shards mgr) 0"

text \<open>\<open>min_by_key\<close>: the first of the least elements.\<close>

fun min_by_key :: "('a \<Rightarrow> 'k :: linorder) \<Rightarrow> 'a list \<Rightarrow> 'a option" where
  "min_by_key key [] = None"
| "min_by_key key (x # xs) =
     (case min_by_key key xs of
        None \<Rightarrow> Some x
      | Some y \<Rightarrow> if key y < key x then Some y else Some x)"

definition least_loaded_core :: "slab_manager \<Rightarrow> usize" where
  "least_loaded_core mgr =
     (case min_by_key (\<lambda>(_, sh). shard_len sh) (List.enumerate 0 (shards mgr)) of
        None \<Rightarrow> 0
      | Some (core, _) \<Rightarrow> core)"

definition least_loaded_core_on_node :: "slab_manager \<Rightarrow> usize \<Rightarrow> usize option" where
  "least_loaded_core_on_node mgr node =
     map_option fst (min_by_key (\<lambda>(_, sh). shard_len sh)
       (filter (\<lambda>(_, sh). numa_node sh = node) (List.enumerate 0 (shards mgr))))"

section \<open>A shard as a slab\<close>

definition shard_view :: "slab_shard \<Rightarrow> conn_slab" where
  "shard_view sh = \<lparr> slots = sh_slots sh, free_list = sh_free sh, slab_capacity = sh_capacity sh \<rparr>"

lemma shard_view_new: "shard_view (shard_new core node cap) = slab_new cap"
  by (simp add: shard_view_def shard_new_def slab_new_def Let_def rev_map map_replicate_trivial map_replicate_const)

lemma shard_get_view: "shard_get sh i = slab_get (shard_view sh) (ConnId i)"
  by (simp add: shard_get_def slab_get_def shard_view_def)

text \<open>Every call does to the view what the corresponding call of \<open>ConnSlab\<close> does.\<close>

lemma shard_deallocate_view:
  "slab_remove (shard_view sh) (ConnId i) = map_prod shard_view id (shard_deallocate sh i)"
  by (simp add: slab_remove_def shard_deallocate_def shard_view_def)

lemma shard_store_view:
  assumes "length (sh_slots sh) = sh_capacity sh" and "\<forall>i \<in> set (sh_free sh). i < sh_capacity sh"
  shows "slab_insert (shard_view sh) conn
    = map_prod shard_view (map_sum id (map_option ConnId)) (shard_store sh conn)"
proof (cases "sh_free sh = []")
  case True
  then show ?thesis by (simp add: slab_insert_def shard_store_def shard_allocate_def shard_view_def)
next
  case False
  then have "last (sh_free sh) < sh_capacity sh" using assms(2) last_in_set by blast
  with False assms(1) show ?thesis
    by (simp add: slab_insert_def shard_store_def shard_allocate_def shard_insert_def shard_view_def Let_def)
qed

text \<open>A well-formed shard: its view is, and its counter counts the slots not free.\<close>

definition shard_wf :: "slab_shard \<Rightarrow> bool" where
  "shard_wf sh \<longleftrightarrow> slab_wf (shard_view sh) \<and> sh_capacity sh < 2 ^ 64
     \<and> allocated sh + length (sh_free sh) = sh_capacity sh"

lemma shard_wf_new: "cap < 2 ^ 64 \<Longrightarrow> shard_wf (shard_new core node cap)"
  by (simp add: shard_wf_def shard_view_new slab_wf_new) (simp add: shard_new_def)

lemma shard_wf_view:
  assumes "shard_wf sh"
  shows "length (sh_slots sh) = sh_capacity sh" "\<forall>i \<in> set (sh_free sh). i < sh_capacity sh"
  using assms by (auto simp: shard_wf_def slab_wf_def shard_view_def)

lemma shard_store_counts:
  assumes "shard_store sh conn = (sh', Inr (Some i))" and "shard_wf sh"
  shows "allocated sh' = allocated sh + 1 \<and> length (sh_free sh') = length (sh_free sh) - 1
    \<and> sh_free sh \<noteq> [] \<and> sh_capacity sh' = sh_capacity sh"
proof -
  have ne: "sh_free sh \<noteq> []"
    using assms(1) by (auto simp: shard_store_def shard_allocate_def)
  then have "allocated sh + 1 < 2 ^ 64" using assms(2) unfolding shard_wf_def
    by (cases "sh_free sh") auto
  with ne assms(1) show ?thesis
    by (auto simp: shard_store_def shard_allocate_def shard_insert_def usize_add_exact
        split: if_splits prod.splits)
qed

interpretation sh: slot_store shard_store shard_get shard_deallocate "\<lambda>sh. length (sh_free sh)" shard_wf
proof
  fix s v
  assume wf: "shard_wf s" and vac: "0 < length (sh_free s)"
  have view: "slab_wf (shard_view s)" "0 < vacant_count (shard_view s)"
    using wf vac by (simp_all add: shard_wf_def vacant_count_def shard_view_def)
  obtain s' r where st: "shard_store s v = (s', r)" by (cases "shard_store s v")
  from shard_store_view [OF shard_wf_view [OF wf], of v] cs.insert_fresh [OF view, of v] st
  obtain i where i: "r = Inr (Some i)" and laws: "slab_get (shard_view s) (ConnId i) = None"
    "slab_wf (shard_view s')" "\<forall>j. slab_get (shard_view s') j = (if j = ConnId i then Some v else slab_get (shard_view s) j)"
    by (cases r) auto
  with shard_store_counts [of s v s' i] st wf have n: "allocated s' = allocated s + 1"
    "length (sh_free s') = length (sh_free s) - 1" "sh_free s \<noteq> []" "sh_capacity s' = sh_capacity s" by auto
  with wf laws(2) have "shard_wf s'" by (cases "sh_free s") (auto simp: shard_wf_def)
  with st i laws n show "\<exists>s' k. shard_store s v = (s', Inr (Some k)) \<and> shard_get s k = None \<and> shard_wf s'
      \<and> length (sh_free s') = length (sh_free s) - 1
      \<and> (\<forall>j. shard_get s' j = (if j = k then Some v else shard_get s j))"
    by (intro exI [of _ s'] exI [of _ i]) (simp add: shard_get_view)
next
  fix s v
  assume "shard_wf s" and "length (sh_free s) = 0"
  then show "shard_store s v = (s, Inr None)" by (simp add: shard_store_def shard_allocate_def)
next
  fix s k v
  assume wf: "shard_wf s" and live: "shard_get s k = Some v"
  then have view: "slab_wf (shard_view s)" "slab_get (shard_view s) (ConnId k) = Some v"
    by (simp_all add: shard_wf_def shard_get_view)
  obtain s' r where d: "shard_deallocate s k = (s', r)" by (cases "shard_deallocate s k")
  from cs.remove_live [OF view] shard_deallocate_view [of s k] d
  have r: "r = Inr ()" "slab_wf (shard_view s')" "vacant_count (shard_view s') = vacant_count (shard_view s) + 1"
    "\<forall>j. slab_get (shard_view s') j = (if j = ConnId k then None else slab_get (shard_view s) j)" by auto
  have k: "k < sh_capacity s" "sh_slots s ! k \<noteq> None" "length (sh_slots s) = sh_capacity s"
    using wf live by (auto simp: shard_get_def shard_wf_def slab_wf_def shard_view_def split: if_splits)
  have free: "set (sh_free s) = {i. i < sh_capacity s \<and> sh_slots s ! i = None}" "distinct (sh_free s)"
    using wf by (simp_all add: shard_wf_def slab_wf_def shard_view_def)
  have "set (sh_free s) \<subseteq> {0..<sh_capacity s} - {k}" unfolding free(1) using k(2) by auto
  then have "card (set (sh_free s)) \<le> card ({0..<sh_capacity s} - {k})" by (intro card_mono) simp_all
  then have "length (sh_free s) \<le> sh_capacity s - 1" using k(1) free(2) by (simp add: distinct_card)
  then have "0 < allocated s" using wf k(1) unfolding shard_wf_def by linarith
  moreover have "allocated s < 2 ^ 64" using wf unfolding shard_wf_def by linarith
  ultimately have "usize_sub (allocated s) 1 = allocated s - 1" by (simp add: usize_sub_exact)
  with d k have c: "sh_capacity s' = sh_capacity s" "allocated s' = allocated s - 1"
    "length (sh_free s') = length (sh_free s) + 1"
    by (auto simp: shard_deallocate_def)
  with wf r(2) \<open>0 < allocated s\<close> have "shard_wf s'" by (simp add: shard_wf_def)
  with d r c show "\<exists>s'. shard_deallocate s k = (s', Inr ()) \<and> shard_wf s'
      \<and> length (sh_free s') = length (sh_free s) + 1
      \<and> (\<forall>j. shard_get s' j = (if j = k then None else shard_get s j))"
    by (intro exI [of _ s']) (simp add: shard_get_view)
qed

section \<open>The least loaded shard\<close>

lemma min_by_key_None [simp]: "min_by_key key xs = None \<longleftrightarrow> xs = []"
  by (cases xs) (auto split: option.splits)

text \<open>The first least element: nothing is less, and everything before it is greater.\<close>

lemma min_by_key_first:
  "min_by_key key xs = Some x \<Longrightarrow> \<exists>ys zs. xs = ys @ x # zs \<and> (\<forall>y \<in> set ys. key x < key y)
     \<and> (\<forall>z \<in> set zs. key x \<le> key z)"
proof (induction xs arbitrary: x)
  case (Cons a xs)
  show ?case
  proof (cases "min_by_key key xs")
    case None
    with Cons.prems show ?thesis by (intro exI [of _ "[]"]) auto
  next
    case (Some y)
    from Cons.IH [OF this] obtain ys zs where
      y: "xs = ys @ y # zs" "\<forall>v \<in> set ys. key y < key v" "\<forall>v \<in> set zs. key y \<le> key v" by blast
    show ?thesis
    proof (cases "key y < key a")
      case True
      with Cons.prems Some have "x = y" by simp
      with y True show ?thesis by (intro exI [of _ "a # ys"] exI [of _ zs]) auto
    next
      case False
      with Cons.prems Some have x: "x = a" by simp
      have "\<forall>v \<in> set xs. key a \<le> key v" using y False by fastforce
      with x show ?thesis by (intro exI [of _ "[]"] exI [of _ xs]) simp
    qed
  qed
qed simp

lemma least_loaded_core_min:
  assumes "shards mgr \<noteq> []"
  shows "least_loaded_core mgr < length (shards mgr)"
    and "\<forall>sh \<in> set (shards mgr). shard_len (shards mgr ! least_loaded_core mgr) \<le> shard_len sh"
proof -
  let ?e = "List.enumerate 0 (shards mgr)"
  obtain i sh where m: "min_by_key (\<lambda>(_, sh). shard_len sh) ?e = Some (i, sh)"
    using assms by (cases "min_by_key (\<lambda>(_, sh). shard_len sh) ?e") (auto simp: enumerate_eq_zip)
  from min_by_key_first [OF this] obtain ys zs where
    e: "?e = ys @ (i, sh) # zs" "\<forall>y \<in> set ys. shard_len sh < shard_len (snd y)"
      "\<forall>z \<in> set zs. shard_len sh \<le> shard_len (snd z)" by (auto simp: split_def)
  then have "(i, sh) \<in> set ?e" by simp
  then have i: "i < length (shards mgr)" "shards mgr ! i = sh"
    by (auto simp: enumerate_eq_zip in_set_zip)
  have "\<forall>p \<in> set ?e. shard_len sh \<le> shard_len (snd p)" using e by fastforce
  then have "\<forall>s \<in> set (map snd ?e). shard_len sh \<le> shard_len s" unfolding set_map by blast
  then have "\<forall>s \<in> set (shards mgr). shard_len sh \<le> shard_len s" unfolding map_snd_enumerate .
  with m i show "least_loaded_core mgr < length (shards mgr)"
    "\<forall>sh \<in> set (shards mgr). shard_len (shards mgr ! least_loaded_core mgr) \<le> shard_len sh"
    by (simp_all add: least_loaded_core_def)
qed

section \<open>Load balancing\<close>

text \<open>
  What a client that balances the load does: allocate on the least loaded core. With shards of
  one capacity this is one big slot store, whose identifiers are pairs of core and slot.
\<close>

definition balanced_allocate ::
    "slab_manager \<Rightarrow> conn_state \<Rightarrow> slab_manager \<times> (unit, (usize \<times> usize) option) result" where
  "balanced_allocate mgr conn = manager_allocate mgr (least_loaded_core mgr) conn"

definition manager_vacant :: "slab_manager \<Rightarrow> nat" where
  "manager_vacant mgr = sum_list (map (length \<circ> sh_free) (shards mgr))"

definition manager_wf :: "usize \<Rightarrow> slab_manager \<Rightarrow> bool" where
  "manager_wf cap mgr \<longleftrightarrow> (\<forall>sh \<in> set (shards mgr). shard_wf sh \<and> sh_capacity sh = cap)"

lemma manager_wf_new: "cap < 2 ^ 64 \<Longrightarrow> manager_wf cap (manager_new info n cap)"
  by (auto simp: manager_wf_def manager_new_def shard_wf_new) (simp add: shard_new_def)

lemma sum_list_update_nat:
  "i < length xs \<Longrightarrow> sum_list (map f (xs[i := x])) + f (xs ! i) = sum_list (map f xs) + (f x :: nat)"
  by (induction xs arbitrary: i) (auto split: nat.splits)

lemma manager_get_update:
  "core < length (shards mgr) \<Longrightarrow>
   manager_get (mgr\<lparr>shards := (shards mgr)[core := sh]\<rparr>) c i =
     (if c = core then shard_get sh i else manager_get mgr c i)"
  by (simp add: manager_get_def)

lemma manager_wf_update:
  "manager_wf cap mgr \<Longrightarrow> shard_wf sh \<Longrightarrow> sh_capacity sh = cap \<Longrightarrow>
   manager_wf cap (mgr\<lparr>shards := (shards mgr)[core := sh]\<rparr>)"
  using set_update_subset_insert [of "shards mgr" core sh] by (auto simp: manager_wf_def)

lemma manager_vacant_update:
  "core < length (shards mgr) \<Longrightarrow>
   manager_vacant (mgr\<lparr>shards := (shards mgr)[core := sh]\<rparr>) + length (sh_free (shards mgr ! core))
     = manager_vacant mgr + length (sh_free sh)"
  using sum_list_update_nat [of core "shards mgr" "length \<circ> sh_free" sh] by (simp add: manager_vacant_def)

text \<open>If any shard has room, the least loaded one has.\<close>

lemma least_loaded_room:
  assumes wf: "manager_wf cap mgr" and "0 < manager_vacant mgr"
  shows "least_loaded_core mgr < length (shards mgr)"
    and "0 < length (sh_free (shards mgr ! least_loaded_core mgr))"
proof -
  have "sum_list (map (length \<circ> sh_free) (shards mgr)) \<noteq> 0"
    using assms(2) unfolding manager_vacant_def by (rule gr_implies_not0)
  then obtain sh where sh: "sh \<in> set (shards mgr)" "0 < length (sh_free sh)"
    unfolding sum_list_eq_0_iff by auto
  then have ne: "shards mgr \<noteq> []" by auto
  let ?m = "shards mgr ! least_loaded_core mgr"
  from least_loaded_core_min [OF ne] sh(1) have
    m: "?m \<in> set (shards mgr)" "allocated ?m \<le> allocated sh" by (auto simp: shard_len_def)
  show "least_loaded_core mgr < length (shards mgr)" using least_loaded_core_min(1) [OF ne] .
  have "allocated ?m + length (sh_free ?m) = cap" "allocated sh + length (sh_free sh) = cap"
    using wf sh(1) m(1) by (auto simp: manager_wf_def shard_wf_def)
  with m(2) sh(2) show "0 < length (sh_free ?m)" by linarith
qed

lemma shard_deallocate_capacity: "shard_deallocate sh i = (sh', r) \<Longrightarrow> sh_capacity sh' = sh_capacity sh"
  by (auto simp: shard_deallocate_def split: if_splits)

interpretation mg: slot_store balanced_allocate "\<lambda>mgr k. manager_get mgr (fst k) (snd k)"
  "\<lambda>mgr k. manager_deallocate mgr (fst k) (snd k)" manager_vacant "manager_wf cap" for cap
proof
  fix mgr v
  assume wf: "manager_wf cap mgr" and vac: "0 < manager_vacant mgr"
  let ?c = "least_loaded_core mgr"
  note room = least_loaded_room [OF wf vac]
  have shard: "shard_wf (shards mgr ! ?c)" "sh_capacity (shards mgr ! ?c) = cap"
    using wf room(1) by (auto simp: manager_wf_def)
  from sh.insert_fresh [OF shard(1) room(2), of v] obtain sh i where
    i: "shard_store (shards mgr ! ?c) v = (sh, Inr (Some i))" "shard_get (shards mgr ! ?c) i = None"
      "shard_wf sh" "length (sh_free sh) = length (sh_free (shards mgr ! ?c)) - 1"
      "\<forall>j. shard_get sh j = (if j = i then Some v else shard_get (shards mgr ! ?c) j)" by blast
  let ?m = "mgr\<lparr>shards := (shards mgr)[?c := sh]\<rparr>"
  have "sh_capacity sh = cap" using shard_store_counts [OF i(1) shard(1)] shard(2) by simp
  then have "manager_wf cap ?m" using manager_wf_update [OF wf i(3)] by simp
  moreover have "balanced_allocate mgr v = (?m, Inr (Some (?c, i)))"
    using room(1) i(1) by (simp add: balanced_allocate_def manager_allocate_def)
  moreover have "manager_get mgr ?c i = None" using room(1) i(2) by (simp add: manager_get_def)
  moreover have "manager_vacant ?m = manager_vacant mgr - 1"
    using manager_vacant_update [OF room(1), of sh] i(4) room(2) by simp
  moreover have "manager_get ?m (fst j) (snd j) =
      (if j = (?c, i) then Some v else manager_get mgr (fst j) (snd j))" for j
    using manager_get_update [OF room(1), of sh] i(5) room(1)
    by (cases j) (auto simp: manager_get_def [of mgr ?c])
  ultimately show "\<exists>s' k. balanced_allocate mgr v = (s', Inr (Some k))
      \<and> manager_get mgr (fst k) (snd k) = None \<and> manager_wf cap s' \<and> manager_vacant s' = manager_vacant mgr - 1
      \<and> (\<forall>j. manager_get s' (fst j) (snd j) = (if j = k then Some v else manager_get mgr (fst j) (snd j)))"
    by (intro exI [of _ ?m] exI [of _ "(?c, i)"]) simp
next
  fix mgr v
  assume wf: "manager_wf cap mgr" and vac: "manager_vacant mgr = 0"
  let ?c = "least_loaded_core mgr"
  show "balanced_allocate mgr v = (mgr, Inr None)"
  proof (cases "?c < length (shards mgr)")
    case True
    then have "shards mgr ! ?c \<in> set (shards mgr)" by simp
    with vac have "sh_free (shards mgr ! ?c) = []" unfolding manager_vacant_def sum_list_eq_0_iff by auto
    with True show ?thesis
      by (simp add: balanced_allocate_def manager_allocate_def shard_store_def shard_allocate_def)
  qed (simp add: balanced_allocate_def manager_allocate_def)
next
  fix mgr v and k :: "usize \<times> usize"
  assume wf: "manager_wf cap mgr" and live: "manager_get mgr (fst k) (snd k) = Some v"
  obtain c i where k: "k = (c, i)" by (cases k)
  from live have c: "c < length (shards mgr)" "shard_get (shards mgr ! c) i = Some v"
    by (auto simp: k manager_get_def split: if_splits)
  then have shard: "shard_wf (shards mgr ! c)" "sh_capacity (shards mgr ! c) = cap"
    using wf by (auto simp: manager_wf_def)
  from sh.remove_live [OF shard(1) c(2)] obtain sh where
    d: "shard_deallocate (shards mgr ! c) i = (sh, Inr ())" "shard_wf sh"
      "length (sh_free sh) = length (sh_free (shards mgr ! c)) + 1"
      "\<forall>j. shard_get sh j = (if j = i then None else shard_get (shards mgr ! c) j)" by blast
  let ?m = "mgr\<lparr>shards := (shards mgr)[c := sh]\<rparr>"
  have "manager_wf cap ?m"
    using manager_wf_update [OF wf d(2)] shard_deallocate_capacity [OF d(1)] shard(2) by simp
  moreover have "manager_deallocate mgr c i = (?m, Inr ())"
    using c(1) d(1) by (simp add: manager_deallocate_def)
  moreover have "manager_vacant ?m = manager_vacant mgr + 1"
    using manager_vacant_update [OF c(1), of sh] d(3) by simp
  moreover have "manager_get ?m (fst j) (snd j) = (if j = k then None else manager_get mgr (fst j) (snd j))" for j
    using manager_get_update [OF c(1), of sh] d(4) c(1) by (cases j) (auto simp: k manager_get_def [of mgr c])
  ultimately show "\<exists>s'. manager_deallocate mgr (fst k) (snd k) = (s', Inr ()) \<and> manager_wf cap s'
      \<and> manager_vacant s' = manager_vacant mgr + 1
      \<and> (\<forall>j. manager_get s' (fst j) (snd j) = (if j = k then None else manager_get mgr (fst j) (snd j)))"
    by (intro exI [of _ ?m]) (simp add: k)
qed

text \<open>The counters of all shards, summed by \<open>total_allocated\<close>.\<close>

lemma total_allocated_vacant:
  assumes "manager_wf cap mgr" and "length (shards mgr) * cap < 2 ^ 64"
  shows "total_allocated mgr + manager_vacant mgr = length (shards mgr) * cap"
proof -
  have "fold (\<lambda>sh n. usize_add n (shard_len sh)) shs k + sum_list (map (length \<circ> sh_free) shs) = k + length shs * cap"
    if "\<forall>sh \<in> set shs. shard_wf sh \<and> sh_capacity sh = cap" "k + length shs * cap < 2 ^ 64" for shs k
    using that
  proof (induction shs arbitrary: k)
    case (Cons a shs)
    then have a: "allocated a + length (sh_free a) = cap" by (auto simp: shard_wf_def)
    with Cons.prems(2) have "usize_add k (shard_len a) = k + allocated a"
      by (simp add: usize_add_exact shard_len_def)
    with Cons.IH [of "k + allocated a"] Cons.prems a show ?case by simp
  qed simp
  from this [of "shards mgr" 0] assms show ?thesis by (simp add: total_allocated_def manager_vacant_def manager_wf_def)
qed

section \<open>Any calls on a manager\<close>

datatype manager_op = MAllocate usize conn_state | MDeallocate usize usize

fun manager_run :: "manager_op list \<Rightarrow> slab_manager \<Rightarrow> slab_manager \<times> (unit, (usize \<times> usize) option) result list" where
  "manager_run [] mgr = (mgr, [])"
| "manager_run (MAllocate core conn # ops) mgr =
     (case manager_allocate mgr core conn of
        (mgr', r) \<Rightarrow> map_prod id (Cons r) (manager_run ops mgr'))"
| "manager_run (MDeallocate core i # ops) mgr =
     (case manager_deallocate mgr core i of
        (mgr', r) \<Rightarrow> map_prod id (Cons (map_sum id (\<lambda>_. None) r)) (manager_run ops mgr'))"

text \<open>The same calls on one \<open>ConnSlab\<close> per core.\<close>

fun slabs_run :: "manager_op list \<Rightarrow> conn_slab list \<Rightarrow> conn_slab list \<times> (unit, (usize \<times> usize) option) result list" where
  "slabs_run [] slabs = (slabs, [])"
| "slabs_run (MAllocate core conn # ops) slabs =
     (if core < length slabs then
        (case slab_insert (slabs ! core) conn of
           (slab, r) \<Rightarrow> map_prod id (Cons (map_sum id (map_option (\<lambda>cid. (core, conn_index cid))) r))
             (slabs_run ops (slabs[core := slab])))
      else map_prod id (Cons (Inr None)) (slabs_run ops slabs))"
| "slabs_run (MDeallocate core i # ops) slabs =
     (if core < length slabs then
        (case slab_remove (slabs ! core) (ConnId i) of
           (slab, r) \<Rightarrow> map_prod id (Cons (map_sum id (\<lambda>_. None) r)) (slabs_run ops (slabs[core := slab])))
      else map_prod id (Cons (Inr None)) (slabs_run ops slabs))"

definition shard_ok :: "slab_shard \<Rightarrow> bool" where
  "shard_ok sh \<longleftrightarrow> length (sh_slots sh) = sh_capacity sh \<and> (\<forall>i \<in> set (sh_free sh). i < sh_capacity sh)"

lemma shard_ok_deallocate: "shard_ok sh \<Longrightarrow> shard_ok (fst (shard_deallocate sh i))"
  by (auto simp: shard_ok_def shard_deallocate_def)

lemma shard_ok_store: "shard_ok sh \<Longrightarrow> shard_ok (fst (shard_store sh conn))"
  by (auto simp: shard_ok_def shard_store_def shard_allocate_def shard_insert_def
      dest: in_set_butlastD split: prod.splits)

lemma manager_run_view:
  "\<forall>sh \<in> set (shards mgr). shard_ok sh \<Longrightarrow>
   slabs_run ops (map shard_view (shards mgr)) = map_prod (map shard_view \<circ> shards) id (manager_run ops mgr)"
proof (induction ops mgr rule: manager_run.induct)
  case (2 core conn ops mgr)
  show ?case
  proof (cases "core < length (shards mgr)")
    case True
    obtain sh r where st: "shard_store (shards mgr ! core) conn = (sh, r)"
      by (cases "shard_store (shards mgr ! core) conn")
    let ?m = "mgr\<lparr>shards := (shards mgr)[core := sh]\<rparr>"
    have a: "manager_allocate mgr core conn = (?m, map_sum id (map_option (Pair core)) r)"
      using True st by (simp add: manager_allocate_def)
    have ok: "shard_ok (shards mgr ! core)" using 2(2) True by simp
    then have "\<forall>s \<in> set (shards ?m). shard_ok s"
      using 2(2) shard_ok_store [OF ok, of conn] st set_update_subset_insert [of "shards mgr" core sh] by auto
    note IH = 2(1) [OF a [symmetric] this]
    have "slab_insert (shard_view (shards mgr ! core)) conn = (shard_view sh, map_sum id (map_option ConnId) r)"
      using shard_store_view [of "shards mgr ! core" conn] ok st by (simp add: shard_ok_def)
    with IH a True show ?thesis
      by (simp add: map_update prod.map_comp sum.map_comp option.map_comp comp_def)
        (simp add: map_prod_def split_def id_def)
  next
    case False
    then have "manager_allocate mgr core conn = (mgr, Inr None)" by (simp add: manager_allocate_def)
    with 2 False show ?thesis by (simp add: map_prod_def split_def)
  qed
next
  case (3 core i ops mgr)
  show ?case
  proof (cases "core < length (shards mgr)")
    case True
    obtain sh r where st: "shard_deallocate (shards mgr ! core) i = (sh, r)"
      by (cases "shard_deallocate (shards mgr ! core) i")
    let ?m = "mgr\<lparr>shards := (shards mgr)[core := sh]\<rparr>"
    have a: "manager_deallocate mgr core i = (?m, r)"
      using True st by (simp add: manager_deallocate_def)
    have ok: "shard_ok (shards mgr ! core)" using 3(2) True by simp
    then have "\<forall>s \<in> set (shards ?m). shard_ok s"
      using 3(2) shard_ok_deallocate [OF ok, of i] st set_update_subset_insert [of "shards mgr" core sh] by auto
    note IH = 3(1) [OF a [symmetric] this]
    have "slab_remove (shard_view (shards mgr ! core)) (ConnId i) = (shard_view sh, r)"
      using shard_deallocate_view [of "shards mgr ! core" i] st by simp
    with IH a True show ?thesis by (simp add: map_update) (simp add: map_prod_def split_def)
  next
    case False
    then have "manager_deallocate mgr core i = (mgr, Inr ())" by (simp add: manager_deallocate_def)
    with 3 False show ?thesis by (simp add: map_prod_def split_def)
  qed
qed simp

section \<open>Properties\<close>

text \<open>
  C23: The sharded slab is one \<open>ConnSlab\<close> per core. For every sequence of allocations and
  deallocations on any cores and slots, valid or not, the manager returns what the same calls on
  separate slabs return, and afterwards its shards hold what the slabs hold.
\<close>

theorem sharded_equals_slabs:
  "slabs_run ops (replicate n (slab_new cap)) =
     map_prod (map shard_view \<circ> shards) id (manager_run ops (manager_new info n cap))"
proof -
  have "shard_ok (shard_new core node cap)" for core node
    by (simp add: shard_ok_def shard_new_def)
  then have "\<forall>sh \<in> set (shards (manager_new info n cap)). shard_ok sh" by (auto simp: manager_new_def)
  moreover have "map shard_view (shards (manager_new info n cap)) = replicate n (slab_new cap)"
    by (simp add: manager_new_def comp_def shard_view_new map_replicate_const)
  ultimately show ?thesis using manager_run_view [of "manager_new info n cap" ops] by simp
qed

text \<open>
  Load balancing uses all of the capacity and never hands out a slot in use. After any
  sequence of allocations on the least loaded core and of deallocations of live connections, the
  live pairs of core and slot are distinct and look up the connections they were given for,
  \<open>total_allocated\<close> counts them, and another allocation succeeds as long as fewer than
  \<open>n * cap\<close> connections are live.
\<close>

lemma balanced_manager:
  assumes "n * cap < 2 ^ 64" and "0 < n"
    and "slot_run balanced_allocate (\<lambda>m k. manager_deallocate m (fst k) (snd k)) ops
      (manager_new info n cap) [] = (mgr, live)"
  shows "distinct (map fst live) \<and> (\<forall>k. manager_get mgr (fst k) (snd k) = map_of live k)
    \<and> total_allocated mgr = length live \<and> length live \<le> n * cap
    \<and> (length live < n * cap \<longrightarrow> (\<exists>mgr' k. balanced_allocate mgr conn = (mgr', Inr (Some k)) \<and> k \<notin> fst ` set live))"
proof -
  let ?run = "slot_run balanced_allocate (\<lambda>m k. manager_deallocate m (fst k) (snd k))"
  have cap: "cap < 2 ^ 64" using assms(1,2) by (metis le_less_trans nat_le_iff_add mult_eq_if mult.commute not_gr_zero)
  have none: "manager_get (manager_new info n cap) c i = None" for c i
    by (simp add: manager_get_def manager_new_def shard_get_def shard_new_def)
  then have "mg.agrees (manager_new info n cap) []" by (simp add: mg.agrees_def)
  from mg.run_agrees [OF manager_wf_new [OF cap] this assms(3)]
  have r: "manager_wf cap mgr" "mg.agrees mgr live"
    "manager_vacant mgr + length live = manager_vacant (manager_new info n cap)" by simp_all
  have "length (shards (fst (?run ops m l))) = length (shards m)" for m l
    by (induction balanced_allocate "\<lambda>m k. manager_deallocate m (fst k) (snd k)" ops m l rule: slot_run.induct)
      (auto simp: balanced_allocate_def manager_allocate_def manager_deallocate_def
        split: prod.splits sum.splits option.splits if_splits)
  from this [of "manager_new info n cap" "[]"] assms(3) have n: "length (shards mgr) = n"
    by (simp add: manager_new_def)
  have "manager_vacant (manager_new info n cap) = n * cap"
    by (simp add: manager_vacant_def manager_new_def comp_def shard_new_def sum_list_triv)
  with r total_allocated_vacant [OF r(1)] n assms(1)
  have t: "total_allocated mgr = length live" "length live \<le> n * cap" "manager_vacant mgr = n * cap - length live"
    by auto
  have "\<exists>mgr' k. balanced_allocate mgr conn = (mgr', Inr (Some k)) \<and> k \<notin> fst ` set live" if "length live < n * cap"
  proof -
    have "0 < manager_vacant mgr" using t(3) that by simp
    from mg.insert_fresh [OF r(1) this, of conn] obtain m' k where
      "balanced_allocate mgr conn = (m', Inr (Some k))" "manager_get mgr (fst k) (snd k) = None" by blast
    with r(2) show ?thesis by (auto simp: mg.agrees_def map_of_eq_None_iff)
  qed
  with r(2) t show ?thesis by (auto simp: mg.agrees_def)
qed

theorem balanced_manager_witness:
  "(let s = \<lparr> rx = [], tx = [], wire = [] \<rparr>;
        info = \<lparr> num_nodes = 1, cores_per_node = 2, total_cores = 2, core_to_node = [0, 0] \<rparr>;
        r = slot_run balanced_allocate (\<lambda>m k. manager_deallocate m (fst k) (snd k))
          [SInsert (conn_new 1 s), SInsert (conn_new 2 s), SRemove 0, SInsert (conn_new 3 s)]
          (manager_new info 2 3) []
    in total_allocated (fst r) = length (snd r) \<and> length (snd r) \<le> 6)"
  unfolding Let_def using balanced_manager [OF _ _ prod.collapse [symmetric], of 2 3]
  by (simp del: slot_run.simps)

text \<open>
  When topology detection works. It panics exactly when the machine shows more NUMA nodes
  than the process may use cores; otherwise every core is assigned an existing node exactly when
  the cores divide evenly among the nodes, and the cores listed for a node are those assigned to
  it.
\<close>

lemma numa_detection:
  assumes "0 < cores" and "nodes = length (filter (\<lambda>name. take 4 name = lit ''node'') names)" and "0 < nodes"
  shows "if cores < nodes then detect_linux (Some names) cores = Inl Panic
    else \<exists>info. detect_linux (Some names) cores = Inr info \<and> num_nodes info = nodes
      \<and> ((\<forall>core < cores. node_for_core info core < nodes) \<longleftrightarrow> nodes dvd cores)
      \<and> set (cores_in_node info node) = {core. core < cores \<and> node_for_core info core = node}"
proof (cases "cores < nodes")
  case True
  then show ?thesis using assms by (simp add: detect_linux_def Let_def max_def)
next
  case False
  let ?p = "cores div nodes"
  let ?info = "\<lparr> num_nodes = nodes, cores_per_node = ?p, total_cores = cores,
    core_to_node = map (\<lambda>core. core div ?p) [0..<cores] \<rparr>"
  have p: "0 < ?p" using False assms(3) by (simp add: div_greater_zero_iff)
  have d: "detect_linux (Some names) cores = Inr ?info"
    using assms(1,3) p unfolding detect_linux_def option.case assms(2) [symmetric]
    by (simp add: Let_def max_absorb2)
  have at: "node_for_core ?info core = core div ?p" if "core < cores" for core
    using that by (simp add: node_for_core_def)
  have "(\<forall>core < cores. core div ?p < nodes) \<longleftrightarrow> cores \<le> nodes * ?p"
    using p assms(1) by (metis Suc_pred' le_less_linear less_Suc_eq_le less_mult_imp_div_less div_less_iff_less_mult
        le_less_trans not_le mult.commute order_refl lessI)
  also have "\<dots> \<longleftrightarrow> nodes dvd cores"
    by (metis div_times_less_eq_dividend dvd_def dvd_mult_div_cancel le_antisym mult.commute order_refl)
  finally have "(\<forall>core < cores. node_for_core ?info core < nodes) \<longleftrightarrow> nodes dvd cores" using at by auto
  moreover have "set (cores_in_node ?info node) = {core. core < cores \<and> node_for_core ?info core = node}"
    using at by (auto simp: set_cores_in_node)
  ultimately have "\<exists>info. detect_linux (Some names) cores = Inr info \<and> num_nodes info = nodes
      \<and> ((\<forall>core < cores. node_for_core info core < nodes) \<longleftrightarrow> nodes dvd cores)
      \<and> set (cores_in_node info node) = {core. core < cores \<and> node_for_core info core = node}"
    using d by (intro exI [of _ ?info]) simp
  with False show ?thesis by simp
qed

theorem numa_detection_witness:
  "detect_linux (Some [lit ''node0'', lit ''possible'', lit ''node1'']) 1 = Inl Panic"
  using numa_detection [of 1 2 "[lit ''node0'', lit ''possible'', lit ''node1'']" 0] by (simp add: lit_def)

end
