(* ===== verification/Io_Mux.thy ===== *)
theory Io_Mux
  imports Ring_Queue
begin

text \<open>
  The I/O multiplexer: \<open>ners-core/src/mux.rs\<close>. Operations are queued, a flush registers them
  under fresh tokens, and \<open>poll\<close> is to report those completed. No system call is made. The
  lemmas compute the state after any sequence of calls.
\<close>

type_synonym raw_fd = i32

datatype io_event =
    Accepted raw_fd
  | ReadComplete conn_id usize
  | ReadError conn_id i32
  | WriteComplete conn_id usize
  | WriteError conn_id i32

datatype pending_op =
    PendAccept raw_fd
  | PendRead conn_id
  | PendWrite conn_id usize

record io_mux =
  pending_ops :: "(u64 \<times> pending_op) list"
  next_token :: u64
  queued_accepts :: "raw_fd list"
  queued_reads :: "(conn_id \<times> raw_fd) list"
  queued_writes :: "(conn_id \<times> raw_fd \<times> usize) list"

definition mux_new :: "usize \<Rightarrow> io_mux" where
  "mux_new ring_size =
     \<lparr> pending_ops = [], next_token = 0, queued_accepts = [], queued_reads = [], queued_writes = [] \<rparr>"

definition queue_accept :: "raw_fd \<Rightarrow> io_mux \<Rightarrow> io_mux" where
  "queue_accept fd mux = mux\<lparr>queued_accepts := queued_accepts mux @ [fd]\<rparr>"

definition queue_read :: "conn_id \<Rightarrow> raw_fd \<Rightarrow> io_mux \<Rightarrow> io_mux" where
  "queue_read cid fd mux = mux\<lparr>queued_reads := queued_reads mux @ [(cid, fd)]\<rparr>"

definition queue_write :: "conn_id \<Rightarrow> raw_fd \<Rightarrow> bytes \<Rightarrow> io_mux \<Rightarrow> io_mux" where
  "queue_write cid fd buf mux = mux\<lparr>queued_writes := queued_writes mux @ [(cid, fd, length buf)]\<rparr>"

definition register :: "pending_op \<Rightarrow> io_mux \<Rightarrow> io_mux" where
  "register p mux =
     mux\<lparr>pending_ops := hm_insert (next_token mux) p (pending_ops mux), next_token := next_token mux + 1\<rparr>"

text \<open>The three loops that drain the queues.\<close>

definition mux_flush :: "io_mux \<Rightarrow> io_mux \<times> usize" where
  "mux_flush mux =
     (let count = length (queued_accepts mux) + length (queued_reads mux) + length (queued_writes mux);
          mux = (fold (\<lambda>fd. register (PendAccept fd)) (queued_accepts mux) mux)\<lparr>queued_accepts := []\<rparr>;
          mux = (fold (\<lambda>(cid, _). register (PendRead cid)) (queued_reads mux) mux)\<lparr>queued_reads := []\<rparr>;
          mux = (fold (\<lambda>(cid, _, n). register (PendWrite cid n)) (queued_writes mux) mux)\<lparr>queued_writes := []\<rparr>
      in (mux, count))"

definition mux_poll :: "io_mux \<Rightarrow> io_mux \<times> io_event list" where
  "mux_poll mux = (mux, [])"

definition has_pending :: "io_mux \<Rightarrow> bool" where
  "has_pending mux = (pending_ops mux \<noteq> [])"

definition pending_count :: "io_mux \<Rightarrow> usize" where
  "pending_count mux = length (pending_ops mux)"

section \<open>Runs\<close>

datatype mux_call =
    CallAccept raw_fd
  | CallRead conn_id raw_fd
  | CallWrite conn_id raw_fd bytes
  | CallFlush
  | CallPoll

text \<open>The state after the calls, with all events that \<open>poll\<close> returned.\<close>

fun mux_run :: "mux_call list \<Rightarrow> io_mux \<Rightarrow> io_mux \<times> io_event list" where
  "mux_run [] mux = (mux, [])"
| "mux_run (CallAccept fd # cs) mux = mux_run cs (queue_accept fd mux)"
| "mux_run (CallRead cid fd # cs) mux = mux_run cs (queue_read cid fd mux)"
| "mux_run (CallWrite cid fd buf # cs) mux = mux_run cs (queue_write cid fd buf mux)"
| "mux_run (CallFlush # cs) mux = mux_run cs (fst (mux_flush mux))"
| "mux_run (CallPoll # cs) mux =
     (case mux_poll mux of (mux', events) \<Rightarrow> map_prod id ((@) events) (mux_run cs mux'))"

text \<open>
  What the calls submit: the operations queued before a flush, accepts first, then reads, then
  writes. The arguments hold what is queued so far.
\<close>

fun submitted :: "pending_op list \<Rightarrow> pending_op list \<Rightarrow> pending_op list \<Rightarrow> mux_call list \<Rightarrow> pending_op list" where
  "submitted as rs ws [] = []"
| "submitted as rs ws (CallAccept fd # cs) = submitted (as @ [PendAccept fd]) rs ws cs"
| "submitted as rs ws (CallRead cid fd # cs) = submitted as (rs @ [PendRead cid]) ws cs"
| "submitted as rs ws (CallWrite cid fd buf # cs) = submitted as rs (ws @ [PendWrite cid (length buf)]) cs"
| "submitted as rs ws (CallFlush # cs) = as @ rs @ ws @ submitted [] [] [] cs"
| "submitted as rs ws (CallPoll # cs) = submitted as rs ws cs"

text \<open>Operations registered in the order \<open>ps\<close>: the tokens count up from zero.\<close>

definition registered :: "pending_op list \<Rightarrow> io_mux \<Rightarrow> bool" where
  "registered ps mux \<longleftrightarrow> next_token mux = of_nat (length ps)
     \<and> pending_ops mux = zip (map of_nat [0..<length ps]) ps"

lemma update_nonmem_snoc: "k \<notin> fst ` set m \<Longrightarrow> AList.update k v m = m @ [(k, v)]"
  by (induction m) auto

lemma registered_register:
  assumes "registered ps mux" and "length ps < 2 ^ 64"
  shows "registered (ps @ [p]) (register p mux)"
proof -
  have "of_nat (length ps) \<noteq> (of_nat i :: u64)" if "i < length ps" for i
    using that assms(2) by (simp add: word_of_nat_eq_iff take_bit_nat_eq_self)
  then have "(of_nat (length ps) :: u64) \<notin> of_nat ` {0..<length ps}" by (metis atLeastLessThan_iff imageE)
  then have "(of_nat (length ps) :: u64) \<notin> fst ` set (zip (map of_nat [0..<length ps]) ps)"
    by (auto simp: set_zip)
  then have "hm_insert (of_nat (length ps) :: u64) p (zip (map of_nat [0..<length ps]) ps)
      = zip (map of_nat [0..<length ps]) ps @ [(of_nat (length ps), p)]"
    by (simp add: hm_insert_def update_nonmem_snoc)
  with assms(1) show ?thesis by (simp add: registered_def register_def)
qed

lemma registered_fold:
  assumes "registered ps mux" and "length ps + length qs < 2 ^ 64"
  shows "registered (ps @ qs) (fold register qs mux)"
  using assms
proof (induction qs arbitrary: ps mux)
  case (Cons q qs)
  then have "registered (ps @ [q]) (register q mux)" by (simp add: registered_register)
  from Cons.IH [OF this] Cons.prems(2) show ?case by simp
qed simp

lemma register_queues [simp]:
  "queued_accepts (register p mux) = queued_accepts mux"
  "queued_reads (register p mux) = queued_reads mux"
  "queued_writes (register p mux) = queued_writes mux"
  by (simp_all add: register_def)

lemma fold_register_queues [simp]:
  "queued_accepts (fold register ps mux) = queued_accepts mux"
  "queued_reads (fold register ps mux) = queued_reads mux"
  "queued_writes (fold register ps mux) = queued_writes mux"
  by (induction ps arbitrary: mux) simp_all

lemma registered_queues [simp]:
  "registered ps (mux\<lparr>queued_accepts := as\<rparr>) = registered ps mux"
  "registered ps (mux\<lparr>queued_reads := rs\<rparr>) = registered ps mux"
  "registered ps (mux\<lparr>queued_writes := ws\<rparr>) = registered ps mux"
  by (simp_all add: registered_def)

definition accepts_of :: "io_mux \<Rightarrow> pending_op list" where
  "accepts_of mux = map PendAccept (queued_accepts mux)"

definition reads_of :: "io_mux \<Rightarrow> pending_op list" where
  "reads_of mux = map (PendRead \<circ> fst) (queued_reads mux)"

definition writes_of :: "io_mux \<Rightarrow> pending_op list" where
  "writes_of mux = map (\<lambda>(cid, _, n). PendWrite cid n) (queued_writes mux)"

lemma fold_register_map:
  "fold (\<lambda>fd. register (PendAccept fd)) as mux = fold register (map PendAccept as) mux"
  "fold (\<lambda>(cid, _). register (PendRead cid)) rs mux = fold register (map (PendRead \<circ> fst) rs) mux"
  "fold (\<lambda>(cid, _, n). register (PendWrite cid n)) ws mux
     = fold register (map (\<lambda>(cid, _, n). PendWrite cid n) ws) mux"
  by (simp_all add: fold_map comp_def split_def)

lemma mux_flush_registers:
  assumes "registered ps mux"
    and "length ps + length (accepts_of mux @ reads_of mux @ writes_of mux) < 2 ^ 64"
  shows "registered (ps @ accepts_of mux @ reads_of mux @ writes_of mux) (fst (mux_flush mux))
    \<and> queued_accepts (fst (mux_flush mux)) = [] \<and> queued_reads (fst (mux_flush mux)) = []
    \<and> queued_writes (fst (mux_flush mux)) = []"
proof -
  let ?m1 = "(fold register (accepts_of mux) mux)\<lparr>queued_accepts := []\<rparr>"
  let ?m2 = "(fold register (reads_of mux) ?m1)\<lparr>queued_reads := []\<rparr>"
  let ?m3 = "(fold register (writes_of mux) ?m2)\<lparr>queued_writes := []\<rparr>"
  have "fst (mux_flush mux) = ?m3"
    by (simp add: mux_flush_def Let_def fold_register_map accepts_of_def reads_of_def writes_of_def)
  moreover have "registered (ps @ accepts_of mux) ?m1"
    using registered_fold [OF assms(1), of "accepts_of mux"] assms(2) by simp
  then have "registered ((ps @ accepts_of mux) @ reads_of mux) ?m2"
    using registered_fold [of "ps @ accepts_of mux" ?m1 "reads_of mux"] assms(2) by simp
  then have "registered (((ps @ accepts_of mux) @ reads_of mux) @ writes_of mux) ?m3"
    using registered_fold [of "(ps @ accepts_of mux) @ reads_of mux" ?m2 "writes_of mux"] assms(2) by simp
  ultimately show ?thesis by simp
qed

lemma mux_run_registered:
  assumes "registered ps mux"
    and "length ps + length (submitted (accepts_of mux) (reads_of mux) (writes_of mux) cs) < 2 ^ 64"
  shows "registered (ps @ submitted (accepts_of mux) (reads_of mux) (writes_of mux) cs) (fst (mux_run cs mux))
    \<and> snd (mux_run cs mux) = []"
  using assms
proof (induction cs mux arbitrary: ps rule: mux_run.induct)
  case (5 cs mux)
  from mux_flush_registers [OF 5(2)] 5(3) have f:
    "registered (ps @ accepts_of mux @ reads_of mux @ writes_of mux) (fst (mux_flush mux))"
    "accepts_of (fst (mux_flush mux)) = []" "reads_of (fst (mux_flush mux)) = []"
    "writes_of (fst (mux_flush mux)) = []"
    by (simp_all add: accepts_of_def reads_of_def writes_of_def)
  from 5(1) [OF f(1)] 5(3) f(2-4) show ?case by simp
qed (simp_all add: accepts_of_def reads_of_def writes_of_def queue_accept_def queue_read_def queue_write_def
    mux_poll_def)

section \<open>Properties\<close>

text \<open>
  Every flushed operation is registered once and stays pending for ever. After any sequence
  of calls the pending operations are exactly those submitted by the flushes, in the order of
  submission, under the distinct tokens 0, 1, 2 and so on; \<open>poll\<close> has reported nothing, so no
  operation was completed and the table only grows.
\<close>

lemma mux_never_completes:
  assumes "length (submitted [] [] [] cs) < 2 ^ 64"
  shows "map snd (pending_ops (fst (mux_run cs (mux_new n)))) = submitted [] [] [] cs
    \<and> map fst (pending_ops (fst (mux_run cs (mux_new n)))) = map of_nat [0..<length (submitted [] [] [] cs)]
    \<and> distinct (map fst (pending_ops (fst (mux_run cs (mux_new n)))))
    \<and> snd (mux_run cs (mux_new n)) = []"
proof -
  have "registered [] (mux_new n)" by (simp add: registered_def mux_new_def)
  from mux_run_registered [OF this, of cs] assms
  have r: "registered (submitted [] [] [] cs) (fst (mux_run cs (mux_new n)))" "snd (mux_run cs (mux_new n)) = []"
    by (simp_all add: mux_new_def accepts_of_def reads_of_def writes_of_def)
  have "inj_on (of_nat :: nat \<Rightarrow> u64) {0..<length (submitted [] [] [] cs)}"
    using assms by (auto intro!: inj_onI simp: word_of_nat_eq_iff take_bit_nat_eq_self)
  with r show ?thesis by (simp add: registered_def distinct_map)
qed

theorem mux_never_completes_witness:
  "pending_count (fst (mux_run [CallAccept 5, CallRead (ConnId 0) 6, CallFlush, CallPoll, CallWrite (ConnId 1) 7 [1], CallFlush]
     (mux_new 256))) = 3"
  using mux_never_completes [of "[CallAccept 5, CallRead (ConnId 0) 6, CallFlush, CallPoll, CallWrite (ConnId 1) 7 [1], CallFlush]" 256]
  by (simp add: pending_count_def del: mux_run.simps flip: length_map [of snd])

end
