(* ===== verification/Tuner.thy ===== *)
theory Tuner
  imports Policy
begin

text \<open>
  The tuning engine: \<open>ners-core/src/tuner.rs\<close>. It feeds a snapshot to the analyzer, lets its policy
  propose actions, checks them against the constraints, logs them (the newest thousand), marks the
  last one as rolled back when the average latency has jumped, and follows the latency with an
  exponential moving average. The policy is an argument, as the boxed trait object is a field; the
  readings of the clock are \<open>clock 0\<close>, \<open>clock 1\<close> (the policy) and \<open>clock (2 + i)\<close> (the log).
\<close>

datatype tuning_result = Applied | Rejected | RolledBack

record tuning_log_entry =
  entry_timestamp :: int
  entry_action :: tuning_action
  entry_result :: tuning_result

record tuning_constraints =
  min_queue_size :: usize
  max_queue_size :: usize
  max_actions_per_minute :: usize
  max_memory_bytes :: u64

definition constraints_default :: tuning_constraints where
  "constraints_default =
     \<lparr> min_queue_size = 100, max_queue_size = 10000, max_actions_per_minute = 10,
       max_memory_bytes = 1024 * 1024 * 1024 \<rparr>"

record 'p tuning_engine =
  engine_policy :: 'p
  engine_analyzer :: metrics_analyzer
  engine_constraints :: tuning_constraints
  action_history :: "tuning_log_entry list"
  last_baseline_ns :: u64
  max_log_entries :: usize
  engine_enabled :: bool

definition engine_new :: "'p \<Rightarrow> tuning_constraints \<Rightarrow> 'p tuning_engine" where
  "engine_new policy c =
     \<lparr> engine_policy = policy, engine_analyzer = analyzer_new rules_default, engine_constraints = c,
       action_history = [], last_baseline_ns = 0, max_log_entries = 1000, engine_enabled = True \<rparr>"

definition engine_set_enabled :: "bool \<Rightarrow> 'p tuning_engine \<Rightarrow> 'p tuning_engine" where
  "engine_set_enabled b e = e\<lparr>engine_enabled := b\<rparr>"

definition validate_action :: "tuning_constraints \<Rightarrow> tuning_action \<Rightarrow> bool" where
  "validate_action c action =
     (case action of
        IncreaseQueueSize st new_size \<Rightarrow> new_size \<le> max_queue_size c
      | DecreaseQueueSize st new_size \<Rightarrow> min_queue_size c \<le> new_size
      | EnableBatching st \<Rightarrow> True
      | AdjustBackpressure threshold \<Rightarrow> fp_le (f64_lit 0) threshold \<and> fp_le threshold (f64_lit 1))"

definition log_action :: "int \<Rightarrow> tuning_action \<Rightarrow> tuning_result \<Rightarrow> 'p tuning_engine \<Rightarrow> 'p tuning_engine" where
  "log_action now action res e =
     (let e = (if max_log_entries e \<le> length (action_history e)
               then e\<lparr>action_history := tl (action_history e)\<rparr> else e)
      in e\<lparr>action_history := action_history e
             @ [\<lparr> entry_timestamp = now, entry_action = action, entry_result = res \<rparr>]\<rparr>)"

definition calculate_avg_latency :: "metrics_snapshot \<Rightarrow> u64" where
  "calculate_avg_latency s =
     (let total = sum_list (map (avg_latency_ns \<circ> snd) (snap_stages s));
          count = of_nat (length (snap_stages s))
      in if 0 < count then total div count else 0)"

definition should_rollback :: "metrics_snapshot \<Rightarrow> 'p tuning_engine \<Rightarrow> bool" where
  "should_rollback s e =
     (if last_baseline_ns e = 0 then False
      else last_baseline_ns e * 3 div 2 < calculate_avg_latency s)"

definition rollback_last_action :: "'p tuning_engine \<Rightarrow> 'p tuning_engine" where
  "rollback_last_action e =
     (if action_history e = [] then e
      else if entry_result (last (action_history e)) = Applied
      then e\<lparr>action_history := butlast (action_history e)
               @ [(last (action_history e))\<lparr>entry_result := RolledBack\<rparr>]\<rparr>
      else e)"

definition update_baseline :: "metrics_snapshot \<Rightarrow> 'p tuning_engine \<Rightarrow> 'p tuning_engine" where
  "update_baseline s e =
     (let current_avg = calculate_avg_latency s in
      if 0 < current_avg then
        if last_baseline_ns e = 0 then e\<lparr>last_baseline_ns := current_avg\<rparr>
        else e\<lparr>last_baseline_ns := (last_baseline_ns e * 9 + current_avg) div 10\<rparr>
      else e)"

text \<open>The loop over the proposed actions; applying an action only writes to the log file.\<close>

fun apply_actions ::
    "(nat \<Rightarrow> int) \<Rightarrow> tuning_action list \<Rightarrow> 'p tuning_engine \<Rightarrow> tuning_action list \<times> 'p tuning_engine" where
  "apply_actions clock [] e = ([], e)"
| "apply_actions clock (action # actions) e =
     (if validate_action (engine_constraints e) action then
        let (applied, e) = apply_actions (clock \<circ> Suc) actions (log_action (clock 0) action Applied e)
        in (action # applied, e)
      else apply_actions (clock \<circ> Suc) actions (log_action (clock 0) action Rejected e))"

type_synonym 'p analyze = "int \<Rightarrow> int \<Rightarrow> metrics_snapshot \<Rightarrow> metrics_analyzer \<Rightarrow> 'p \<Rightarrow> tuning_action list \<times> 'p"

definition process ::
    "'p analyze \<Rightarrow> (nat \<Rightarrow> int) \<Rightarrow> metrics_snapshot \<Rightarrow> 'p tuning_engine \<Rightarrow> tuning_action list \<times> 'p tuning_engine" where
  "process analyze clock s e =
     (if \<not> engine_enabled e then ([], e)
      else
        let e = e\<lparr>engine_analyzer := add_snapshot s (engine_analyzer e)\<rparr>;
            (actions, p) = analyze (clock 0) (clock 1) s (engine_analyzer e) (engine_policy e);
            (applied, e) = apply_actions (clock \<circ> Suc \<circ> Suc) actions (e\<lparr>engine_policy := p\<rparr>);
            e = (if should_rollback s e then rollback_last_action e else e)
        in (applied, update_baseline s e))"

text \<open>Any number of snapshots.\<close>

definition engine_run ::
    "'p analyze \<Rightarrow> ((nat \<Rightarrow> int) \<times> metrics_snapshot) list \<Rightarrow> 'p tuning_engine \<Rightarrow> 'p tuning_engine" where
  "engine_run analyze = fold (\<lambda>(clock, s) e. snd (process analyze clock s e))"

section \<open>The log\<close>

definition log_entry :: "tuning_constraints \<Rightarrow> int \<Rightarrow> tuning_action \<Rightarrow> tuning_log_entry" where
  "log_entry c now action =
     \<lparr> entry_timestamp = now, entry_action = action,
       entry_result = (if validate_action c action then Applied else Rejected) \<rparr>"

definition log_entries :: "tuning_constraints \<Rightarrow> (nat \<Rightarrow> int) \<Rightarrow> tuning_action list \<Rightarrow> tuning_log_entry list" where
  "log_entries c clock actions = map (\<lambda>i. log_entry c (clock i) (actions ! i)) [0..<length actions]"

lemma log_entries_simps [simp]:
  "log_entries c clock [] = []"
  "log_entries c clock (action # actions) = log_entry c (clock 0) action # log_entries c (clock \<circ> Suc) actions"
  by (simp_all add: log_entries_def upt_conv_Cons map_Suc_upt [symmetric] del: upt_Suc)

lemma length_log_entries [simp]: "length (log_entries c clock actions) = length actions"
  by (simp add: log_entries_def)

lemma log_action_push:
  "log_action now action res e = e\<lparr>action_history :=
     push_bounded (max_log_entries e) \<lparr> entry_timestamp = now, entry_action = action, entry_result = res \<rparr> (action_history e)\<rparr>"
  by (simp add: log_action_def push_bounded_def Let_def)

lemma apply_actions_result:
  "apply_actions clock actions e =
     (filter (validate_action (engine_constraints e)) actions,
      e\<lparr>action_history := fold (push_bounded (max_log_entries e))
          (log_entries (engine_constraints e) clock actions) (action_history e)\<rparr>)"
  by (induction clock actions e rule: apply_actions.induct)
    (simp_all add: log_action_push log_entry_def Let_def comp_def)

lemma fold_push_newest:
  assumes "length xs \<le> cap" and "0 < cap"
  shows "fold (push_bounded cap) ys xs = newest cap (xs @ ys)"
proof -
  have "newest cap xs = xs" using assms(1) by (simp add: newest_def)
  then have "fold (push_bounded cap) xs [] = xs" using assms(2) by (simp add: fold_push_bounded)
  then have "fold (push_bounded cap) ys xs = fold (push_bounded cap) (xs @ ys) []" by simp
  then show ?thesis using assms(2) by (simp only: fold_push_bounded) (simp add: max_absorb2 Suc_leI)
qed

definition mark_last :: "tuning_log_entry list \<Rightarrow> tuning_log_entry list" where
  "mark_last h = (if h \<noteq> [] \<and> entry_result (last h) = Applied
     then butlast h @ [(last h)\<lparr>entry_result := RolledBack\<rparr>] else h)"

lemma length_mark_last [simp]: "length (mark_last h) = length h"
  by (simp add: mark_last_def)

lemma rollback_mark: "rollback_last_action e = e\<lparr>action_history := mark_last (action_history e)\<rparr>"
  by (simp add: rollback_last_action_def mark_last_def)

lemma update_baseline_fields [simp]:
  "action_history (update_baseline s e) = action_history e" "engine_enabled (update_baseline s e) = engine_enabled e"
  "engine_constraints (update_baseline s e) = engine_constraints e"
  "max_log_entries (update_baseline s e) = max_log_entries e"
  "engine_policy (update_baseline s e) = engine_policy e"
  by (simp_all add: update_baseline_def Let_def)

text \<open>One call, for an engine that is enabled and whose log is not beyond its limit.\<close>

lemma process_result:
  assumes "engine_enabled e" and "length (action_history e) \<le> max_log_entries e" and "0 < max_log_entries e"
    and "analyze (clock 0) (clock 1) s (add_snapshot s (engine_analyzer e)) (engine_policy e) = (actions, p)"
    and "process analyze clock s e = (applied, e')"
  shows "applied = filter (validate_action (engine_constraints e)) actions"
    and "action_history e' = (if should_rollback s e then mark_last else (\<lambda>h. h))
      (newest (max_log_entries e) (action_history e @ log_entries (engine_constraints e) (clock \<circ> Suc \<circ> Suc) actions))"
    and "engine_policy e' = p" and "engine_enabled e'"
    and "engine_constraints e' = engine_constraints e" and "max_log_entries e' = max_log_entries e"
    and "last_baseline_ns e' = last_baseline_ns (update_baseline s e)"
  using assms
  by (auto simp: process_def apply_actions_result Let_def rollback_mark should_rollback_def fold_push_newest
      update_baseline_def split: if_splits)

text \<open>The default constraints ask for what the built-in policies guarantee.\<close>

lemma validate_default: "validate_action constraints_default = action_in_bounds"
proof -
  have "f64_lit 0 = zero_f" by (simp add: f64_lit_def fp_def)
  moreover have "f64_lit 1 = one_f" using f64_lit_pos [of 1] by (simp add: round_mag_one)
  ultimately show ?thesis
    by (intro ext) (simp add: validate_action_def action_in_bounds_def constraints_default_def split: tuning_action.split)
qed

definition log_ok :: "tuning_log_entry list \<Rightarrow> bool" where
  "log_ok h \<longleftrightarrow> length h \<le> 1000
     \<and> list_all (\<lambda>entry. entry_result entry \<noteq> Rejected \<and> action_in_bounds (entry_action entry)) h"

lemma log_ok_mark: "log_ok h \<Longrightarrow> log_ok (mark_last h)"
  by (cases h rule: rev_cases) (auto simp: log_ok_def mark_last_def)

lemma log_ok_newest: "list_all P (h @ g) \<Longrightarrow> list_all P (newest n (h @ g))"
  unfolding newest_def list_all_iff by (meson in_set_dropD)

definition engine_ok :: "'p tuning_engine \<Rightarrow> bool" where
  "engine_ok e \<longleftrightarrow> engine_constraints e = constraints_default \<and> max_log_entries e = 1000 \<and> log_ok (action_history e)"

lemma engine_ok_new [simp]: "engine_ok (engine_new p constraints_default)"
  by (simp add: engine_ok_def engine_new_def log_ok_def)

context bounded_policy
begin

text \<open>With the default constraints an engine applies every action its policy proposes.\<close>

lemma process_ok:
  assumes "engine_ok e"
  shows "engine_ok (snd (process analyze clock s e)) \<and> length (fst (process analyze clock s e)) \<le> most"
proof (cases "engine_enabled e")
  case True
  obtain actions p where a:
    "analyze (clock 0) (clock 1) s (add_snapshot s (engine_analyzer e)) (engine_policy e) = (actions, p)"
    by fastforce
  obtain applied e' where r: "process analyze clock s e = (applied, e')" by fastforce
  have bounds: "list_all action_in_bounds actions" "length actions \<le> most"
    using few [of "clock 0" "clock 1" s "add_snapshot s (engine_analyzer e)" "engine_policy e"] a
      in_bounds [of _ "clock 0" "clock 1" s "add_snapshot s (engine_analyzer e)" "engine_policy e"]
    by (auto simp: list_all_iff)
  have ok: "length (action_history e) \<le> max_log_entries e" "0 < max_log_entries e"
    "engine_constraints e = constraints_default" "log_ok (action_history e)" "max_log_entries e = 1000"
    using assms by (auto simp: engine_ok_def log_ok_def)
  note res = process_result [OF True ok(1,2) a r]
  let ?new = "log_entries constraints_default (clock \<circ> Suc \<circ> Suc) actions"
  have "list_all (\<lambda>entry. entry_result entry \<noteq> Rejected \<and> action_in_bounds (entry_action entry)) (action_history e @ ?new)"
    using ok(4) bounds(1)
    by (auto simp: log_ok_def list_all_iff log_entries_def log_entry_def validate_default)
  from log_ok_newest [OF this] have "log_ok (newest 1000 (action_history e @ ?new))" by (simp add: log_ok_def)
  then have "log_ok (action_history e')" using res(2) ok(3,5) log_ok_mark by simp
  moreover have "length applied \<le> most"
    unfolding res(1) using bounds(2) by (rule order.trans [OF length_filter_le])
  ultimately show ?thesis using r res(5,6) ok(3,5) by (simp add: engine_ok_def)
qed (simp add: process_def assms)

lemma run_ok: "engine_ok e \<Longrightarrow> engine_ok (engine_run analyze steps e)"
  unfolding engine_run_def by (induction steps arbitrary: e) (auto simp: process_ok)

end

section \<open>The baseline\<close>

text \<open>The moving average over numbers, where the update does not wrap around.\<close>

definition ema :: "nat \<Rightarrow> nat \<Rightarrow> nat" where
  "ema c b = (if c = 0 then b else if b = 0 then c else (9 * b + c) div 10)"

lemma update_baseline_ema:
  assumes "9 * unat (last_baseline_ns e) + unat (calculate_avg_latency s) < 2 ^ 64"
  shows "unat (last_baseline_ns (update_baseline s e)) = ema (unat (calculate_avg_latency s)) (unat (last_baseline_ns e))"
proof -
  let ?b = "last_baseline_ns e" and ?c = "calculate_avg_latency s"
  have "unat (?b * 9 + ?c) = unat ?b * 9 + unat ?c" using assms by (simp add: unat_word_ariths)
  then have "unat ((?b * 9 + ?c) div 10) = (9 * unat ?b + unat ?c) div 10"
    by (simp add: unat_div_distrib mult.commute)
  then show ?thesis by (auto simp: update_baseline_def ema_def Let_def word_gt_0 unat_eq_0)
qed

lemma ema_between: "0 < c \<Longrightarrow> 0 < b \<Longrightarrow> min b c \<le> ema c b \<and> ema c b \<le> max b c"
  by (auto simp: ema_def min_def max_def)

lemma ema_closer:
  assumes "0 < c" and "0 < b"
  shows "c < b \<Longrightarrow> c \<le> ema c b \<and> ema c b < b"
    and "b + 9 < c \<Longrightarrow> b < ema c b \<and> ema c b \<le> c"
    and "b \<le> c \<Longrightarrow> c \<le> b + 9 \<Longrightarrow> ema c b = b"
  using assms by (auto simp: ema_def)

text \<open>The distance to the window \<open>[c - 9, c]\<close> in which the average comes to rest.\<close>

definition ema_distance :: "nat \<Rightarrow> nat \<Rightarrow> nat" where
  "ema_distance c b = (if c < b then b - c else (c - b) - 9)"

lemma ema_steps:
  assumes "0 < c" and "0 < b" and "ema_distance c b \<le> n"
  shows "(ema c ^^ n) b \<le> c \<and> c \<le> (ema c ^^ n) b + 9"
  using assms(2,3)
proof (induction n arbitrary: b)
  case 0
  then show ?case by (auto simp: ema_distance_def split: if_splits)
next
  case (Suc n)
  consider "c < b" | "b + 9 < c" | "b \<le> c" "c \<le> b + 9" by linarith
  then have "0 < ema c b \<and> ema_distance c (ema c b) \<le> n"
  proof cases
    case 1
    with ema_closer(1) [OF assms(1) Suc.prems(1)] Suc.prems assms(1) show ?thesis by (auto simp: ema_distance_def)
  next
    case 2
    with ema_closer(2) [OF assms(1) Suc.prems(1)] Suc.prems show ?thesis by (auto simp: ema_distance_def)
  next
    case 3
    with ema_closer(3) [OF assms(1) Suc.prems(1)] Suc.prems show ?thesis by (auto simp: ema_distance_def)
  qed
  with Suc.IH [of "ema c b"] show ?case by (simp add: funpow_Suc_right del: funpow.simps)
qed

lemma process_baseline:
  assumes "engine_enabled e"
  shows "engine_enabled (snd (process analyze clock s e))
    \<and> last_baseline_ns (snd (process analyze clock s e)) = last_baseline_ns (update_baseline s e)"
  using assms
  by (simp add: process_def apply_actions_result Let_def rollback_mark update_baseline_def split: prod.split)

lemma run_baseline:
  assumes "engine_enabled e" and "list_all (\<lambda>(clock, s). calculate_avg_latency s = c) steps" and "0 < c"
    and "10 * unat (last_baseline_ns e) < 2 ^ 64" and "10 * unat c < 2 ^ 64"
  shows "unat (last_baseline_ns (engine_run analyze steps e)) = (ema (unat c) ^^ length steps) (unat (last_baseline_ns e))"
  using assms(1,2,4)
proof (induction steps arbitrary: e)
  case (Cons p steps)
  obtain clock s where p: "p = (clock, s)" by (cases p)
  let ?e = "snd (process analyze clock s e)"
  have c: "calculate_avg_latency s = c" using Cons.prems(2) by (simp add: p)
  have b: "unat (last_baseline_ns ?e) = ema (unat c) (unat (last_baseline_ns e))"
    using process_baseline [OF Cons.prems(1), of analyze clock s] update_baseline_ema [of e s] Cons.prems(3) assms(5)
    by (simp add: c)
  moreover have "10 * ema (unat c) (unat (last_baseline_ns e)) < 2 ^ 64"
    using Cons.prems(3) assms(5) by (auto simp: ema_def)
  ultimately have "unat (last_baseline_ns (engine_run analyze steps ?e))
      = (ema (unat c) ^^ length steps) (ema (unat c) (unat (last_baseline_ns e)))"
    using Cons.IH [of ?e] Cons.prems(1,2) process_baseline [OF Cons.prems(1), of analyze clock s] by (simp add: p)
  then show ?case by (simp add: engine_run_def p funpow_Suc_right del: funpow.simps)
qed (simp add: engine_run_def)

section \<open>Properties\<close>

text \<open>
  What an engine does with a snapshot. An enabled engine returns exactly the proposed actions
  that satisfy its constraints, logs every proposed action in order, as applied or as rejected,
  keeps the newest entries up to its limit, and, when the average latency exceeds one and a half
  times the baseline, marks the last entry as rolled back if it was applied.
\<close>

lemma process_logs_every_action:
  assumes "engine_enabled e" and "length (action_history e) \<le> max_log_entries e" and "0 < max_log_entries e"
    and "analyze (clock 0) (clock 1) s (add_snapshot s (engine_analyzer e)) (engine_policy e) = (actions, p)"
  shows "fst (process analyze clock s e) = filter (validate_action (engine_constraints e)) actions
    \<and> action_history (snd (process analyze clock s e)) = (if should_rollback s e then mark_last else (\<lambda>h. h))
      (newest (max_log_entries e) (action_history e @ log_entries (engine_constraints e) (clock \<circ> Suc \<circ> Suc) actions))"
  using process_result(1,2) [where analyze = analyze and clock = clock, OF assms prod.collapse [symmetric]] by simp

theorem process_logs_every_action_witness:
  "fst (process (\<lambda>_ _ _ _ p. ([IncreaseQueueSize [] 20000, EnableBatching []], p)) (\<lambda>_. 7) (sample_snapshot 1 1)
      (engine_new () constraints_default)) = [EnableBatching []]
   \<and> map entry_result (action_history (snd (process (\<lambda>_ _ _ _ p. ([IncreaseQueueSize [] 20000, EnableBatching []], p))
      (\<lambda>_. 7) (sample_snapshot 1 1) (engine_new () constraints_default)))) = [Rejected, Applied]"
proof -
  let ?e = "engine_new () constraints_default"
  let ?a = "\<lambda>_ _ _ _ p. ([IncreaseQueueSize [] 20000, EnableBatching []], p)"
  have "\<not> should_rollback (sample_snapshot 1 1) ?e" by (simp add: should_rollback_def engine_new_def)
  with process_logs_every_action [of ?e ?a "\<lambda>_. 7" "sample_snapshot 1 1"] show ?thesis
    by (simp add: engine_new_def newest_def log_entry_def validate_action_def constraints_default_def)
qed

text \<open>
  C29: The built-in policies and the default constraints fit. From a new engine with either policy,
  whatever snapshots and clock readings it processes, no action is ever rejected, every logged
  action keeps to the limits (a queue never above 10000 by an increase, never below 100 by a
  decrease), and the log never exceeds a thousand entries.
\<close>

theorem builtin_policies_accepted:
  "log_ok (action_history (engine_run conservative_analyze steps
     (engine_new (conservative_new start r) constraints_default)))
   \<and> log_ok (action_history (engine_run aggressive_analyze steps
     (engine_new (aggressive_new start r) constraints_default)))"
  using conservative.run_ok [OF engine_ok_new] aggressive.run_ok [OF engine_ok_new] by (simp add: engine_ok_def)

text \<open>
  C36: The baseline follows the latency and comes to rest. While every snapshot has the average
  latency \<open>c\<close>, the moving average of an enabled engine, with any policy, reaches the window
  from \<open>c - 9\<close> to \<open>c\<close> within as many snapshots as it is away from it, plus one, and stays there; the
  products do not wrap around below \<open>2 ^ 64 / 10\<close>.
\<close>

theorem baseline_settles:
  assumes "engine_enabled e" and "list_all (\<lambda>(clock, s). calculate_avg_latency s = c) steps" and "0 < c"
    and "10 * unat (last_baseline_ns e) < 2 ^ 64" and "10 * unat c < 2 ^ 64"
    and "ema_distance (unat c) (unat (last_baseline_ns e)) < length steps"
  shows "unat (last_baseline_ns (engine_run analyze steps e)) \<le> unat c
    \<and> unat c \<le> unat (last_baseline_ns (engine_run analyze steps e)) + 9"
proof -
  have c: "0 < unat c" using assms(3) by (simp add: word_gt_0 unat_eq_0 zero_less_iff_neq_zero)
  let ?b = "unat (last_baseline_ns e)" and ?n = "length steps"
  have "(ema (unat c) ^^ ?n) ?b \<le> unat c \<and> unat c \<le> (ema (unat c) ^^ ?n) ?b + 9"
  proof (cases "?b = 0")
    case True
    then obtain m where m: "?n = Suc m" using assms(6) by (cases ?n) auto
    have "ema (unat c) 0 = unat c" using c by (simp add: ema_def)
    with ema_steps [OF c c, of m] True show ?thesis
      by (simp add: m ema_distance_def funpow_Suc_right del: funpow.simps)
  next
    case False
    then show ?thesis using ema_steps [OF c, of ?b ?n] assms(6) by simp
  qed
  then show ?thesis using run_baseline [OF assms(1-5)] by simp
qed

theorem baseline_settles_witness:
  "\<exists>b \<le> 100. 91 \<le> b \<and> last_baseline_ns (engine_run conservative_analyze
     (replicate 92 ((\<lambda>_. 0), sample_snapshot 1 100)) (engine_new (conservative_new 0 rules_default) constraints_default)) = b"
proof -
  let ?e = "engine_new (conservative_new 0 rules_default) constraints_default"
  let ?b = "last_baseline_ns (engine_run conservative_analyze (replicate 92 ((\<lambda>_. 0), sample_snapshot 1 100)) ?e)"
  have "calculate_avg_latency (sample_snapshot 1 100) = 100"
    by (simp add: calculate_avg_latency_def sample_snapshot_def sample_stage_def avg_latency_ns_def)
  then have "unat ?b \<le> unat (100 :: u64) \<and> unat (100 :: u64) \<le> unat ?b + 9"
    by (intro baseline_settles) (simp_all add: engine_new_def ema_distance_def list_all_iff)
  then have "unat ?b \<le> 100" "91 \<le> unat ?b" by simp_all
  then show ?thesis by (intro exI [of _ ?b]) (simp add: word_le_nat_alt)
qed

text \<open>
  A rollback hits the action that was taken last, not the one that was measured. When the
  latency has jumped, an engine that takes actions on the same snapshot returns the last of them
  as applied and at once logs it as rolled back, before it can have had any effect.
\<close>

lemma rollback_hits_fresh_action:
  assumes "engine_ok e" and "engine_enabled e" and "should_rollback s e"
    and "analyze (clock 0) (clock 1) s (add_snapshot s (engine_analyzer e)) (engine_policy e) = (actions, p)"
    and "actions \<noteq> []" and "validate_action (engine_constraints e) (last actions)"
  shows "last (fst (process analyze clock s e)) = last actions
    \<and> last (action_history (snd (process analyze clock s e)))
        = \<lparr> entry_timestamp = clock (length actions + 1), entry_action = last actions, entry_result = RolledBack \<rparr>"
proof -
  have ok: "length (action_history e) \<le> max_log_entries e" "0 < max_log_entries e"
    using assms(1) by (auto simp: engine_ok_def log_ok_def)
  obtain as a where actions: "actions = as @ [a]" using assms(5) by (cases actions rule: rev_cases) auto
  have le: "last (log_entries (engine_constraints e) (clock \<circ> Suc \<circ> Suc) actions)
      = \<lparr> entry_timestamp = clock (Suc (Suc (length as))), entry_action = a, entry_result = Applied \<rparr>"
    using assms(6) by (simp add: log_entries_def actions log_entry_def)
  have "last (newest n (h @ g)) = last g" if "g \<noteq> []" "0 < n" for n and h g :: "tuning_log_entry list"
  proof -
    have "length g - n < length g" using that by (simp add: length_greater_0_conv [symmetric] del: length_greater_0_conv)
    then show ?thesis by (simp add: newest_def last_append last_drop)
  qed
  with ok(2) assms(5) have
    "last (newest (max_log_entries e) (action_history e @ log_entries (engine_constraints e) (clock \<circ> Suc \<circ> Suc) actions))
      = \<lparr> entry_timestamp = clock (Suc (Suc (length as))), entry_action = a, entry_result = Applied \<rparr>"
    unfolding le [symmetric] by (metis length_greater_0_conv length_log_entries)
  moreover have "newest (max_log_entries e) (action_history e @ log_entries (engine_constraints e) (clock \<circ> Suc \<circ> Suc) actions) \<noteq> []"
    using ok(2) by (simp add: newest_def actions log_entries_def)
  ultimately show ?thesis
    using process_result(1,2) [where analyze = analyze and clock = clock, OF assms(2) ok assms(4) prod.collapse [symmetric]] assms(3,6)
    by (simp add: mark_last_def actions)
qed

theorem rollback_hits_fresh_action_witness:
  "entry_result (last (action_history (snd (process (\<lambda>_ _ _ _ p. ([EnableBatching []], p)) int (sample_snapshot 1 100)
     ((engine_new () constraints_default)\<lparr>last_baseline_ns := 10\<rparr>))))) = RolledBack"
proof -
  let ?e = "(engine_new () constraints_default)\<lparr>last_baseline_ns := 10\<rparr>" and ?s = "sample_snapshot 1 100"
  have "engine_ok ?e" "engine_enabled ?e" by (simp_all add: engine_ok_def log_ok_def engine_new_def)
  moreover have "should_rollback ?s ?e"
    by (simp add: should_rollback_def calculate_avg_latency_def sample_snapshot_def sample_stage_def avg_latency_ns_def)
  ultimately show ?thesis
    using rollback_hits_fresh_action [of ?e ?s "\<lambda>_ _ _ _ p. ([EnableBatching []], p)" int "[EnableBatching []]"]
    by (simp add: validate_action_def)
qed

end
