(* ===== verification/Ml_Bridge.thy ===== *)
theory Ml_Bridge
  imports Features
begin

text \<open>
  The policy bridge: \<open>ners-ml/src/bridge.rs\<close>. A heuristic model maps the newest feature vector
  to a recommended action; predictions are cached for some time, and callers may ask for
  confident ones only. The clock readings of a call are arguments: one when the age of the cache
  is tested, one when a prediction is stored.
\<close>

section \<open>Data\<close>

datatype ml_bridge_error =
  ModelUnavailable | PredictionFailed str | InvalidInput str | PredictionTimeout

datatype predicted_action =
    NoOp
  | IncreaseQueue str i32
  | DecreaseQueue str i32
  | EnableBatching str
  | AdjustBackpressure ieee

text \<open>\<open>{}\<close> of an \<open>i32\<close>; \<open>fmt2\<close> is the standard library's \<open>{:.2}\<close>.\<close>

definition show_i32 :: "i32 \<Rightarrow> str" where
  "show_i32 n = (if n < 0 then lit ''-'' @ show_nat (nat (- n)) else show_nat (nat n))"

definition predicted_description :: "(ieee \<Rightarrow> str) \<Rightarrow> predicted_action \<Rightarrow> str" where
  "predicted_description fmt2 action =
     (case action of
        NoOp \<Rightarrow> lit ''No action''
      | IncreaseQueue st delta \<Rightarrow> lit ''Increase '' @ st @ lit '' queue by '' @ show_i32 delta
      | DecreaseQueue st delta \<Rightarrow> lit ''Decrease '' @ st @ lit '' queue by '' @ show_i32 delta
      | EnableBatching st \<Rightarrow> lit ''Enable batching for '' @ st
      | AdjustBackpressure threshold \<Rightarrow> lit ''Set backpressure to '' @ fmt2 threshold)"

record ml_prediction =
  pr_action :: predicted_action
  confidence :: ieee
  predicted_p99_ns :: nat
  model_version :: str

text \<open>Durations and instants are in nanoseconds.\<close>

record ml_bridge_config =
  endpoint :: "str option"
  timeout :: nat
  cache_duration :: nat
  min_confidence :: ieee
  fallback_enabled :: bool

definition config_default :: ml_bridge_config where
  "config_default =
     \<lparr> endpoint = None, timeout = 100000000, cache_duration = 5000000000,
       min_confidence = f32_lit (7 / 10), fallback_enabled = True \<rparr>"

record cached_prediction =
  cached_value :: ml_prediction
  timestamp :: nat

record ml_bridge =
  config :: ml_bridge_config
  window :: metrics_window
  cache :: "(str \<times> cached_prediction) list"
  prediction_count :: u64
  fallback_count :: u64
  enabled :: bool

definition bridge_new :: "ml_bridge_config \<Rightarrow> ml_bridge" where
  "bridge_new cfg =
     \<lparr> config = cfg, window = window_new 60, cache = [], prediction_count = 0, fallback_count = 0,
       enabled = True \<rparr>"

section \<open>Operations\<close>

definition add_features :: "feature_vector \<Rightarrow> ml_bridge \<Rightarrow> ml_bridge" where
  "add_features v b = b\<lparr>window := window_push v (window b)\<rparr>"

definition heuristic_action :: "feature_vector \<Rightarrow> predicted_action \<times> ieee" where
  "heuristic_action v =
     (if fp_less (f32_lit (1 / 2)) (p99_latency v) \<and> fp_less (queue_depth v) (f32_lit (3 / 10))
      then (EnableBatching (lit ''parse''), f32_lit (8 / 10))
      else if fp_less (f32_lit (1 / 2)) (p99_latency v) \<and> fp_less (f32_lit (7 / 10)) (queue_depth v)
      then (IncreaseQueue (lit ''app'') (fp_to_i32 (fp_mul f32 (queue_depth v) (f32_lit 100))), f32_lit (85 / 100))
      else if fp_less (f32_lit (8 / 10)) (memory_pressure v) \<and> fp_less (throughput v) (f32_lit (3 / 10))
      then (DecreaseQueue (lit ''all'') 50, f32_lit (75 / 100))
      else if fp_less (f32_lit (1 / 10)) (error_rate v)
      then (AdjustBackpressure (f32_lit (8 / 10)), f32_lit (9 / 10))
      else if fp_less (p99_latency v) (f32_lit (2 / 10)) \<and> fp_less (queue_depth v) (f32_lit (1 / 2))
      then (NoOp, f32_lit (95 / 100))
      else (NoOp, f32_lit (1 / 2)))"

definition U64_MAX :: nat where "U64_MAX = 2 ^ 64 - 1"

definition heuristic_predict :: "feature_vector \<Rightarrow> ml_prediction" where
  "heuristic_predict v =
     (case heuristic_action v of
        (action, conf) \<Rightarrow>
          \<lparr> pr_action = action, confidence = conf,
            predicted_p99_ns =
              (if action = NoOp
               then fp_to_unsigned U64_MAX (fp_mul f32 (p99_latency v) (f32_lit 10000000))
               else fp_to_unsigned U64_MAX
                 (fp_mul f32 (fp_mul f32 (p99_latency v) (f32_lit (8 / 10))) (f32_lit 10000000))),
            model_version = lit ''heuristic-v1'' \<rparr>)"

definition get_cached_prediction :: "nat \<Rightarrow> ml_bridge \<Rightarrow> ml_prediction option" where
  "get_cached_prediction now b =
     (case hm_get (lit ''latest'') (cache b) of
        Some c \<Rightarrow> if now - timestamp c < cache_duration (config b) then Some (cached_value c) else None
      | None \<Rightarrow> None)"

definition cache_prediction :: "nat \<Rightarrow> ml_prediction \<Rightarrow> ml_bridge \<Rightarrow> ml_bridge" where
  "cache_prediction now p b =
     b\<lparr>cache := hm_insert (lit ''latest'') \<lparr> cached_value = p, timestamp = now \<rparr> (cache b)\<rparr>"

definition predict :: "nat \<Rightarrow> nat \<Rightarrow> ml_bridge \<Rightarrow> ml_bridge \<times> (ml_bridge_error + ml_prediction)" where
  "predict now_read now_store b =
     (if \<not> enabled b then (b, Inl ModelUnavailable)
      else case get_cached_prediction now_read b of
        Some p \<Rightarrow> (b, Inr p)
      | None \<Rightarrow>
          (case latest (window b) of
             None \<Rightarrow> (b, Inl (InvalidInput (lit ''No features available'')))
           | Some v \<Rightarrow>
               let p = heuristic_predict v
               in (cache_prediction now_store p (b\<lparr>prediction_count := prediction_count b + 1\<rparr>), Inr p)))"

definition predict_if_confident :: "nat \<Rightarrow> nat \<Rightarrow> ml_bridge \<Rightarrow> ml_bridge \<times> ml_prediction option" where
  "predict_if_confident now_read now_store b =
     (case predict now_read now_store b of
        (b', Inr p) \<Rightarrow>
          if fp_le (min_confidence (config b')) (confidence p) then (b', Some p)
          else (b'\<lparr>fallback_count := fallback_count b' + 1\<rparr>, None)
      | (b', Inl _) \<Rightarrow> (b'\<lparr>fallback_count := fallback_count b' + 1\<rparr>, None))"

definition set_enabled :: "bool \<Rightarrow> ml_bridge \<Rightarrow> ml_bridge" where
  "set_enabled e b = b\<lparr>enabled := e\<rparr>"

record ml_bridge_stats =
  st_prediction_count :: u64
  st_fallback_count :: u64
  st_window_size :: usize

definition bridge_stats :: "ml_bridge \<Rightarrow> ml_bridge_stats" where
  "bridge_stats b =
     \<lparr> st_prediction_count = prediction_count b, st_fallback_count = fallback_count b,
       st_window_size = window_len (window b) \<rparr>"

section \<open>Literals and their order\<close>

text \<open>Literals keep the order of the decimals, and those with few binary digits are exact.\<close>

lemma f32_lit_num:
  assumes "0 \<le> q" and "q \<le> 2 ^ 64"
  shows "f32_lit q = Num False (round_mag f32 q)"
proof -
  have "(2 :: rat) ^ 64 = 2 powi 64" by simp
  then have "round_mag f32 q \<le> round_mag f32 (2 powi 64)" using assms by (intro round_mag_mono) simp_all
  also have "\<dots> = 2 powi 64" by (intro round_mag_representable representable_pow2) simp_all
  finally have "round_mag f32 q < 2 powi 128" by (rule le_less_trans) (simp only: pow2_less)
  then show ?thesis by (simp add: f32_lit_def fp_def Let_def)
qed

lemma representable_f32: "0 \<le> n \<Longrightarrow> n < 2 ^ 24 \<Longrightarrow> - 149 \<le> k \<Longrightarrow> representable f32 (of_int n * 2 powi k)"
  unfolding representable_def by (intro exI [of _ n] exI [of _ k]) simp

lemma round_f32_exact:
  "round_mag f32 (1 / 2) = 1 / 2" "round_mag f32 (5 / 8) = 5 / 8" "round_mag f32 100 = 100"
  "round_mag f32 10000000 = 10000000" "round_mag f32 70 = 70"
proof -
  have "round_mag f32 (of_int 1 * 2 powi (- 1)) = of_int 1 * 2 powi (- 1)"
    "round_mag f32 (of_int 5 * 2 powi (- 3)) = of_int 5 * 2 powi (- 3)"
    "round_mag f32 (of_int 100 * 2 powi 0) = of_int 100 * 2 powi 0"
    "round_mag f32 (of_int 10000000 * 2 powi 0) = of_int 10000000 * 2 powi 0"
    "round_mag f32 (of_int 70 * 2 powi 0) = of_int 70 * 2 powi 0"
    by (intro round_mag_representable representable_f32; simp)+
  then show "round_mag f32 (1 / 2) = 1 / 2" "round_mag f32 (5 / 8) = 5 / 8" "round_mag f32 100 = 100"
    "round_mag f32 10000000 = 10000000" "round_mag f32 70 = 70"
    by (simp_all add: power_int_minus)
qed

lemma f32_lit_le:
  assumes "0 \<le> q" and "q \<le> r" and "r \<le> 1"
  shows "fp_le (f32_lit q) (f32_lit r)"
proof -
  have "round_mag f32 q \<le> round_mag f32 r" using assms by (intro round_mag_mono) simp_all
  with assms show ?thesis by (simp add: f32_lit_num signed_def)
qed

lemma low_confidence: "\<not> fp_le (f32_lit (7 / 10)) (f32_lit (1 / 2))"
proof -
  have "round_mag f32 (5 / 8) \<le> round_mag f32 (7 / 10)" by (intro round_mag_mono) simp_all
  then show ?thesis by (simp add: f32_lit_num signed_def round_f32_exact)
qed

section \<open>Predictions\<close>

text \<open>The result of a product with a number from zero to one.\<close>

lemma mul_unit:
  assumes "in_unit x" and "0 \<le> r" and "r \<le> 2 ^ 64" and "round_mag f32 r = r"
  shows "\<exists>s q. fp_mul f32 x (Num False r) = Num s q \<and> 0 \<le> q \<and> q \<le> r"
proof -
  from assms(1) obtain s q where x: "x = Num s q" "0 \<le> q" "q \<le> 1" by (auto simp: in_unit_def)
  have qr: "0 \<le> q * r" "q * r \<le> r" using x(2,3) assms(2) by (simp_all add: mult_left_le_one_le)
  have "round_mag f32 (q * r) \<le> r" using round_mag_mono [OF qr, of f32] assms(4) by simp
  moreover have "r < 2 powi 128"
  proof -
    have "(2 :: rat) ^ 64 = 2 powi 64" by simp
    also have "\<dots> < 2 powi 128" by (simp only: pow2_less)
    finally show ?thesis using assms(3) by linarith
  qed
  ultimately show ?thesis using round_mag_nonneg [OF qr(1), of f32] by (simp add: x fp_def Let_def)
qed

lemma unsigned_le:
  assumes "q \<le> of_nat n"
  shows "fp_to_unsigned most (Num s q) \<le> n"
proof -
  have "\<lfloor>q\<rfloor> \<le> int n" using assms by (metis floor_mono floor_of_nat)
  then have "nat \<lfloor>q\<rfloor> \<le> n" by linarith
  then show ?thesis by (simp add: min.coboundedI2)
qed

lemma f32_lit_unit_num: "0 \<le> q \<Longrightarrow> q \<le> 1 \<Longrightarrow> f32_lit q = Num False (round_mag f32 q) \<and> round_mag f32 q \<le> 1"
  using round_mag_mono [of q 1 f32] by (simp add: f32_lit_num round_mag_one)

lemma predicted_p99_bound:
  assumes "in_unit (p99_latency v)"
  shows "predicted_p99_ns (heuristic_predict v) \<le> 10000000"
proof -
  have exact: "f32_lit 10000000 = Num False 10000000"
    by (subst f32_lit_num) (simp_all add: round_f32_exact)
  have bound: "fp_to_unsigned U64_MAX (fp_mul f32 x (f32_lit 10000000)) \<le> 10000000" if x: "in_unit x" for x
  proof -
    obtain s q where "fp_mul f32 x (Num False 10000000) = Num s q" "q \<le> of_nat 10000000"
      using mul_unit [OF x, of 10000000] round_f32_exact(4) by auto
    with unsigned_le [of q 10000000 U64_MAX s] show ?thesis unfolding exact by simp
  qed
  from assms obtain s q where x: "p99_latency v = Num s q" "0 \<le> q" "q \<le> 1" "s \<longrightarrow> q = 0"
    by (auto simp: in_unit_def)
  define r where "r = round_mag f32 (8 / 10)"
  have r: "f32_lit (8 / 10) = Num False r" "0 \<le> r" "r \<le> 1"
    using f32_lit_unit_num [of "8 / 10"] round_mag_nonneg [of "8 / 10" f32] by (simp_all add: r_def)
  have "0 \<le> q * r" "q * r \<le> 1" using x r by (simp_all add: mult_le_one)
  then have "fp_mul f32 (p99_latency v) (f32_lit (8 / 10)) = Num s (round_mag f32 (q * r))
      \<and> 0 \<le> round_mag f32 (q * r) \<and> round_mag f32 (q * r) \<le> 1"
    using cast_unit_num [of "q * r" s] round_mag_mono [of "q * r" 1 f32] round_mag_nonneg [of "q * r" f32] x
    unfolding r(1) by (simp add: round_mag_one)
  then have "in_unit (fp_mul f32 (p99_latency v) (f32_lit (8 / 10)))" using x(4) by (auto simp: in_unit_def)
  with bound [OF assms] bound [OF this] show ?thesis by (simp add: heuristic_predict_def split: prod.split)
qed

text \<open>Numbers of format \<open>f32\<close> from one half to one are multiples of \<open>2 ^ - 24\<close>.\<close>

lemma f32_grid:
  assumes "representable f32 q" and "1 / 2 \<le> q"
  shows "\<exists>m. q = of_int m / 2 ^ 24"
proof -
  from assms(1) obtain n k where n: "q = of_int n * 2 powi k" "0 \<le> n" "n < 2 ^ 24"
    by (auto simp: representable_def)
  have "(of_int n :: rat) < of_int (2 ^ 24)" using n(3) by (simp only: of_int_less_iff)
  then have "(of_int n :: rat) < 2 powi 24" by simp
  then have "q < 2 powi 24 * 2 powi k" unfolding n(1) by (intro mult_strict_right_mono) simp_all
  then have "(1 / 2 :: rat) < 2 powi (24 + k)" using assms(2) by (simp add: power_int_add)
  moreover have "(1 / 2 :: rat) = 2 powi (- 1)" by (simp add: power_int_minus)
  ultimately have "(2 :: rat) powi (- 1) < 2 powi (24 + k)" by (simp only:)
  then have k: "- 24 \<le> k" by (simp only: pow2_less)
  have "(2 powi k :: rat) = 2 powi (k + 24) / 2 powi 24" by (simp add: power_int_add)
  also have "\<dots> = of_int (2 ^ nat (k + 24)) / 2 ^ 24" using k by (simp add: power_int_def)
  finally have "q = of_int (n * 2 ^ nat (k + 24)) / 2 ^ 24" unfolding n(1) by simp
  then show ?thesis by blast
qed

lemma round_seven_tenths: "round_mag f32 (7 / 10) = 11744051 / 2 ^ 24"
proof -
  have "expo (7 / 10) = - 1" by (rule expo_eqI) (simp_all add: power_int_minus)
  then have u: "ulp_exp f32 (7 / 10) = - 24" by (simp add: ulp_exp_def)
  have "\<lfloor>58720256 / 5 :: rat\<rfloor> = 11744051" by (simp add: floor_eq_iff)
  then have "rne (58720256 / 5) = 11744051" by (simp add: rne_def Let_def)
  then show ?thesis unfolding round_mag_def u by (simp add: power_int_minus)
qed

lemma queue_delta_bounds:
  assumes "in_unit x" and "ieee_wf f32 x" and "fp_less (f32_lit (7 / 10)) x"
  shows "70 \<le> fp_to_i32 (fp_mul f32 x (f32_lit 100)) \<and> fp_to_i32 (fp_mul f32 x (f32_lit 100)) \<le> 100"
proof -
  from assms(1) obtain s q where x: "x = Num s q" "0 \<le> q" "q \<le> 1" "s \<longrightarrow> q = 0" by (auto simp: in_unit_def)
  have lit7: "f32_lit (7 / 10) = Num False (11744051 / 2 ^ 24)"
    by (subst f32_lit_num) (simp_all add: round_seven_tenths)
  have less: "11744051 / 2 ^ 24 < signed s q" using assms(3) unfolding lit7 x(1) by (simp add: signed_def)
  then have s: "\<not> s" and q: "11744051 / 2 ^ 24 < q" using x(2,4) by (auto simp: signed_def split: if_splits)
  have "representable f32 q" using assms(2) by (simp add: x(1) ieee_wf_def)
  moreover have "1 / 2 \<le> q" using q by simp
  ultimately obtain m where m: "q = of_int m / 2 ^ 24" using f32_grid by blast
  with q have "(11744051 :: rat) < of_int m" by (simp add: divide_less_cancel)
  then have "11744051 < m" by linarith
  then have "(11744052 :: rat) \<le> of_int m" by linarith
  then have "70 \<le> q * 100" by (simp add: m)
  moreover have "q * 100 \<le> 100" using x(3) by simp
  ultimately have r: "70 \<le> round_mag f32 (q * 100)" "round_mag f32 (q * 100) \<le> 100"
    using round_mag_mono [of 70 "q * 100" f32] round_mag_mono [of "q * 100" 100 f32] x(2)
    by (simp_all add: round_f32_exact)
  have "(100 :: rat) < 2 powi 128"
  proof -
    have "(100 :: rat) < 2 powi 7" by simp
    also have "\<dots> < 2 powi 128" by (simp only: pow2_less)
    finally show ?thesis .
  qed
  with r(2) have "\<not> 2 powi 128 \<le> round_mag f32 (q * 100)" by linarith
  moreover have "f32_lit 100 = Num False 100" by (subst f32_lit_num) (simp_all add: round_f32_exact)
  ultimately have "fp_mul f32 x (f32_lit 100) = Num False (round_mag f32 (q * 100))"
    using s by (simp add: x(1) fp_def Let_def)
  moreover have "70 \<le> \<lfloor>round_mag f32 (q * 100)\<rfloor>" "\<lfloor>round_mag f32 (q * 100)\<rfloor> \<le> 100"
    using r by (simp_all add: le_floor_iff floor_le_iff)
  ultimately show ?thesis by simp
qed

lemma confidence_unit: "in_unit (confidence (heuristic_predict v)) \<and> ieee_wf f32 (confidence (heuristic_predict v))"
  by (simp add: heuristic_predict_def heuristic_action_def f32_lit_unit)

section \<open>The cache\<close>

lemma add_features_cache [simp]:
  "cache (add_features v b) = cache b" "config (add_features v b) = config b"
  "enabled (add_features v b) = enabled b" "prediction_count (add_features v b) = prediction_count b"
  "fallback_count (add_features v b) = fallback_count b"
  by (simp_all add: add_features_def)

lemma predict_fields:
  "predict r s b = (b', x) \<Longrightarrow> config b' = config b \<and> enabled b' = enabled b \<and> fallback_count b' = fallback_count b
     \<and> window b' = window b"
  by (auto simp: predict_def cache_prediction_def Let_def split: if_splits option.splits)

text \<open>Calls on a bridge, each with its clock readings.\<close>

datatype bridge_call =
    AddFeatures feature_vector
  | Predict nat nat
  | PredictConfident nat nat
  | SetEnabled bool

fun bridge_step :: "bridge_call \<Rightarrow> ml_bridge \<Rightarrow> ml_bridge" where
  "bridge_step (AddFeatures v) b = add_features v b"
| "bridge_step (Predict r s) b = fst (predict r s b)"
| "bridge_step (PredictConfident r s) b = fst (predict_if_confident r s b)"
| "bridge_step (SetEnabled e) b = set_enabled e b"

text \<open>The clock never goes back; \<open>clock_after\<close> is its last reading.\<close>

fun clock_ok :: "nat \<Rightarrow> bridge_call list \<Rightarrow> bool" where
  "clock_ok t [] = True"
| "clock_ok t (Predict r s # cs) = (t \<le> r \<and> r \<le> s \<and> clock_ok s cs)"
| "clock_ok t (PredictConfident r s # cs) = (t \<le> r \<and> r \<le> s \<and> clock_ok s cs)"
| "clock_ok t (_ # cs) = clock_ok t cs"

fun clock_after :: "nat \<Rightarrow> bridge_call list \<Rightarrow> nat" where
  "clock_after t [] = t"
| "clock_after t (Predict r s # cs) = clock_after s cs"
| "clock_after t (PredictConfident r s # cs) = clock_after s cs"
| "clock_after t (_ # cs) = clock_after t cs"

text \<open>
  The evaluations of the model, seen from outside: the calls that change the prediction counter, each
  with the reading of the clock at which it looks into the cache and the one it stores.
\<close>

fun call_times :: "bridge_call \<Rightarrow> nat \<times> nat" where
  "call_times (Predict r s) = (r, s)"
| "call_times (PredictConfident r s) = (r, s)"
| "call_times _ = (0, 0)"

fun evaluations :: "bridge_call list \<Rightarrow> ml_bridge \<Rightarrow> (nat \<times> nat) list" where
  "evaluations [] b = []"
| "evaluations (a # cs) b =
     (if prediction_count (bridge_step a b) \<noteq> prediction_count b then [call_times a] else [])
       @ evaluations cs (bridge_step a b)"

text \<open>The first is finished at least \<open>d\<close> before the second begins.\<close>

definition apart :: "nat \<Rightarrow> nat \<times> nat \<Rightarrow> nat \<times> nat \<Rightarrow> bool" where
  "apart d e e' \<longleftrightarrow> snd e + d \<le> fst e'"

text \<open>At time \<open>t\<close> the cache holds the evaluation \<open>e\<close>, the latest, if there has been one.\<close>

definition cached_at :: "nat \<Rightarrow> (nat \<times> nat) option \<Rightarrow> ml_bridge \<Rightarrow> bool" where
  "cached_at t e b \<longleftrightarrow>
     (case e of
        None \<Rightarrow> cache b = []
      | Some (r, s) \<Rightarrow> s \<le> t \<and> (\<exists>p. cache b = [(lit ''latest'', \<lparr> cached_value = p, timestamp = s \<rparr>)]))"

lemma cached_at_cong: "cache b' = cache b \<Longrightarrow> cached_at t e b' = cached_at t e b"
  by (cases e) (auto simp: cached_at_def)

lemma predict_cached:
  assumes "cached_at t e b" and "t \<le> r" "r \<le> s" and "predict r s b = (b', x)"
  shows "config b' = config b
    \<and> (prediction_count b' = prediction_count b \<and> cached_at s e b'
      \<or> prediction_count b' = prediction_count b + 1 \<and> cached_at s (Some (r, s)) b'
        \<and> (\<forall>e1. e = Some e1 \<longrightarrow> apart (cache_duration (config b)) e1 (r, s)))"
proof (cases "enabled b \<and> get_cached_prediction r b = None \<and> latest (window b) \<noteq> None")
  case False
  then have "b' = b" using assms(4) by (auto simp: predict_def split: if_splits option.splits)
  with assms(1-3) show ?thesis by (auto simp: cached_at_def split: option.splits)
next
  case True
  then obtain v where b': "b' = cache_prediction s (heuristic_predict v) (b\<lparr>prediction_count := prediction_count b + 1\<rparr>)"
    using assms(4) by (auto simp: predict_def Let_def)
  have "apart (cache_duration (config b)) e1 (r, s)" if "e = Some e1" for e1
    using True assms(1,2) that
    by (cases e1) (auto simp: cached_at_def apart_def get_cached_prediction_def hm_get_def split: if_splits)
  moreover have "cached_at s (Some (r, s)) b'"
    using assms(1) by (auto simp: b' cached_at_def cache_prediction_def hm_insert_def split: option.splits)
  ultimately show ?thesis by (simp add: b' cache_prediction_def)
qed

lemma predict_if_confident_predict:
  "predict_if_confident r s b = (b', x) \<Longrightarrow> \<exists>b1 y. predict r s b = (b1, y)
     \<and> (b' = b1 \<or> b' = b1\<lparr>fallback_count := fallback_count b1 + 1\<rparr>)"
  by (auto simp: predict_if_confident_def split: prod.splits sum.splits if_splits)

text \<open>One call: no evaluation, or one that is apart from the latest.\<close>

lemma call_cached:
  assumes "cached_at t e b" and "clock_ok t (a # cs)"
  shows "config (bridge_step a b) = config b
    \<and> (prediction_count (bridge_step a b) = prediction_count b \<and> cached_at (clock_after t [a]) e (bridge_step a b)
      \<or> prediction_count (bridge_step a b) = prediction_count b + 1
        \<and> cached_at (clock_after t [a]) (Some (call_times a)) (bridge_step a b)
        \<and> (\<forall>e1. e = Some e1 \<longrightarrow> apart (cache_duration (config b)) e1 (call_times a)))
    \<and> (fst (call_times a) \<le> snd (call_times a))"
proof (cases a)
  case (Predict r s)
  from predict_cached [OF assms(1), of r s "fst (predict r s b)" "snd (predict r s b)"] assms(2) Predict
  show ?thesis by simp
next
  case (PredictConfident r s)
  obtain b' x where p: "predict_if_confident r s b = (b', x)" by (cases "predict_if_confident r s b")
  from predict_if_confident_predict [OF this] obtain b1 y where
    b1: "predict r s b = (b1, y)" "b' = b1 \<or> b' = b1\<lparr>fallback_count := fallback_count b1 + 1\<rparr>" by blast
  have "cache b' = cache b1" "config b' = config b1" "prediction_count b' = prediction_count b1"
    using b1(2) by auto
  with predict_cached [OF assms(1) _ _ b1(1)] assms(2) PredictConfident p show ?thesis
    by (simp add: cached_at_cong [of b' b1])
qed (use assms(1) cached_at_cong [of "bridge_step a b" b t e] in \<open>simp_all add: set_enabled_def\<close>)

lemma clock_ok_tail: "clock_ok t (a # cs) \<Longrightarrow> clock_ok (clock_after t [a]) cs"
  by (cases a) simp_all

lemma evaluations_apart:
  assumes "cached_at t e b" and "clock_ok t cs"
  shows "sorted_wrt (apart (cache_duration (config b))) (case e of None \<Rightarrow> evaluations cs b | Some e1 \<Rightarrow> e1 # evaluations cs b)
    \<and> (\<forall>x \<in> set (evaluations cs b). fst x \<le> snd x)
    \<and> prediction_count (fold bridge_step cs b) = prediction_count b + of_nat (length (evaluations cs b))"
  using assms
proof (induction cs arbitrary: t e b)
  case (Cons a cs)
  let ?b = "bridge_step a b" and ?d = "cache_duration (config b)"
  note call = call_cached [OF Cons.prems]
  from call consider
    "prediction_count ?b = prediction_count b" "cached_at (clock_after t [a]) e ?b"
    | "prediction_count ?b = prediction_count b + 1" "cached_at (clock_after t [a]) (Some (call_times a)) ?b"
      "\<forall>e1. e = Some e1 \<longrightarrow> apart ?d e1 (call_times a)" by blast
  then show ?case
  proof cases
    case 1
    from Cons.IH [OF 1(2) clock_ok_tail [OF Cons.prems(2)]] 1(1) call show ?thesis by (cases e) simp_all
  next
    case 2
    note IH = Cons.IH [OF 2(2) clock_ok_tail [OF Cons.prems(2)]]
    have evs: "evaluations (a # cs) b = call_times a # evaluations cs ?b" using 2(1) by simp
    have "apart ?d e1 x" if "e = Some e1" "x \<in> set (evaluations cs ?b)" for e1 x
      using 2(3) that call IH by (auto simp: apart_def)
    with IH call 2 show ?thesis unfolding evs by (auto split: option.splits)
  qed
qed (simp split: option.splits)

section \<open>Properties\<close>

text \<open>
  Predictions are within bounds. For features in range the heuristic model recommends to
  grow a queue by 70 to 100, never less although the threshold 0.7 and the product are rounded,
  predicts a latency of at most ten milliseconds, and gives a confidence between zero and one.
\<close>

lemma prediction_bounds:
  assumes "\<forall>x \<in> set [p99_latency v, queue_depth v]. in_unit x \<and> ieee_wf f32 x"
  shows "predicted_p99_ns (heuristic_predict v) \<le> 10000000
    \<and> in_unit (confidence (heuristic_predict v)) \<and> ieee_wf f32 (confidence (heuristic_predict v))
    \<and> (\<forall>stg delta. pr_action (heuristic_predict v) = IncreaseQueue stg delta \<longrightarrow> 70 \<le> delta \<and> delta \<le> 100)"
proof -
  have "70 \<le> delta \<and> delta \<le> 100" if "pr_action (heuristic_predict v) = IncreaseQueue stg delta" for stg delta
    using that queue_delta_bounds [of "queue_depth v"] assms
    by (auto simp: heuristic_predict_def heuristic_action_def split: if_splits)
  with predicted_p99_bound [of v] confidence_unit [of v] assms show ?thesis by simp
qed

theorem prediction_bounds_witness:
  "predicted_p99_ns (heuristic_predict (feature_zeros\<lparr>p99_latency := one_f, queue_depth := one_f\<rparr>)) \<le> 10000000"
proof -
  have "in_unit one_f" by (auto simp: in_unit_def intro: exI [of _ False])
  moreover have "representable f32 1" using representable_pow2 [of f32 0] by simp
  moreover have "(1 :: rat) < 2 powi 128" by (metis pow2_less power_int_0_right zero_less_numeral)
  ultimately have "\<forall>x \<in> set [p99_latency (feature_zeros\<lparr>p99_latency := one_f, queue_depth := one_f\<rparr>),
      queue_depth (feature_zeros\<lparr>p99_latency := one_f, queue_depth := one_f\<rparr>)]. in_unit x \<and> ieee_wf f32 x"
    by (simp add: ieee_wf_def)
  from prediction_bounds [OF this] show ?thesis by simp
qed

text \<open>
  C38: The model is never evaluated twice within one cache duration. Whatever calls are made on a new
  bridge, with a clock that does not go back: of any two evaluations of the model, the later one looks
  into the cache at least a cache duration after the earlier one has stored its result; and the
  prediction counter is the number of evaluations (modulo the wrap-around of its 64 bits). An
  evaluation is a call that changes this counter.
\<close>

theorem predictions_rate_limited:
  assumes "clock_ok t0 cs"
  shows "(\<forall>i j. i < j \<longrightarrow> j < length (evaluations cs (bridge_new cfg)) \<longrightarrow>
      snd (evaluations cs (bridge_new cfg) ! i) + cache_duration cfg \<le> fst (evaluations cs (bridge_new cfg) ! j))
    \<and> prediction_count (fold bridge_step cs (bridge_new cfg)) = of_nat (length (evaluations cs (bridge_new cfg)))"
proof -
  have "cached_at t0 None (bridge_new cfg)" by (simp add: cached_at_def bridge_new_def)
  from evaluations_apart [OF this assms] show ?thesis
    by (simp add: sorted_wrt_iff_nth_less apart_def) (simp add: bridge_new_def)
qed

theorem predictions_rate_limited_witness:
  "(let cs = [AddFeatures feature_zeros, Predict 5 6, AddFeatures feature_zeros, PredictConfident 7 9,
      SetEnabled True, Predict 9000000000 9000000001]
    in evaluations cs (bridge_new config_default) = [(5, 6), (9000000000, 9000000001)]
      \<and> (6 :: nat) + 5000000000 \<le> 9000000000
      \<and> prediction_count (fold bridge_step cs (bridge_new config_default)) = 2)"
proof -
  let ?cs = "[AddFeatures feature_zeros, Predict 5 6, AddFeatures feature_zeros, PredictConfident 7 9,
    SetEnabled True, Predict 9000000000 9000000001]"
  have evs: "evaluations ?cs (bridge_new config_default) = [(5, 6), (9000000000, 9000000001)]"
    by (simp add: bridge_new_def config_default_def predict_def predict_if_confident_def get_cached_prediction_def
      cache_prediction_def add_features_def set_enabled_def hm_get_def hm_insert_def latest_def window_push_def
      window_new_def push_bounded_def Let_def)
  have "clock_ok 0 ?cs" by simp
  note limit = predictions_rate_limited [OF this, of config_default, unfolded evs]
  from limit [THEN conjunct1, rule_format, of 0 1] limit [THEN conjunct2] show ?thesis
    unfolding Let_def evs by (simp add: config_default_def del: fold.simps)
qed

text \<open>
  When a confident prediction is given. With the default configuration and a cache that
  holds nothing, \<open>predict_if_confident\<close> returns the model's prediction exactly when one of its
  five rules applies to the newest features, counting no fallback; in every other case (disabled,
  no features, no rule) it returns nothing and counts one fallback.
\<close>

lemma confident_prediction:
  assumes "config b = config_default" and "cache b = []"
  shows "(case latest (window b) of
      Some v \<Rightarrow>
        if enabled b \<and> heuristic_action v \<noteq> (NoOp, f32_lit (1 / 2))
        then snd (predict_if_confident r s b) = Some (heuristic_predict v)
          \<and> fallback_count (fst (predict_if_confident r s b)) = fallback_count b
        else snd (predict_if_confident r s b) = None
          \<and> fallback_count (fst (predict_if_confident r s b)) = fallback_count b + 1
    | None \<Rightarrow> snd (predict_if_confident r s b) = None
        \<and> fallback_count (fst (predict_if_confident r s b)) = fallback_count b + 1)"
proof -
  have rule: "fp_le (f32_lit (7 / 10)) (snd (heuristic_action v)) \<longleftrightarrow> heuristic_action v \<noteq> (NoOp, f32_lit (1 / 2))" for v
  proof -
    have "snd (heuristic_action v) \<in> {f32_lit (8 / 10), f32_lit (85 / 100), f32_lit (75 / 100), f32_lit (9 / 10), f32_lit (95 / 100)}
        \<or> heuristic_action v = (NoOp, f32_lit (1 / 2))" by (simp add: heuristic_action_def)
    moreover have "fp_le (f32_lit (7 / 10)) x"
      if "x \<in> {f32_lit (8 / 10), f32_lit (85 / 100), f32_lit (75 / 100), f32_lit (9 / 10), f32_lit (95 / 100)}" for x
      using that by (elim insertE) (simp_all add: f32_lit_le)
    ultimately show ?thesis using low_confidence by fastforce
  qed
  have none: "get_cached_prediction r b = None" using assms(2) by (simp add: get_cached_prediction_def)
  have conf: "confidence (heuristic_predict v) = snd (heuristic_action v)" for v
    by (simp add: heuristic_predict_def split: prod.split)
  show ?thesis
  proof (cases "latest (window b)")
    case None
    then show ?thesis by (simp add: predict_if_confident_def predict_def none)
  next
    case (Some v)
    let ?b = "cache_prediction s (heuristic_predict v) (b\<lparr>prediction_count := prediction_count b + 1\<rparr>)"
    show ?thesis
    proof (cases "enabled b")
      case True
      then have "predict r s b = (?b, Inr (heuristic_predict v))" by (simp add: predict_def none Some Let_def)
      moreover have "min_confidence (config ?b) = f32_lit (7 / 10)" "fallback_count ?b = fallback_count b"
        using assms(1) by (simp_all add: cache_prediction_def config_default_def)
      ultimately show ?thesis using True rule [of v] low_confidence by (simp add: predict_if_confident_def conf Some)
    next
      case False
      then show ?thesis by (simp add: predict_if_confident_def predict_def Some)
    qed
  qed
qed

theorem confident_prediction_witness:
  "snd (predict_if_confident 1 2 (bridge_new config_default)) = None"
  using confident_prediction [of "bridge_new config_default" 1 2]
  by (simp add: bridge_new_def window_new_def latest_def)

text \<open>
  A cached prediction hides the metrics. Once a prediction has been stored, every call within
  the cache period returns it again, whatever features have been added since, and changes
  nothing.
\<close>

lemma cached_prediction_repeats:
  assumes "predict r s b = (b', Inr p)" and "get_cached_prediction r b = None"
    and "now - s < cache_duration (config b)"
  shows "predict now later (fold add_features vs b') = (fold add_features vs b', Inr p)"
proof -
  have keep: "cache (fold add_features vs c) = cache c" "config (fold add_features vs c) = config c"
    "enabled (fold add_features vs c) = enabled c" for vs c
    by (induction vs arbitrary: c) simp_all
  from assms(1,2) have "enabled b" "cache b' = hm_insert (lit ''latest'') \<lparr> cached_value = p, timestamp = s \<rparr> (cache b)"
    by (auto simp: predict_def cache_prediction_def Let_def split: if_splits option.splits)
  moreover have "config b' = config b" "enabled b' = enabled b" using predict_fields [OF assms(1)] by simp_all
  ultimately show ?thesis
    using assms(3) by (simp add: predict_def get_cached_prediction_def keep hm_get_insert)
qed

theorem cached_prediction_repeats_witness:
  "\<exists>b' p. predict 5 6 (add_features feature_zeros (bridge_new config_default)) = (b', Inr p)
    \<and> snd (predict 100 101 (add_features (feature_zeros\<lparr>error_rate := one_f\<rparr>) b')) = Inr p"
proof -
  let ?b = "add_features feature_zeros (bridge_new config_default)"
  have none: "get_cached_prediction 5 ?b = None" by (simp add: get_cached_prediction_def bridge_new_def)
  have "latest (window ?b) = Some feature_zeros"
    by (simp add: add_features_def bridge_new_def window_push_def window_new_def push_bounded_def latest_def)
  with none obtain b' p where p: "predict 5 6 ?b = (b', Inr p)"
    by (simp add: predict_def bridge_new_def Let_def)
  from cached_prediction_repeats [OF p none, of 100 101 "[feature_zeros\<lparr>error_rate := one_f\<rparr>]"] p
  show ?thesis by (auto simp: bridge_new_def config_default_def)
qed

end
