(* ===== verification/Defaults.thy ===== *)
theory Defaults
  imports H2_Connection Http_Parser Sharded_Slab Io_Mux Tuner Ml_Bridge
begin

text \<open>
  The \<open>Default\<close> implementations of the sources and the methods that read or hand out a field, one
  definition each, in the order of the crates; \<open>now\<close> is the clock reading in a constructor.
\<close>

section \<open>The crate \<open>ners-core\<close>\<close>

definition analyzer_default :: metrics_analyzer where
  "analyzer_default = analyzer_new rules_default"

definition conservative_default :: "int \<Rightarrow> conservative_policy" where
  "conservative_default now = conservative_new now rules_default"

definition aggressive_default :: "int \<Rightarrow> aggressive_policy" where
  "aggressive_default now = aggressive_new now rules_default"

text \<open>The trait \<open>TuningPolicy\<close> as an object: \<open>analyze\<close> over the state of the policy, and its name.\<close>

record 'p policy_object =
  po_analyze :: "int \<Rightarrow> int \<Rightarrow> metrics_snapshot \<Rightarrow> metrics_analyzer \<Rightarrow> 'p \<Rightarrow> tuning_action list \<times> 'p"
  po_name :: str

definition conservative_object :: "conservative_policy policy_object" where
  "conservative_object = \<lparr> po_analyze = conservative_analyze, po_name = lit ''conservative'' \<rparr>"

definition aggressive_object :: "aggressive_policy policy_object" where
  "aggressive_object = \<lparr> po_analyze = aggressive_analyze, po_name = lit ''aggressive'' \<rparr>"

definition engine_is_enabled :: "'p tuning_engine \<Rightarrow> bool" where
  "engine_is_enabled e = engine_enabled e"

definition engine_history :: "'p tuning_engine \<Rightarrow> tuning_log_entry list" where
  "engine_history e = action_history e"

definition policy_name :: "'p policy_object \<Rightarrow> 'p tuning_engine \<Rightarrow> str" where
  "policy_name obj e = po_name obj"

definition engine_analyzer_ref :: "'p tuning_engine \<Rightarrow> metrics_analyzer" where
  "engine_analyzer_ref e = engine_analyzer e"

definition mux_default :: io_mux where
  "mux_default = mux_new 256"

text \<open>The operating system tells the number of cores, or fails to.\<close>

definition num_cpus :: "(unit + usize) \<Rightarrow> usize" where
  "num_cpus parallelism = (case parallelism of Inr n \<Rightarrow> n | Inl _ \<Rightarrow> 1)"

definition numa_default :: "bool \<Rightarrow> (unit + usize) \<Rightarrow> str list option \<Rightarrow> (unit, numa_info) result" where
  "numa_default linux parallelism entries = numa_detect linux parallelism entries"

definition shard_capacity :: "slab_shard \<Rightarrow> usize" where
  "shard_capacity sh = sh_capacity sh"

definition get_shard :: "slab_manager \<Rightarrow> usize \<Rightarrow> slab_shard option" where
  "get_shard mgr core = (if core < length (shards mgr) then Some (shards mgr ! core) else None)"

text \<open>A mutable reference is a place to write to: the call with what its caller does to the shard.\<close>

definition get_shard_mut :: "slab_manager \<Rightarrow> usize \<Rightarrow> (slab_shard \<Rightarrow> slab_shard) \<Rightarrow> slab_manager" where
  "get_shard_mut mgr core f =
     (if core < length (shards mgr) then mgr\<lparr>shards := (shards mgr)[core := f (shards mgr ! core)]\<rparr> else mgr)"

definition manager_num_shards :: "slab_manager \<Rightarrow> usize" where
  "manager_num_shards mgr = num_shards mgr"

definition manager_numa_info :: "slab_manager \<Rightarrow> numa_info" where
  "manager_numa_info mgr = numa mgr"

section \<open>The crates \<open>ners-metrics\<close> and \<open>ners-ml\<close>\<close>

definition metrics_default :: metrics_collector where
  "metrics_default = metrics_new"

definition features_default :: feature_vector where
  "features_default = feature_zeros"

definition normalizer_default :: feature_normalizer where
  "normalizer_default = normalizer_new"

definition window_is_empty :: "metrics_window \<Rightarrow> bool" where
  "window_is_empty w \<longleftrightarrow> features w = []"

definition window_default :: metrics_window where
  "window_default = window_new 60"

definition bridge_default :: ml_bridge where
  "bridge_default = bridge_new config_default"

definition bridge_is_enabled :: "ml_bridge \<Rightarrow> bool" where
  "bridge_is_enabled b = enabled b"

section \<open>The crate \<open>ners-proto-http\<close>\<close>

datatype settings_id =
    HeaderTableSize
  | EnablePush
  | MaxConcurrentStreams
  | InitialWindowSize
  | MaxFrameSize
  | MaxHeaderListSize

text \<open>\<open>#[repr(u16)]\<close>.\<close>

primrec settings_code :: "settings_id \<Rightarrow> u16" where
  "settings_code HeaderTableSize = 0x1"
| "settings_code EnablePush = 0x2"
| "settings_code MaxConcurrentStreams = 0x3"
| "settings_code InitialWindowSize = 0x4"
| "settings_code MaxFrameSize = 0x5"
| "settings_code MaxHeaderListSize = 0x6"

definition PADDED :: u8 where "PADDED = 0x8"
definition PRIORITY_FLAG :: u8 where "PRIORITY_FLAG = 0x20"

definition hpack_default :: hpack_table where
  "hpack_default = hpack_new 4096"

definition encoder_default :: hpack_encoder where
  "encoder_default = encoder_new 4096"

definition stream_default :: h2_stream where
  "stream_default = stream_new 0 65535"

definition connection_default :: h2_connection where
  "connection_default = connection_new h2_settings_default"

definition is_preface_received :: "h2_connection \<Rightarrow> bool" where
  "is_preface_received c = preface_received c"

definition is_going_away :: "h2_connection \<Rightarrow> bool" where
  "is_going_away c = going_away c"

definition get_stream_mut :: "u32 \<Rightarrow> (h2_stream \<Rightarrow> h2_stream) \<Rightarrow> h2_connection \<Rightarrow> h2_connection" where
  "get_stream_mut stream_id f c = c\<lparr>streams := hm_modify stream_id f (streams c)\<rparr>"

text \<open>The parser keeps no state but a bound that nothing reads.\<close>

record http_parser =
  min_bytes :: usize

definition http_parser_new :: http_parser where
  "http_parser_new = \<lparr> min_bytes = 16 \<rparr>"

definition http_parser_default :: http_parser where
  "http_parser_default = http_parser_new"

section \<open>What they keep\<close>

text \<open>The constants of \<open>SettingsId\<close> are the identifiers that a SETTINGS frame is read with.\<close>

lemma unknown_setting_ignored:
  assumes "\<And>i. key \<noteq> settings_code i"
  shows "apply_setting (key, value) c = c"
proof -
  have "key \<noteq> 0x1 \<and> key \<noteq> 0x2 \<and> key \<noteq> 0x3 \<and> key \<noteq> 0x4 \<and> key \<noteq> 0x5 \<and> key \<noteq> 0x6"
    using assms [of HeaderTableSize] assms [of EnablePush] assms [of MaxConcurrentStreams]
      assms [of InitialWindowSize] assms [of MaxFrameSize] assms [of MaxHeaderListSize] by simp
  then show ?thesis by (simp add: apply_setting_def Let_def)
qed

lemma settings_code_inj: "settings_code i = settings_code j \<longleftrightarrow> i = j"
  by (cases i; cases j) simp_all

text \<open>Writing through \<open>get_shard_mut\<close> changes the one shard.\<close>

lemma get_shard_mut_get:
  "get_shard (get_shard_mut mgr core f) core' = (if core' = core then map_option f (get_shard mgr core) else get_shard mgr core')"
  by (simp add: get_shard_def get_shard_mut_def nth_list_update)

lemma get_stream_mut_get:
  "get_stream i (get_stream_mut j f c) = (if i = j then map_option f (get_stream j c) else get_stream i c)"
  by (simp add: get_stream_def get_stream_mut_def hm_modify_def hm_get_def hm_insert_def update_conv' split: option.split)

text \<open>The calls on a shard are what the manager's calls do to it.\<close>

lemma manager_default_shards:
  assumes "get_shard (manager_default info parallelism) core = Some sh"
  shows "shard_capacity sh = 1000" and "shard_is_empty sh"
  using assms
  by (auto simp: get_shard_def manager_default_def manager_new_def shard_new_def shard_capacity_def shard_is_empty_def
      shard_len_def split: if_splits)

end
