(* ===== verification/Unit_Tests.thy ===== *)
theory Unit_Tests
  imports Defaults Executor Http_Response
begin

text \<open>
  The unit tests of the repository (\<open>mod tests\<close> of the sources), as predicates of the model: a test
  passes when none of its \<open>unwrap\<close>s panics and all its assertions hold. Sockets, clock readings, the
  iteration order of hash maps and the answers of the operating system are arguments; the model
  passes the tests for all of them that a system can give: a clock that does not go back, at least
  one core, an order that lists every entry once. The detection of NUMA nodes passes when it
  returns at all, which it does not with more nodes than cores.
\<close>

section \<open>The crate \<open>ners-core\<close>\<close>

definition test_available_cores :: "(unit + usize) \<Rightarrow> bool" where
  "test_available_cores os = (1 \<le> available_cores os)"

definition analyzer_test_snapshot :: "nat \<Rightarrow> u64 \<Rightarrow> u64 \<Rightarrow> metrics_snapshot" where
  "analyzer_test_snapshot now queue_len latency =
     \<lparr> snap_timestamp = now,
       snap_stages = [(lit ''parse'',
         \<lparr> stage_id = lit ''parse'', processed_count = 100, current_queue_len = queue_len,
           latency_sum_ns = latency * 100, latency_max_ns = latency, errors = 0 \<rparr>)],
       snap_total_conns = 10, snap_total_requests = 100 \<rparr>"

definition test_bottleneck_detection :: "nat \<Rightarrow> bool" where
  "test_bottleneck_detection now =
     (identify_bottleneck (add_snapshot (analyzer_test_snapshot now 100 10000000) analyzer_default)
        = Some (lit ''parse''))"

definition test_queue_overflow_detection :: "nat \<Rightarrow> bool" where
  "test_queue_overflow_detection now =
     List.member (detect_queue_overflow (add_snapshot (analyzer_test_snapshot now 1000 1000000) analyzer_default)) (lit ''parse'')"

definition test_slab_insert_and_get :: "instant \<Rightarrow> tcp_stream \<Rightarrow> bool" where
  "test_slab_insert_and_get now s =
     (case slab_insert (slab_new 10) (conn_new now s) of
        (slab, Inr (Some cid)) \<Rightarrow> slab_get slab cid \<noteq> None \<and> active_count slab = 1
      | _ \<Rightarrow> False)"

definition test_slab_remove :: "instant \<Rightarrow> tcp_stream \<Rightarrow> bool" where
  "test_slab_remove now s =
     (case slab_insert (slab_new 10) (conn_new now s) of
        (slab, Inr (Some cid)) \<Rightarrow>
          (case slab_remove slab cid of
             (slab, Inr ()) \<Rightarrow> slab_get slab cid = None \<and> vacant_count slab = 10
           | _ \<Rightarrow> False)
      | _ \<Rightarrow> False)"

definition test_slab_capacity :: "instant \<Rightarrow> tcp_stream \<Rightarrow> tcp_stream \<Rightarrow> tcp_stream \<Rightarrow> bool" where
  "test_slab_capacity now s1 s2 s3 =
     (let (slab, r1) = slab_insert (slab_new 2) (conn_new now s1);
          (slab, r2) = slab_insert slab (conn_new now s2);
          (slab, r3) = slab_insert slab (conn_new now s3)
      in (case r1 of Inr (Some _) \<Rightarrow> True | _ \<Rightarrow> False) \<and> (case r2 of Inr (Some _) \<Rightarrow> True | _ \<Rightarrow> False)
        \<and> r3 = Inr None)"

definition test_mux_queue_operations :: bool where
  "test_mux_queue_operations =
     (let mux = queue_accept 5 (mux_new 256);
          mux = queue_read (ConnId 0) 6 mux;
          mux = queue_write (ConnId 1) 7 [] mux;
          (mux, flushed) = mux_flush mux
      in flushed = 3 \<and> pending_count mux = 3)"

text \<open>One client is connecting; the following \<open>accept\<close> would block.\<close>

definition test_accept_all :: "tcp_stream \<Rightarrow> bool" where
  "test_accept_all client = (length (snd (accept_all [Inr client, Inl WouldBlock])) = 1)"

definition test_orchestrator_creation :: bool where
  "test_orchestrator_creation =
     (let orch = orchestrator_new oc_default in o_queues orch = 6 \<and> length (o_executors orch) = 0)"

definition policy_test_snapshot :: "nat \<Rightarrow> metrics_snapshot" where
  "policy_test_snapshot now =
     \<lparr> snap_timestamp = now,
       snap_stages = [(lit ''parse'',
         \<lparr> stage_id = lit ''parse'', processed_count = 100, current_queue_len = 200,
           latency_sum_ns = 10000000 * 100, latency_max_ns = 15000000, errors = 0 \<rparr>)],
       snap_total_conns = 10, snap_total_requests = 100 \<rparr>"

definition test_conservative_policy :: "int \<Rightarrow> int \<Rightarrow> int \<Rightarrow> nat \<Rightarrow> bool" where
  "test_conservative_policy start now later t =
     (let snapshot = policy_test_snapshot t;
          analyzer = add_snapshot snapshot analyzer_default
      in fst (conservative_analyze now later snapshot analyzer (conservative_default start)) \<noteq> [])"

definition test_push_pop :: bool where
  "test_push_pop =
     (let (queue, r1) = ring_push (ring_new 4) (ConnId 1);
          (queue, r2) = ring_push queue (ConnId 2);
          (queue, r3) = ring_pop queue;
          (queue, r4) = ring_pop queue;
          (queue, r5) = ring_pop queue
      in r1 = Inr () \<and> r2 = Inr () \<and> r3 = Inr (Some (ConnId 1)) \<and> r4 = Inr (Some (ConnId 2)) \<and> r5 = Inr None)"

definition test_full_queue :: bool where
  "test_full_queue =
     (let (queue, r1) = ring_push (ring_new 3) (ConnId 1);
          (queue, r2) = ring_push queue (ConnId 2);
          (queue, r3) = ring_push queue (ConnId 3)
      in r1 = Inr () \<and> r2 = Inr () \<and> r3 = Inl (Error (ConnId 3)))"

definition test_len :: bool where
  "test_len =
     (let queue = ring_new 4;
          (queue1, r1) = ring_push queue (ConnId 1);
          (queue2, r2) = ring_push queue1 (ConnId 2);
          (queue3, r3) = ring_pop queue2
      in ring_len queue = 0 \<and> r1 = Inr () \<and> ring_len queue1 = 1 \<and> r2 = Inr () \<and> ring_len queue2 = 2
        \<and> ring_len queue3 = 1)"

definition test_numa_detection :: "bool \<Rightarrow> (unit + usize) \<Rightarrow> str list option \<Rightarrow> bool" where
  "test_numa_detection linux parallelism entries =
     (case numa_detect linux parallelism entries of
        Inr info \<Rightarrow> 1 \<le> num_nodes info \<and> 1 \<le> total_cores info \<and> length (core_to_node info) = total_cores info
      | Inl _ \<Rightarrow> False)"

definition test_node_for_core :: "bool \<Rightarrow> (unit + usize) \<Rightarrow> str list option \<Rightarrow> bool" where
  "test_node_for_core linux parallelism entries =
     (case numa_detect linux parallelism entries of Inr info \<Rightarrow> node_for_core info 0 = 0 | Inl _ \<Rightarrow> False)"

definition test_slab_shard_allocate :: bool where
  "test_slab_shard_allocate =
     (let (shard, slot1) = shard_allocate (shard_new 0 0 10);
          (shard, slot2) = shard_allocate shard
      in slot1 \<noteq> None \<and> slot2 \<noteq> None \<and> slot1 \<noteq> slot2 \<and> shard_len shard = 2)"

definition test_slab_shard_deallocate :: bool where
  "test_slab_shard_deallocate =
     (case shard_allocate (shard_new 0 0 10) of
        (shard, Some slot) \<Rightarrow> shard_len shard = 1 \<and> shard_len (fst (shard_deallocate shard slot)) = 0
      | _ \<Rightarrow> False)"

definition test_sharded_manager_creation :: "numa_info \<Rightarrow> bool" where
  "test_sharded_manager_creation info =
     (let mgr = manager_new info 4 100 in manager_num_shards mgr = 4 \<and> total_allocated mgr = 0)"

definition test_least_loaded_core :: "numa_info \<Rightarrow> bool" where
  "test_least_loaded_core info = (least_loaded_core (manager_new info 4 100) < 4)"

definition test_get_shard :: "numa_info \<Rightarrow> bool" where
  "test_get_shard info =
     (let mgr = manager_new info 4 100
      in get_shard mgr 0 \<noteq> None \<and> get_shard mgr 3 \<noteq> None \<and> get_shard mgr 4 = None)"

definition tuner_test_snapshot :: "nat \<Rightarrow> u64 \<Rightarrow> metrics_snapshot" where
  "tuner_test_snapshot now latency =
     \<lparr> snap_timestamp = now,
       snap_stages = [(lit ''parse'',
         \<lparr> stage_id = lit ''parse'', processed_count = 100, current_queue_len = 200,
           latency_sum_ns = latency * 100, latency_max_ns = latency, errors = 0 \<rparr>)],
       snap_total_conns = 10, snap_total_requests = 100 \<rparr>"

definition test_tuning_engine_process :: "int \<Rightarrow> (nat \<Rightarrow> int) \<Rightarrow> nat \<Rightarrow> bool" where
  "test_tuning_engine_process start clock t =
     (let engine = engine_new (conservative_default start) constraints_default;
          (actions, engine) = process conservative_analyze clock (tuner_test_snapshot t 10000000) engine
      in 0 < length (engine_history engine) \<or> actions = [])"

definition test_constraint_validation :: bool where
  "test_constraint_validation \<longleftrightarrow>
     \<not> validate_action constraints_default (IncreaseQueueSize (lit ''parse'') 100000)
     \<and> validate_action constraints_default (IncreaseQueueSize (lit ''parse'') 5000)"

section \<open>The crates \<open>ners-metrics\<close> and \<open>ners-ml\<close>\<close>

definition test_stage_metrics :: bool where
  "test_stage_metrics =
     (let metrics = record_latency 2000 (record_latency 1000 (inc_processed (inc_processed (stage_metrics_new (lit ''test'')))));
          snapshot = stage_snapshot metrics
      in processed_count snapshot = 2 \<and> latency_max_ns snapshot = 2000)"

definition test_metrics_collector :: "nat \<Rightarrow> ((str \<times> stage_metrics) list \<Rightarrow> (str \<times> stage_metrics) list) \<Rightarrow> bool" where
  "test_metrics_collector now order =
     (let collector = inc_total_requests (inc_total_conns metrics_new);
          collector = on_stage (lit ''net_in'') inc_processed collector;
          snapshot = collector_snapshot now order collector
      in snap_total_conns snapshot = 1 \<and> snap_total_requests snapshot = 1
        \<and> (case hm_get (lit ''net_in'') (snap_stages snapshot) of None \<Rightarrow> False | Some s \<Rightarrow> processed_count s = 1))"

definition test_ml_bridge_prediction :: "nat \<Rightarrow> nat \<Rightarrow> bool" where
  "test_ml_bridge_prediction now_read now_store =
     (let v = feature_zeros\<lparr>p99_latency := f32_lit (6 / 10), queue_depth := f32_lit (8 / 10)\<rparr>
      in case predict now_read now_store (add_features v bridge_default) of
           (_, Inr prediction) \<Rightarrow> fp_less (f32_lit 0) (confidence prediction)
         | _ \<Rightarrow> False)"

definition test_predicted_action_description :: "(ieee \<Rightarrow> str) \<Rightarrow> bool" where
  "test_predicted_action_description show_float =
     (let desc = predicted_description show_float (IncreaseQueue (lit ''parse'') 100)
      in find_str (lit ''Increase'') desc \<noteq> None \<and> find_str (lit ''parse'') desc \<noteq> None)"

definition test_ml_bridge_stats :: "nat \<Rightarrow> nat \<Rightarrow> bool" where
  "test_ml_bridge_stats now_read now_store =
     (let (bridge, _) = predict now_read now_store (add_features feature_zeros bridge_default)
      in st_prediction_count (bridge_stats bridge) = 1)"

text \<open>\<open>==\<close> on floating-point numbers.\<close>

definition fp_eq :: "ieee \<Rightarrow> ieee \<Rightarrow> bool" where
  "fp_eq a b = (fp_le a b \<and> fp_le b a)"

definition test_feature_normalization :: bool where
  "test_feature_normalization \<longleftrightarrow>
     fp_eq (normalize (f64_lit 0) (f64_lit 100)) (f32_lit 0)
     \<and> fp_eq (normalize (f64_lit 50) (f64_lit 100)) (f32_lit (1 / 2))
     \<and> fp_eq (normalize (f64_lit 100) (f64_lit 100)) (f32_lit 1)
     \<and> fp_eq (normalize (f64_lit 200) (f64_lit 100)) (f32_lit 1)"

definition test_metrics_window :: bool where
  "test_metrics_window =
     (let window = window_new 3;
          window2 = window_push feature_zeros (window_push feature_zeros window);
          window3 = window_push feature_zeros window2;
          window4 = window_push feature_zeros window3
      in window_is_empty window \<and> window_len window2 = 2 \<and> \<not> is_full window2 \<and> is_full window3 \<and> window_len window4 = 3)"

section \<open>The crate \<open>ners-proto-http\<close>\<close>

definition test_connection_preface :: bool where
  "test_connection_preface =
     (let conn = connection_default;
          (conn1, ok) = process_preface H2_PREFACE conn;
          (_, out) = take_outgoing conn1
      in \<not> is_preface_received conn \<and> ok \<and> is_preface_received conn1 \<and> out \<noteq> [])"

definition is_settings_ack :: "frame \<Rightarrow> bool" where
  "is_settings_ack f = (case f of Settings ack _ \<Rightarrow> ack | _ \<Rightarrow> False)"

definition test_settings_exchange :: bool where
  "test_settings_exchange =
     (let (conn, _) = process_preface H2_PREFACE connection_default
      in case process_frame (Settings False [(3, 200)]) conn of
           (conn, Inr _) \<Rightarrow>
             (let (conn', out) = take_outgoing conn
              in max_concurrent_streams (remote_settings conn) = 200 \<and> list_ex is_settings_ack out)
         | _ \<Rightarrow> False)"

definition test_parse_settings :: bool where
  "test_parse_settings =
     (case frame_parse ([0, 0, 6, 4, 0, 0, 0, 0, 0] @ [0, 3, 0, 0, 0, 100]) of
        (_, Inr (Some (Settings ack settings))) \<Rightarrow> \<not> ack \<and> length settings = 1 \<and> settings ! 0 = (3, 100)
      | _ \<Rightarrow> False)"

definition test_serialize_window_update :: bool where
  "test_serialize_window_update =
     (let buf = frame_serialize (WindowUpdate 1 65535) []
      in 9 \<le> length buf \<and> take 5 buf = [0, 0, 4, 8, 0] \<and> buf ! 8 = 1)"

definition test_static_table_lookup :: bool where
  "test_static_table_lookup =
     (case get_indexed (hpack_new 4096) 2 of
        Inr (name, v) \<Rightarrow> name = lit '':method'' \<and> v = lit ''GET''
      | _ \<Rightarrow> False)"

definition test_encode_decode_roundtrip :: bool where
  "test_encode_decode_roundtrip =
     (let headers = [(lit '':method'', lit ''GET''), (lit '':path'', lit ''/test''), (lit ''content-type'', lit ''text/html'')];
          encoded = snd (hpack_encode (encoder_new 4096) headers)
      in case hpack_decode (hpack_new 4096) encoded of
           (_, Inr decoded) \<Rightarrow> length decoded = 3 \<and> fst (decoded ! 0) = lit '':method'' \<and> snd (decoded ! 0) = lit ''GET''
         | _ \<Rightarrow> False)"

definition test_stream_state_transitions :: bool where
  "test_stream_state_transitions =
     (let s = stream_new 1 65535; s1 = stream_open s; s2 = half_close_remote s1; s3 = half_close_local s2
      in s_state s = Idle \<and> s_state s1 = Open \<and> s_state s2 = HalfClosedRemote \<and> s_state s3 = Closed)"

definition test_flow_control :: bool where
  "test_flow_control =
     (let s1 = consume_send_window 1000 (stream_new 1 65535); s2 = update_send_window 2000 s1
      in s_send_window s1 = 64535 \<and> s_send_window s2 = 66535)"

definition test_parse_get_request :: "(str \<Rightarrow> str) \<Rightarrow> bool" where
  "test_parse_get_request lower =
     (case http_parse lower (lit ''GET / HTTP/1.1'' @ CRLF @ lit ''Host: localhost'' @ CRLF @ CRLF) of
        Inr (req, consumed) \<Rightarrow>
          rq_method req = lit ''GET'' \<and> rq_path req = lit ''/'' \<and> rq_version req = lit ''HTTP/1.1'' \<and> consumed = 35
      | _ \<Rightarrow> False)"

definition test_parse_post_request :: "(str \<Rightarrow> str) \<Rightarrow> bool" where
  "test_parse_post_request lower =
     (case http_parse lower (lit ''POST /api HTTP/1.1'' @ CRLF @ lit ''Host: localhost'' @ CRLF
         @ lit ''Content-Length: 11'' @ CRLF @ CRLF @ lit ''Hello World'') of
        Inr (req, consumed) \<Rightarrow>
          rq_method req = lit ''POST'' \<and> rq_path req = lit ''/api'' \<and> rq_body req = lit ''Hello World'' \<and> consumed = 70
      | _ \<Rightarrow> False)"

definition test_incomplete_request :: "(str \<Rightarrow> str) \<Rightarrow> bool" where
  "test_incomplete_request lower =
     (http_parse lower (lit ''GET / HTTP/1.1'' @ CRLF) = Inl (Error Incomplete))"

text \<open>\<open>text.contains\<close> for a non-empty pattern; every byte is ASCII, so that \<open>from_utf8\<close> succeeds.\<close>

definition test_ok_response :: "((str \<times> str) list \<Rightarrow> (str \<times> str) list) \<Rightarrow> bool" where
  "test_ok_response iter =
     (let text = to_bytes iter (response_ok (lit ''Hello, World!''))
      in valid_utf8 text \<and> find_str (lit ''HTTP/1.1 200 OK'') text \<noteq> None \<and> find_str (lit ''Hello, World!'') text \<noteq> None)"

definition test_json_response :: "((str \<times> str) list \<Rightarrow> (str \<times> str) list) \<Rightarrow> bool" where
  "test_json_response iter =
     (let text = to_bytes iter (response_json (response_ok (lit ''{\"status\":\"ok\"}'')))
      in valid_utf8 text \<and> find_str (lit ''application/json'') text \<noteq> None)"

definition test_not_found :: "((str \<times> str) list \<Rightarrow> (str \<times> str) list) \<Rightarrow> bool" where
  "test_not_found iter =
     (let text = to_bytes iter response_not_found
      in valid_utf8 text \<and> find_str (lit ''HTTP/1.1 404 Not Found'') text \<noteq> None)"

section \<open>The tests pass\<close>

lemma find_str_inside: "pat \<noteq> [] \<Longrightarrow> find_str pat (xs @ pat @ ys) \<noteq> None"
proof (induction xs)
  case Nil
  then show ?case by (cases pat) simp_all
qed simp

lemma test_available_cores_ok: "os \<noteq> Inr 0 \<Longrightarrow> test_available_cores os"
  by (auto simp: test_available_cores_def available_cores_def split: sum.splits)

lemma analyzer_tests_ok: "test_bottleneck_detection now" "test_queue_overflow_detection now"
  by (simp_all add: test_bottleneck_detection_def test_queue_overflow_detection_def identify_bottleneck_def
      detect_queue_overflow_def analyzer_test_snapshot_def bottleneck_step_def avg_latency_ns_def analyzer_default_def
      analyzer_new_def rules_default_def List.map_filter_def)

lemma slab_tests_ok: "test_slab_insert_and_get now s" "test_slab_remove now s" "test_slab_capacity now s1 s2 s3"
  by code_simp+

lemma mux_test_ok: test_mux_queue_operations
  by code_simp

lemma net_test_ok: "test_accept_all client"
  by code_simp

lemma orchestrator_test_ok: test_orchestrator_creation
  by code_simp

lemma policy_test_increase:
  assumes "start \<le> now"
  shows "IncreaseQueueSize (lit ''parse'') 220 \<in> set (fst (conservative_analyze now later (policy_test_snapshot t)
    (add_snapshot (policy_test_snapshot t) analyzer_default) (conservative_default start)))"
proof -
  have s: "queues_bounded (policy_test_snapshot t)" by (simp add: queues_bounded_def policy_test_snapshot_def queue_of_def)
  have p: "(conservative_new start rules_default)\<lparr>cons_last_action := start - seconds 60\<rparr> = conservative_default start"
    by (simp add: conservative_default_def conservative_new_def)
  have b: "identify_bottleneck (add_snapshot (policy_test_snapshot t) analyzer_default) = Some (lit ''parse'')"
    by (simp add: identify_bottleneck_def policy_test_snapshot_def bottleneck_step_def avg_latency_ns_def
        analyzer_default_def analyzer_new_def rules_default_def)
  have st: "snap_stages (policy_test_snapshot t) = [(lit ''parse'',
      \<lparr> stage_id = lit ''parse'', processed_count = 100, current_queue_len = 200,
        latency_sum_ns = 10000000 * 100, latency_max_ns = 15000000, errors = 0 \<rparr>)]"
    by (simp add: policy_test_snapshot_def)
  show ?thesis
    unfolding p [symmetric] conservative_integer [OF s] using assms b
    by (simp add: conservative_reference_def increase_reference_def st hm_get_def queue_of_def
        avg_latency_ns_def seconds_def elapsed_def)
qed

lemma ring_tests_ok: test_push_pop test_full_queue test_len
  by (simp_all add: test_push_pop_def test_full_queue_def test_len_def ring_new_def Let_def split_beta ring_push_def
      ring_pop_def ring_len_def nth_list_update) (simp add: USIZE_MAX_def)

lemma numa_tests_ok:
  assumes "numa_detect linux parallelism entries = Inr info" and "0 < num_cpus parallelism"
  shows "test_numa_detection linux parallelism entries" "test_node_for_core linux parallelism entries"
proof -
  have c: "0 < (case parallelism of Inr n \<Rightarrow> n | Inl _ \<Rightarrow> 1)" using assms(2) by (simp add: num_cpus_def)
  show "test_numa_detection linux parallelism entries" "test_node_for_core linux parallelism entries"
    using assms(1) c by (auto simp: test_numa_detection_def test_node_for_core_def numa_detect_def detect_linux_def Let_def
      node_for_core_def split: if_splits)
qed

lemma shard_tests_ok: test_slab_shard_allocate test_slab_shard_deallocate
  by (simp_all add: test_slab_shard_allocate_def test_slab_shard_deallocate_def shard_allocate_def shard_new_def
      shard_deallocate_def shard_len_def usize_add_exact usize_sub_exact upt_rec Let_def)

lemma manager_tests_ok: "test_sharded_manager_creation info" "test_least_loaded_core info" "test_get_shard info"
  by (simp_all add: test_sharded_manager_creation_def test_least_loaded_core_def test_get_shard_def manager_new_def
      manager_num_shards_def total_allocated_def least_loaded_core_def get_shard_def shard_len_def shard_new_def
      usize_add_exact upt_rec Let_def)

lemma tuner_test_ok: "test_tuning_engine_process start clock t"
proof -
  let ?e = "engine_new (conservative_default start) constraints_default" and ?s = "tuner_test_snapshot t 10000000"
  obtain actions p where "conservative_analyze (clock 0) (clock 1) ?s (add_snapshot ?s (engine_analyzer ?e)) (engine_policy ?e)
      = (actions, p)" by fastforce
  from process_logs_every_action [where analyze = conservative_analyze and clock = clock, OF _ _ _ this] have e:
    "fst (process conservative_analyze clock ?s ?e) = filter (validate_action (engine_constraints ?e)) actions"
    "action_history (snd (process conservative_analyze clock ?s ?e)) = (if should_rollback ?s ?e then mark_last else (\<lambda>h. h))
      (newest (max_log_entries ?e) (action_history ?e @ log_entries (engine_constraints ?e) (clock \<circ> Suc \<circ> Suc) actions))"
    using engine_new_def [of "conservative_default start" constraints_default] by simp_all
  have "max_log_entries ?e = 1000" by (simp add: engine_new_def)
  with e(2) have "length (action_history (snd (process conservative_analyze clock ?s ?e))) = min 1000 (length actions + length (action_history ?e))"
    by (simp add: log_entries_def)
  with e(1) show ?thesis
    by (cases "actions = []") (auto simp: test_tuning_engine_process_def engine_history_def Let_def split_beta min_def split: if_splits)
qed

lemma constraint_test_ok: test_constraint_validation
  by (simp add: test_constraint_validation_def validate_action_def constraints_default_def)

lemma stage_metrics_test_ok: test_stage_metrics
  by code_simp

lemma metrics_collector_test_ok:
  assumes "\<And>m. mset (order m) = mset m"
  shows "test_metrics_collector now order"
proof -
  let ?m = "hm_map stage_snapshot (stages (on_stage (lit ''net_in'') inc_processed (inc_total_requests (inc_total_conns metrics_new))))"
  have "distinct (map fst ?m)" "hm_get (lit ''net_in'') ?m = Some ((stage_metrics_new (lit ''net_in''))\<lparr>processed_count := 1\<rparr>)"
    by code_simp+
  then have m: "distinct (map fst ?m)"
    "(lit ''net_in'', (stage_metrics_new (lit ''net_in''))\<lparr>processed_count := 1\<rparr>) \<in> set ?m"
    by (simp_all only: hm_get_def map_of_SomeD)
  have "mset (map fst (order ?m)) = mset (map fst ?m)" using assms [of ?m] by (simp only: mset_map)
  from mset_eq_imp_distinct_iff [OF this] m(1) have d: "distinct (map fst (order ?m))" by (simp only:)
  have "set (order ?m) = set ?m" using assms [of ?m] by (metis set_mset_mset)
  with m(2) map_of_is_SomeI [OF d] have
    "hm_get (lit ''net_in'') (order ?m) = Some ((stage_metrics_new (lit ''net_in''))\<lparr>processed_count := 1\<rparr>)"
    by (simp only: hm_get_def)
  moreover have "total_conns (on_stage (lit ''net_in'') inc_processed (inc_total_requests (inc_total_conns metrics_new))) = 1"
    "total_requests (on_stage (lit ''net_in'') inc_processed (inc_total_requests (inc_total_conns metrics_new))) = 1"
    by code_simp+
  ultimately show ?thesis
    by (simp add: test_metrics_collector_def collector_snapshot_def Let_def)
qed

lemma policy_test_ok: "start \<le> now \<Longrightarrow> test_conservative_policy start now later t"
  using policy_test_increase [of start now later t] by (auto simp: test_conservative_policy_def Let_def)

lemma window_test_ok: test_metrics_window
  by code_simp

lemma bridge_stats_test_ok: "test_ml_bridge_stats now_read now_store"
  by (simp add: test_ml_bridge_stats_def predict_def bridge_default_def bridge_new_def add_features_def get_cached_prediction_def
      latest_def window_push_def window_new_def push_bounded_def cache_prediction_def bridge_stats_def Let_def)

lemma bridge_description_test_ok: "test_predicted_action_description show_float"
  by code_simp

text \<open>Every rule of the heuristic has a confidence of at least a half.\<close>

lemma positive_confidence: "fp_less (f32_lit 0) (confidence (heuristic_predict v))"
proof -
  have "fp_less (f32_lit 0) (f32_lit q)" if "1 / 2 \<le> q" "q \<le> 1" for q
    using round_mag_mono [of "1 / 2" q f32] that f32_lit_unit_num [of q] f32_lit_unit_num [of 0]
    by (simp add: round_f32_exact signed_def round_mag_def [of _ 0])
  then show ?thesis by (auto simp: heuristic_predict_def heuristic_action_def)
qed

lemma bridge_prediction_test_ok: "test_ml_bridge_prediction now_read now_store"
  by (simp add: test_ml_bridge_prediction_def predict_def bridge_default_def bridge_new_def add_features_def
      get_cached_prediction_def latest_def window_push_def window_new_def push_bounded_def Let_def positive_confidence)

lemma normalization_test_ok: test_feature_normalization
proof -
  have lits: "f64_lit 0 = fp_of_nat f64 0" "f64_lit 50 = fp_of_nat f64 50" "f64_lit 100 = fp_of_nat f64 100"
    "f64_lit 200 = fp_of_nat f64 200"
    by (simp_all add: f64_lit_def fp_of_nat_def)
  have half: "round_mag f64 (of_nat n) = of_nat n" if "n < 2 ^ 53" for n
    using that by (intro round_mag_representable representable_nat) simp_all
  have r: "round_mag f64 (1 / 2) = 1 / 2" using round_mag_representable [OF representable_quotient [of 1 1]] by simp
  have q: "round_mag f64 (of_nat 50) / round_mag f64 (of_nat 100) = 1 / 2" using half [of 50] half [of 100] by simp
  have nv: "norm_value 50 100 = 1 / 2" unfolding norm_value_def q r by (simp add: round_f32_exact)
  have "norm_value 0 100 = 0" by (simp add: norm_value_def round_mag_def [of _ 0])
  moreover have "f32_lit 0 = Num False 0" "f32_lit (1 / 2) = Num False (1 / 2)" "f32_lit 1 = Num False 1"
    using f32_lit_unit_num [of 0] f32_lit_unit_num [of "1 / 2"] f32_lit_unit_num [of 1]
    by (simp_all add: round_mag_def [of _ 0] round_f32_exact round_mag_one)
  ultimately show ?thesis
    unfolding test_feature_normalization_def lits
    by (simp add: normalize_nat norm_value_full fp_eq_def nv)
qed

lemma connection_tests_ok: test_connection_preface test_settings_exchange
  by (simp_all add: test_connection_preface_def test_settings_exchange_def process_preface_def send_settings_def
      take_outgoing_def connection_default_def connection_new_def is_preface_received_def process_frame_def
      process_settings_def apply_setting_def is_settings_ack_def Let_def)

lemma frame_parse_test_ok: test_parse_settings
  by (simp add: test_parse_settings_def frame_parse_def frame_length_def parse_payload_def u16_of_be_def u32_of_be_def
      ACK_def FRAME_HEADER_SIZE_def frame_type_try_from_def)

lemma frame_serialize_test_ok: test_serialize_window_update
  by (simp add: test_serialize_window_update_def frame_serialize_def put_u32_def drop_bit_eq_div)

lemma static_table_test_ok: test_static_table_lookup
  by (simp add: test_static_table_lookup_def get_indexed_def STATIC_TABLE_def)

lemma stream_tests_ok: test_stream_state_transitions test_flow_control
  by code_simp+

lemma incomplete_test_ok: "test_incomplete_request lower"
  by code_simp

lemma roundtrip_test_ok: test_encode_decode_roundtrip
proof -
  let ?hs = "[(lit '':method'', lit ''GET''), (lit '':path'', lit ''/test''), (lit ''content-type'', lit ''text/html'')]"
  have ok: "\<forall>h \<in> set ?hs. header_ok h" by (auto simp: lit_def valid_utf8_ascii_Cons)
  obtain t block where "hpack_encode (hpack_new 4096) ?hs = (t, block)" by fastforce
  from this hpack.in_step [OF ok this] show ?thesis
    by (simp add: test_encode_decode_roundtrip_def encoder_new_def Let_def)
qed

lemma get_request_test_ok: "test_parse_get_request lower"
proof -
  have "token (lit ''GET'')" "token (lit ''/'')" "token (lit ''HTTP/1.1'')" "header_wf (lit ''Host'', lit ''localhost'')"
    by (simp_all add: token_def is_whitespace_def lit_def header_wf_def trimmed_def)
  moreover have "content_length (header_map [(lit ''Host'', lit ''localhost'')]) = 0"
    by (simp add: header_map_def lit_def ascii_lower_def content_length_def hm_get_insert)
  moreover have "request_head (lit ''GET'') (lit ''/'') (lit ''HTTP/1.1'') [(lit ''Host'', lit ''localhost'')]
      = lit ''GET / HTTP/1.1'' @ CRLF @ lit ''Host: localhost'' @ CRLF @ CRLF"
    by (simp add: request_head_def request_lines_def header_line_def lit_def)
  ultimately show ?thesis
    using http_parse_request [of "lit ''GET''" "lit ''/''" "lit ''HTTP/1.1''" "[(lit ''Host'', lit ''localhost'')]" "[]" 0 lower]
    by (simp add: test_parse_get_request_def lit_def)
qed

lemma post_request_test_ok: "test_parse_post_request lower"
proof -
  let ?hs = "[(lit ''Host'', lit ''localhost''), (lit ''Content-Length'', lit ''11'')]"
  have "token (lit ''POST'')" "token (lit ''/api'')" "token (lit ''HTTP/1.1'')" "\<forall>h \<in> set ?hs. header_wf h"
    by (simp_all add: token_def is_whitespace_def lit_def header_wf_def trimmed_def)
  moreover have "content_length (header_map ?hs) = 11"
    by (simp add: header_map_def lit_def ascii_lower_def content_length_def hm_get_insert parse_usize_def is_digit_def
        digits_value_def)
  moreover have "request_head (lit ''POST'') (lit ''/api'') (lit ''HTTP/1.1'') ?hs
      = lit ''POST /api HTTP/1.1'' @ CRLF @ lit ''Host: localhost'' @ CRLF @ lit ''Content-Length: 11'' @ CRLF @ CRLF"
    by (simp add: request_head_def request_lines_def header_line_def lit_def)
  moreover have "valid_utf8 (lit ''Hello World'')" by (simp add: lit_def valid_utf8_ascii_Cons)
  ultimately show ?thesis
    using http_parse_request [of "lit ''POST''" "lit ''/api''" "lit ''HTTP/1.1''" ?hs "lit ''Hello World''" 11 lower]
    by (simp add: test_parse_post_request_def lit_def)
qed

text \<open>The text of a response, whatever the order in which its headers are written.\<close>

lemma ascii_show_nat: "is_ascii (show_nat n)"
  using show_nat_digits [of n] by (auto simp: is_ascii_def is_digit_def word_less_nat_alt word_le_nat_alt)

lemma response_ascii:
  assumes iter: "iteration_order iter" and hs: "\<forall>h \<in> set (rs_headers r). is_ascii (fst h) \<and> is_ascii (snd h)"
    and "is_ascii (rs_status_text r)" "is_ascii (rs_body r)"
  shows "valid_utf8 (to_bytes iter r)"
proof -
  have "set (iter (rs_headers r)) = set (rs_headers r)"
    using iter by (metis iteration_order_def set_mset_mset)
  then have "is_ascii (concat (map response_header_line (iter (rs_headers r))))"
    using hs by (auto simp: is_ascii_def response_header_line_def lit_def)
  then show ?thesis
    using assms(3,4) by (intro ascii_valid_utf8) (simp add: to_bytes_def lit_def ascii_show_nat)
qed

lemma header_found:
  assumes iter: "iteration_order iter" and h: "(k, pat) \<in> set (rs_headers r)" and "pat \<noteq> []"
  shows "find_str pat (to_bytes iter r) \<noteq> None"
proof -
  have "(k, pat) \<in> set (iter (rs_headers r))" using iter h by (metis iteration_order_def set_mset_mset)
  then obtain hs hs' where hs: "iter (rs_headers r) = hs @ (k, pat) # hs'" by (auto simp: in_set_conv_decomp)
  have "\<exists>xs ys. to_bytes iter r = xs @ pat @ ys"
    unfolding to_bytes_def hs
    by (intro exI [of _ "lit ''HTTP/1.1 '' @ show_nat (unat (rs_status r)) @ lit '' '' @ rs_status_text r @ CRLF
        @ concat (map response_header_line hs) @ k @ lit '': ''"]
      exI [of _ "CRLF @ concat (map response_header_line hs') @ CRLF @ rs_body r"]) (simp add: response_header_line_def)
  then show ?thesis using find_str_inside [OF assms(3)] by auto
qed

lemma response_tests_ok:
  assumes "iteration_order iter"
  shows "test_ok_response iter" "test_json_response iter" "test_not_found iter"
proof -
  have digits: "show_nat 13 = lit ''13''" "show_nat 15 = lit ''15''" "show_nat 200 = lit ''200''" "show_nat 404 = lit ''404''"
    by (simp_all add: show_nat.simps lit_def)
  have status: "find_str (lit ''HTTP/1.1 '' @ show_nat (unat (rs_status r)) @ lit '' '' @ rs_status_text r) (to_bytes iter r) \<noteq> None" for r
    using find_str_inside [of "lit ''HTTP/1.1 '' @ show_nat (unat (rs_status r)) @ lit '' '' @ rs_status_text r" "[]"]
    by (simp add: to_bytes_def lit_def)
  have body: "find_str (rs_body r) (to_bytes iter r) \<noteq> None" if "rs_body r \<noteq> []" for r
  proof -
    obtain xs where "to_bytes iter r = xs @ rs_body r @ []" by (auto simp: to_bytes_def)
    then show ?thesis using find_str_inside [OF that] by metis
  qed
  let ?ok = "response_ok (lit ''Hello, World!'')" and ?json = "response_json (response_ok (lit ''{\"status\":\"ok\"}''))"
  have "valid_utf8 (to_bytes iter ?ok)"
    by (rule response_ascii [OF assms]) (simp_all add: response_ok_def response_new_def status_text_def hm_insert_def
      ascii_show_nat Let_def, simp_all add: lit_def)
  moreover have "valid_utf8 (to_bytes iter ?json)"
    by (rule response_ascii [OF assms]) (simp_all add: response_json_def with_header_def response_ok_def response_new_def
      status_text_def hm_insert_def ascii_show_nat Let_def, simp_all add: lit_def ascii_show_nat)
  moreover have "valid_utf8 (to_bytes iter response_not_found)"
    by (rule response_ascii [OF assms]) (simp_all add: response_not_found_def response_new_def status_text_def hm_insert_def
      ascii_show_nat Let_def, simp_all add: lit_def)
  moreover have "find_str (lit ''application/json'') (to_bytes iter ?json) \<noteq> None"
    by (rule header_found [OF assms, of "lit ''Content-Type''"])
      (simp_all add: response_json_def with_header_def response_ok_def response_new_def hm_insert_def Let_def lit_def)
  moreover have "find_str (lit ''HTTP/1.1 200 OK'') (to_bytes iter ?ok) \<noteq> None"
    using status [of ?ok] by (simp add: response_ok_def response_new_def status_text_def digits Let_def lit_def)
  moreover have "find_str (lit ''Hello, World!'') (to_bytes iter ?ok) \<noteq> None"
    using body [of ?ok] by (simp add: response_ok_def response_new_def Let_def lit_def)
  moreover have "find_str (lit ''HTTP/1.1 404 Not Found'') (to_bytes iter response_not_found) \<noteq> None"
    using status [of response_not_found] by (simp add: response_not_found_def response_new_def status_text_def digits Let_def lit_def)
  ultimately show "test_ok_response iter" "test_json_response iter" "test_not_found iter"
    by (simp_all add: test_ok_response_def test_json_response_def test_not_found_def)
qed

end
