(* ===== verification/Spec2Isabelle.thy ===== *)
theory Spec2Isabelle
  imports H2_Connection Executor_Fair Pipeline_Tuning Shutdown Unit_Tests
begin

text \<open>
  A verification library for \<open>ners\<close>, a staged web server in Rust, and for the HTTP/2 layer it
  carries. This root theory imports every other theory.

  \<^bold>\<open>The program.\<close> \<open>ners-core\<close> is a pipeline of threads. The main thread accepts connections
  into a slab (\<open>conn.rs\<close>) and passes their slot numbers, \<open>ConnId\<close>s, through bounded rings
  (\<open>queue.rs\<close>) to five executors (\<open>executor.rs\<close>), one per stage (\<open>stage.rs\<close>): parse, route,
  app, encode, net_out. A stage works on the connection in the slab: it reads the socket
  (\<open>net.rs\<close>), parses an HTTP/1.1 request (\<open>ners-proto-http/src/parser.rs\<close>), runs a handler
  (\<open>handlers.rs\<close>) that builds a response (\<open>response.rs\<close>), and writes it. Counters are kept in
  \<open>ners-metrics\<close>. \<open>ners-proto-http/src/h2\<close> is an HTTP/2 server connection: frames, HPACK,
  streams, connection. Beside the server stand a slab with one shard per core (\<open>slab/\<close>), an
  I/O multiplexer (\<open>mux.rs\<close>), a tuning loop that turns metrics snapshots into actions
  (\<open>analyzer.rs\<close>, \<open>policy.rs\<close>, \<open>tuner.rs\<close>), and a predictor on normalised features (\<open>ners-ml\<close>).

  \<^bold>\<open>Theories and sources.\<close>
  \<^item> \<^theory_text>\<open>Ners_Prelude\<close>: machine integers, byte strings, results with errors and panics, hash maps
    as association lists.
  \<^item> \<^theory_text>\<open>Codec\<close>: the interfaces \<open>incremental_codec\<close> (a parser over a receive buffer and its
    serializer) and \<open>stateful_codec\<close> (encoder and decoder with synchronised state), with
    recovery of streams of messages whatever the boundaries of their chunks.
  \<^item> \<^theory_text>\<open>H2_Frame\<close> (\<open>h2/frame.rs\<close>), \<^theory_text>\<open>Hpack\<close> (\<open>h2/hpack.rs\<close>), \<^theory_text>\<open>Utf8\<close> (the lossy
    conversion and the validity test of the standard library), \<^theory_text>\<open>H2_Stream\<close> (\<open>h2/stream.rs\<close>),
    \<^theory_text>\<open>H2_Connection\<close> (\<open>h2/connection.rs\<close>): a record per struct, a definition per method;
    \<open>Frame::parse\<close> is \<open>frame_parse\<close>, \<open>HpackDecoder::decode\<close> is \<open>hpack_decode\<close>,
    \<open>H2Connection::process_frame\<close> is \<open>process_frame\<close> with one definition per frame type.
  \<^item> \<^theory_text>\<open>Ring_Queue\<close> (\<open>queue.rs\<close>): the interface \<open>bounded_queue\<close>, \<open>RingQueue\<close> call by call, and
    \<open>spsc_step\<close>, the producer and the consumer interleaved by single atomic accesses.
  \<^item> \<^theory_text>\<open>Net\<close> (\<open>net.rs\<close>), \<^theory_text>\<open>Conn_Slab\<close> (\<open>conn.rs\<close>, with the interface \<open>slot_store\<close>),
    \<^theory_text>\<open>Metrics\<close> (\<open>ners-metrics/src/lib.rs\<close>), \<^theory_text>\<open>Rust_Str\<close> (the string functions of the
    standard library the parser calls), \<^theory_text>\<open>Http_Parser\<close>, \<^theory_text>\<open>Http_Response\<close>.
  \<^item> \<^theory_text>\<open>Stages\<close> (\<open>handlers.rs\<close> and the \<open>process_one\<close> functions of \<open>stage.rs\<close>, with the
    interface \<open>stage_contract\<close> each of them satisfies), \<^theory_text>\<open>Single_Stages\<close> (the \<open>process\<close>
    functions of \<open>stage.rs\<close>), \<^theory_text>\<open>Pipeline\<close> (\<open>executor.rs\<close>, the accept loop of \<open>main.rs\<close>, the
    shared state of \<open>orchestrator.rs\<close>): \<open>pipeline_step\<close> is the relation of all interleavings of
    the main thread and the five executors.
  \<^item> \<^theory_text>\<open>Executor\<close> (\<open>executor.rs\<close>, \<open>orchestrator.rs\<close>, the shutdown flag of \<open>main.rs\<close>,
    \<open>available_cores\<close> of \<open>affinity.rs\<close>): spawning, and the loop of an executor with its batches of
    a hundred, idle counter and flag; \<open>exec_step\<close> refines \<open>pipeline_step\<close>. \<^theory_text>\<open>Stage_Relations\<close>:
    the single-threaded and the multi-core stages compared, and the connection gauge.
  \<^item> \<^theory_text>\<open>Server_Wiring\<close>: the trait \<open>ExecutableStage\<close> and its objects, \<open>run_loop\<close> for any object
    on any queues, the calls of \<open>main\<close> that wire them, the accessors of the orchestrator, and
    \<open>pin_to_core\<close> (\<open>affinity.rs\<close>). The pipeline is what this wiring gives.
  \<^item> \<^theory_text>\<open>Pipeline_Data\<close>: what each stage leaves in the slab for the next, for every interleaving;
    \<open>tracked_step\<close> is \<open>pipeline_step\<close> with a record of the socket each identifier came with.
    \<^theory_text>\<open>Pipeline_Drain\<close>: the work left in a state, which every step but an accept uses up.
    \<^theory_text>\<open>Pipeline_Answers\<close>: what happens to a complete request when the queues have room.
    \<^theory_text>\<open>Fair_Runs\<close>: infinite runs, weak fairness, and the interfaces \<open>ranked_goal\<close> and
    \<open>live_goal\<close> of a system whose threads bring a ranking down. \<^theory_text>\<open>Pipeline_Fair\<close>: the pipeline
    under a fair scheduler is one. \<^theory_text>\<open>Executor_Fair\<close>: a fair run of the executor loops, with their
    batches, idle counters and flags, is a fair run of the pipeline. \<^theory_text>\<open>Shutdown\<close>: the end of \<open>main\<close>, with \<open>Orchestrator::shutdown\<close>,
    \<open>Orchestrator::join\<close>, \<open>StageExecutor::join\<close> and its \<open>Drop\<close>, is another.
    \<^theory_text>\<open>Pipeline_Tuning\<close>: the metrics of the pipeline as the rules of the analyzer see them.
  \<^item> \<^theory_text>\<open>Single_Round\<close>: the single-threaded stages as objects over shared queues, with the
    interface \<open>batch_stage\<close> of a stage that handles a batch of connections.
  \<^item> \<^theory_text>\<open>Sharded_Slab\<close> (\<open>slab/sharded.rs\<close>, \<open>slab/numa.rs\<close>): a shard and the manager, both
    further interpretations of \<open>slot_store\<close>. \<^theory_text>\<open>Io_Mux\<close> (\<open>mux.rs\<close>).
  \<^item> \<^theory_text>\<open>Ieee_Float\<close>: binary floating point on rationals, with rounding to nearest and the
    saturating casts of Rust. \<^theory_text>\<open>Features\<close> and \<^theory_text>\<open>Ml_Bridge\<close> (\<open>ners-ml/src\<close>).
  \<^item> \<^theory_text>\<open>Analyzer\<close> (\<open>analyzer.rs\<close>), \<^theory_text>\<open>Policy\<close> (\<open>policy.rs\<close>, with the interface
    \<open>bounded_policy\<close> of the trait \<open>TuningPolicy\<close>), \<^theory_text>\<open>Tuner\<close> (\<open>tuner.rs\<close>): the engine is proved
    once for every policy that satisfies the interface, which both built-in ones do.
  \<^item> \<^theory_text>\<open>Defaults\<close>: the \<open>Default\<close> implementations and the accessors of all crates.
    \<^theory_text>\<open>Unit_Tests\<close>: the unit tests that stand beside the sources, which the model passes.

  \<^bold>\<open>What is shown.\<close>
  \<^item> Round trips: frames, frame streams in chunks, HPACK integers and whole HPACK sessions,
    requests through the complete HTTP/2 receive path, response headers, HTTP/1.1 requests.
  \<^item> Functional correctness: \<open>Frame::parse\<close> with its exact errors, eviction from the dynamic
    table, request bodies under interleaved frames, settings, response framing, and a complete
    request through all five stages of the server.
  \<^item> Invariants and safety: the dynamic table and its bound on any input, the HTTP/2 connection
    under any calls, stream states, the slab without aliases, and for the pipeline that in every
    reachable state an identifier is in at most one place and its slot is live.
  \<^item> Concurrency: the ring is a queue between two threads, the recorded maximum latency is exact
    for any number of threads, the executors refine the pipeline, and in every reachable state
    the gauge of connections is the number of occupied slots. Whatever the interleaving, a socket
    is only sent a prefix of the response the code gives to its own request, and only the parse
    thread can panic.
  \<^item> Liveness: with fewer connections in the pipeline than a queue has entries, every complete
    request in it comes to the output stage, however the threads interleave and whatever the other
    connections do short of killing the parse thread, and the output stage writes what the socket
    takes of the response, once; the whole response is written, and the slot freed, when the socket
    takes all of it, which is a premise on the network (\<open>takes_response\<close>) and not the rule for the
    landing page of 911719 bytes. A full queue loses a connection. Under a fair scheduler of the
    executor loops no such request starves while new connections keep arriving, and \<open>join\<close> returns.
    A quiet server is quiet again after one connection. On an idle server one round of the
    single-threaded stages answers up to a hundred connections whose sockets take their responses.
  \<^item> Termination: once the flags are set every executor ends within 303 of its own steps in every
    interleaving, and one of them can always move until all have ended or panicked. Without new
    connections the pipeline makes at most sixteen steps for each slot and stops with its queues
    empty, except for the queue of a dead parse thread.
  \<^item> Equivalence: the sharded slab is one slab per core; a single-threaded stage is the multi-core
    stage and a push, except for unfinished connections; the floating-point rules of the tuning
    policies are integer arithmetic; the threads that \<open>main\<close> spawns reach the states of the pipeline.
  \<^item> Types and bounds: features and predictions lie between zero and one in single precision, the
    memory pressure too, the load of the shards stays balanced, logs and histories are bounded,
    the moving average of the tuning engine settles at the latency.
  \<^item> Behaviour that the code most likely does not intend is stated as it is: requests that arrive
    in pieces and partial writes are abandoned by the multi-core stages (not by the
    single-threaded ones), one Content-Length can end the parse thread, a request without
    headers is never answered, \<open>/health\<close> and \<open>/metrics\<close> of the README are answered with 404
    (\<open>response_for\<close> is the response of the code, not of the documentation), receive windows are not replenished, nothing ever requests the
    shutdown, the multiplexer completes no operation, a rollback hits the action just taken, an
    aggressive increase can shrink a queue, the tuning rules count every connection ever queued
    as still queued, and others.

  \<^bold>\<open>Conventions.\<close> The build is a release build: arithmetic wraps around. \<open>usize\<close> is a natural
  number, with the wrap-around written out (\<open>usize_add\<close>, \<open>usize_sub\<close>, \<open>usize_shl\<close>) where a value
  comes from the wire; the fields of frames and the counters are words. A slice or an index out
  of range, a division by zero and a failed shift of a range are the value \<open>Panic\<close> of a result;
  a panic unwinds the thread, which in \<open>Pipeline\<close> becomes \<open>EDead\<close>. The mutex of the slab does not
  poison and is released by the unwinding. Executors hold the lock while they push; the step
  relation lets other threads run between processing and pushing, so it has all behaviours of
  the code and more.

  \<^bold>\<open>Bounds and fuel.\<close> Loops over buffers terminate by their measures and need no fuel. \<open>drain\<close>
  (a client's receive loop) takes one more unit than bytes in the buffer, enough because every
  message takes a byte. \<open>stage_loop 100\<close> is the bound of the code itself. \<open>run_stages\<close> counts
  stages. The infinite runs have no bound; fairness is that a thread is not ready for ever without
  moving, and every reachable state of the pipeline has a fair run. The floating-point results are
  exact for queues below \<open>2 ^ 40\<close> entries
  (\<open>queues_bounded\<close>), more than any memory holds; the sums of the analyzer and the moving average
  of the tuner are exact where they do not reach the limits of \<open>u64\<close>, which is a hypothesis.

  \<^bold>\<open>Parameters.\<close> The landing page (an asset), the iteration order of hash maps where it shows in
  the output, the Unicode table of \<open>to_lowercase\<close>, the instants of the clock, the formatting of a
  float with two digits, the directory of NUMA nodes and the number of cores, the tuning policy
  (a trait object), the two calls of the crate \<open>nix\<close> that pin a thread, and what the operating
  system answers to each \<open>accept\<close>, \<open>read\<close> and \<open>write\<close>.

  \<^bold>\<open>Not modelled.\<close> Sleeping and logging, which change no state; the calls that open a listener and
  read its address, and the \<open>Arc\<close>s that share one object, which the model has as one state; the
  variant of \<open>pin_to_core\<close> for macOS, which does nothing; imports and module declarations; the unit
  tests that only call the operating system, the integration tests over real sockets and the
  benchmark.
\<close>

end
